(* ===== verification/Prelude.thy ===== *)
theory Prelude
  imports Main "HOL-Library.Word"
begin

text \<open>
  Shared vocabulary of the development: the machine integers of \<^verbatim>\<open>types.h\<close>, the ways a
  routine of the kernel can fail to return, sequencing of fallible steps, and the generic
  lemmas on 32-bit words and on lists that the component theories use.
\<close>

unbundle bit_operations_syntax

section \<open>Integers of types.h\<close>

type_synonym u8 = "8 word"
type_synonym u16 = "16 word"
type_synonym u32 = "32 word"

section \<open>Failing computations\<close>

text \<open>
  A routine either returns, or calls \<^verbatim>\<open>panic\<close> (which never returns), or makes an access the memory
  management unit does not map, or spins for ever, or does what C leaves undefined (an access past
  the end of an array, a division by zero).
\<close>

datatype err =
    Panic string
  | Abort u32
  | Hang
  | Undefined

type_synonym 'a res = "err + 'a"

definition bindR :: "'a res \<Rightarrow> ('a \<Rightarrow> 'b res) \<Rightarrow> 'b res" where
  "bindR m f = (case m of Inl e \<Rightarrow> Inl e | Inr a \<Rightarrow> f a)"

lemma bindR_simps [simp]:
  "bindR (Inl e) f = Inl e"
  "bindR (Inr a) f = f a"
  by (simp_all add: bindR_def)

lemma bindR_eq_Inr: "bindR m f = Inr b \<longleftrightarrow> (\<exists>a. m = Inr a \<and> f a = Inr b)"
  by (cases m) simp_all

lemma bindR_eq_Inl: "bindR m f = Inl e \<longleftrightarrow> m = Inl e \<or> (\<exists>a. m = Inr a \<and> f a = Inl e)"
  by (cases m) simp_all

lemma bindR_cong [fundef_cong]:
  assumes "m = m'" and "\<And>a. m' = Inr a \<Longrightarrow> f a = f' a"
  shows "bindR m f = bindR m' f'"
  using assms by (cases m') (simp_all add: bindR_def)

lemma bindR_assoc: "bindR (bindR m f) g = bindR m (\<lambda>a. bindR (f a) g)"
  by (cases m) simp_all

definition is_ok :: "'a res \<Rightarrow> bool" where
  "is_ok m = (case m of Inl _ \<Rightarrow> False | Inr _ \<Rightarrow> True)"

lemma is_ok_simps [simp]: "is_ok (Inr a)" "\<not> is_ok (Inl e)"
  by (simp_all add: is_ok_def)

section \<open>Lemma collections\<close>

named_theorems unat32 "arithmetic of 32-bit words read as natural numbers"
named_theorems layout "the constants of the memory layout, unfolded"

section \<open>32-bit words\<close>

lemma unat_lt32 [simp]: "unat (x :: u32) < 4294967296"
  using unsigned_less [of x] by simp

lemma unat_le32: "unat (x :: u32) \<le> 4294967295"
  using unat_lt32 [of x] by linarith

lemma unat_add32 [unat32]:
  "unat (x + y :: u32) = (unat x + unat y) mod 4294967296"
  by (simp add: unat_word_ariths)

lemma unat_add32_small:
  "unat x + unat y < 4294967296 \<Longrightarrow> unat (x + y :: u32) = unat x + unat y"
  by (simp add: unat32)

lemma unat_sub32 [unat32]:
  "unat (x - y :: u32) = (if unat y \<le> unat x then unat x - unat y else unat x + 4294967296 - unat y)"
  by (simp add: unat_sub_if')

lemma unat_of_nat32 [unat32]: "n < 4294967296 \<Longrightarrow> unat (word_of_nat n :: u32) = n"
  by (simp add: unat_of_nat)

lemma word32_eq_iff: "(x :: u32) = y \<longleftrightarrow> unat x = unat y"
  by (rule word_unat_eq_iff)

text \<open>Masking off low bits and shifting, as arithmetic.\<close>

lemma unat_and_mask32: "unat (x AND mask n :: u32) = unat x mod 2 ^ n"
  by (metis take_bit_eq_mask take_bit_eq_mod unsigned_take_bit_eq)

lemma and_not_mask32:
  "unat (x AND NOT (mask n) :: u32) = unat x - unat x mod 2 ^ n"
proof -
  have disj: "(x AND NOT (mask n)) AND (x AND mask n) = 0"
    by (simp add: bit_eq_iff bit_simps)
  have "(x AND NOT (mask n)) + (x AND mask n) = (x AND NOT (mask n)) OR (x AND mask n)"
    by (rule disjunctive_add_eq_or [OF disj])
  also have "\<dots> = x"
    by (auto simp: bit_eq_iff bit_simps)
  finally have "x AND NOT (mask n) = x - (x AND mask n)"
    by (metis add_diff_cancel_right')
  moreover have "x AND mask n \<le> x"
    by (simp add: word_and_le2)
  ultimately show ?thesis
    by (metis unat_and_mask32 unat_sub)
qed

lemma unat_drop_bit32: "unat (drop_bit n x :: u32) = unat x div 2 ^ n"
  by (metis drop_bit_eq_div unat_drop_bit_eq)

end
