(* ===== verification/Memlayout.thy ===== *)
theory Memlayout
  imports Prelude
begin

text \<open>
  The address-space layout: the page macros of \<^verbatim>\<open>mmu.h\<close>, the constants of \<^verbatim>\<open>memlayout.h\<close> for
  both build targets, the section table \<^verbatim>\<open>EntryPageTable\<close> of \<^verbatim>\<open>main.c\<close> the kernel boots on, and
  the translation the ARM1176 memory management unit performs on such tables.
\<close>

section \<open>mmu.h: pages and table indices\<close>

definition PGSIZE :: u32 where [layout]: "PGSIZE = 4096"
definition PTXSHIFT :: nat where [layout]: "PTXSHIFT = 12"
definition PDXSHIFT :: nat where [layout]: "PDXSHIFT = 20"

definition PDX :: "u32 \<Rightarrow> u32" where
  "PDX va = drop_bit PDXSHIFT va AND 0xFFF"

definition PTX :: "u32 \<Rightarrow> u32" where
  "PTX va = drop_bit PTXSHIFT va AND 0xFF"

definition PGADDR :: "u32 \<Rightarrow> u32 \<Rightarrow> u32 \<Rightarrow> u32" where
  "PGADDR d t o1 = push_bit PDXSHIFT d OR push_bit PTXSHIFT t OR o1"

definition PGROUNDUP :: "u32 \<Rightarrow> u32" where
  "PGROUNDUP sz = (sz + PGSIZE - 1) AND NOT (PGSIZE - 1)"

definition PGROUNDDOWN :: "u32 \<Rightarrow> u32" where
  "PGROUNDDOWN a = a AND NOT (PGSIZE - 1)"

definition PDE_ADDR :: "u32 \<Rightarrow> u32" where "PDE_ADDR pde = pde AND NOT 0x3FF"
definition PDE_FLAGS :: "u32 \<Rightarrow> u32" where "PDE_FLAGS pde = pde AND 0x3FF"
definition PTE_ADDR :: "u32 \<Rightarrow> u32" where "PTE_ADDR pte = pte AND NOT 0xFFF"
definition PTE_FLAGS :: "u32 \<Rightarrow> u32" where "PTE_FLAGS pte = pte AND 0xFFF"

text \<open>The attribute fields the kernel writes into its descriptors.\<close>

definition PDE_TYPES :: u32 where [layout]: "PDE_TYPES = 1"
definition P_bit :: u32 where [layout]: "P_bit = 0"
definition DOMAIN :: u32 where [layout]: "DOMAIN = 0xF"
definition NS :: u32 where [layout]: "NS = 0"
definition XN :: u32 where [layout]: "XN = 1"
definition B_bit :: u32 where [layout]: "B_bit = 0"
definition C_bit :: u32 where [layout]: "C_bit = 0"
definition TEX :: u32 where [layout]: "TEX = 1"
definition S_bit :: u32 where [layout]: "S_bit = 0"
definition AP :: u32 where [layout]: "AP = 2"
definition APX :: u32 where [layout]: "APX = 0"
definition nG :: u32 where [layout]: "nG = 0"

section \<open>memlayout.h\<close>

datatype target = QEMU | REAL

definition EXTMEM :: u32 where [layout]: "EXTMEM = 0x8000"
definition PHYSTOP :: u32 where [layout]: "PHYSTOP = 0x2000000"
definition DEVSPACE :: u32 where [layout]: "DEVSPACE = 0xFE000000"

fun GPIO_BASE_P :: "target \<Rightarrow> u32" where
  "GPIO_BASE_P QEMU = 0x101e4000"
| "GPIO_BASE_P REAL = 0x20200000"

fun UART0_BASE_P :: "target \<Rightarrow> u32" where
  "UART0_BASE_P QEMU = 0x101f1000"
| "UART0_BASE_P REAL = 0x20201000"

fun GPIO_BASE_V :: "target \<Rightarrow> u32" where
  "GPIO_BASE_V QEMU = 0xf2200000"
| "GPIO_BASE_V REAL = 0xf2200000"

fun UART0_BASE_V :: "target \<Rightarrow> u32" where
  "UART0_BASE_V QEMU = 0xf22f1000"
| "UART0_BASE_V REAL = 0xf2201000"

definition VIC_BASE :: u32 where [layout]: "VIC_BASE = 0xfffef000"
definition TIMER_BASE :: u32 where [layout]: "TIMER_BASE = 0x7e00b000"
definition VEC_TBL :: u32 where [layout]: "VEC_TBL = 0xffff0000"
definition KERNBASE :: u32 where [layout]: "KERNBASE = 0xc0000000"
definition KERNLINK :: u32 where [layout]: "KERNLINK = KERNBASE + EXTMEM"

definition v2p :: "u32 \<Rightarrow> u32" where "v2p a = a - KERNBASE"
definition p2v :: "u32 \<Rightarrow> u32" where "p2v a = a + KERNBASE"

section \<open>main.c: the entry section table\<close>

text \<open>
  One 1 MB section descriptor, as every initialiser of \<^verbatim>\<open>EntryPageTable\<close> spells it; only the
  base differs.
\<close>

definition section_desc :: "u32 \<Rightarrow> u32" where
  "section_desc base = 0 OR push_bit 20 base OR push_bit 19 NS OR push_bit 17 nG
     OR push_bit 16 S_bit OR push_bit 15 APX OR push_bit 12 TEX OR push_bit 10 AP
     OR push_bit 9 P_bit OR push_bit 5 DOMAIN OR push_bit 4 XN OR push_bit 3 C_bit
     OR push_bit 2 B_bit OR 0x2"

text \<open>
  The initialised entries, in the order of the source; entries not named are zero. The GPIO and
  UART windows share an index, and C lets the later initialiser win, as the update order does.
\<close>

definition EntryPageTable :: "target \<Rightarrow> u32 \<Rightarrow> u32" where
  "EntryPageTable t = (\<lambda>_. 0)
     (0x000 := section_desc 0x000, 0x001 := section_desc 0x001,
      0x002 := section_desc 0x002, 0x003 := section_desc 0x003,
      PDX (GPIO_BASE_P t) := section_desc (drop_bit 20 (GPIO_BASE_P t)),
      PDX (GPIO_BASE_V t) := section_desc (drop_bit 20 (GPIO_BASE_P t)),
      PDX (UART0_BASE_V t) := section_desc (drop_bit 20 (UART0_BASE_P t)),
      0xc00 := section_desc 0x000, 0xc01 := section_desc 0x001,
      0xc02 := section_desc 0x002, 0xc03 := section_desc 0x003)"

section \<open>The translation table walk of the ARM1176\<close>

text \<open>
  What the hardware does with a first-level table \<open>l1\<close> (indexed by bits 31:20 of the address) in
  a physical memory \<open>pm\<close>: descriptor type 2 is a 1 MB section, type 1 a coarse second-level
  table of 256 entries whose descriptors of type 2 or 3 are 4 KB small pages, and every other
  first-level descriptor faults. The walk is the hardware's, not a routine of the kernel: it is
  what gives the kernel's tables their meaning.
\<close>

definition mmu_walk :: "(u32 \<Rightarrow> u32) \<Rightarrow> (u32 \<Rightarrow> u32) \<Rightarrow> u32 \<Rightarrow> u32 option" where
  "mmu_walk l1 pm va =
     (let d = l1 (PDX va)
      in if d AND 3 = 2 then Some ((d AND NOT 0xFFFFF) OR (va AND 0xFFFFF))
         else if d AND 3 = 1 then
           (let e = pm ((d AND NOT 0x3FF) + 4 * PTX va)
            in if e AND 2 = 2 then Some ((e AND NOT 0xFFF) OR (va AND 0xFFF)) else None)
         else None)"

text \<open>The translation in force while the kernel still runs on \<^const>\<open>EntryPageTable\<close>.\<close>

definition entry_translate :: "target \<Rightarrow> u32 \<Rightarrow> u32 option" where
  "entry_translate t = mmu_walk (EntryPageTable t) (\<lambda>_. 0)"

section \<open>Lemmas\<close>

lemma pgmask: "(PGSIZE - 1 :: u32) = mask 12"
  by (simp add: PGSIZE_def mask_eq_exp_minus_1)

lemma unat_PGROUNDDOWN [unat32]: "unat (PGROUNDDOWN a) = unat a - unat a mod 4096"
  using and_not_mask32 [of a 12] by (simp add: PGROUNDDOWN_def pgmask)

lemma unat_PDX [unat32]: "unat (PDX va) = unat va div 1048576"
proof -
  have "(0xFFF :: u32) = mask 12" by (simp add: mask_eq_exp_minus_1)
  then have "unat (PDX va) = unat va div 1048576 mod 4096"
    using unat_and_mask32 [of "drop_bit 20 va" 12]
    by (simp add: PDX_def PDXSHIFT_def unat_drop_bit32)
  moreover have "unat va div 1048576 < 4096"
    using unat_lt32 [of va] by (simp add: less_mult_imp_div_less)
  ultimately show ?thesis by simp
qed

lemma unat_PTX [unat32]: "unat (PTX va) = unat va div 4096 mod 256"
proof -
  have "(0xFF :: u32) = mask 8" by (simp add: mask_eq_exp_minus_1)
  then show ?thesis
    using unat_and_mask32 [of "drop_bit 12 va" 8]
    by (simp add: PTX_def PTXSHIFT_def unat_drop_bit32)
qed

text \<open>The page and section arithmetic of the walk.\<close>

lemma mask_lits: "(0xFFF :: u32) = mask 12" "(0xFF :: u32) = mask 8" "(0x3FF :: u32) = mask 10"
  "(0xFFFFF :: u32) = mask 20" "(3 :: u32) = mask 2"
  by (simp_all add: mask_eq_exp_minus_1)

lemma or_low_add:
  assumes "unat (a :: u32) mod 2 ^ n = 0" and "unat b < 2 ^ n"
  shows "a OR b = a + b"
proof -
  have "a AND mask n = 0"
    using assms(1) by (simp add: word32_eq_iff unat_and_mask32)
  moreover have "b AND mask n = b"
    using assms(2) by (simp add: word32_eq_iff unat_and_mask32)
  ultimately have "a AND b = 0"
    by (metis and.left_commute and_zero_eq)
  then show ?thesis by (metis disjunctive_add_eq_or)
qed

lemma push_bit_and_mask: "n \<le> k \<Longrightarrow> push_bit k (b :: u32) AND mask n = 0"
  by (rule bit_word_eqI) (auto simp: bit_simps)

lemma push_bit_and_not_mask: "push_bit k (b :: u32) AND NOT (mask k) = push_bit k b"
  by (rule bit_word_eqI) (auto simp: bit_simps)

lemma section_desc_eq: "section_desc b = push_bit 20 b OR 0x19F2"
  by (simp add: section_desc_def layout)

lemma section_desc_type: "section_desc b AND 3 = 2"
proof -
  have "section_desc b AND 3 = (push_bit 20 b AND mask 2) OR (0x19F2 AND 3)"
    by (simp only: section_desc_eq bit.conj_disj_distrib2 mask_lits)
  then show ?thesis by (simp add: push_bit_and_mask)
qed

lemma section_desc_base: "section_desc b AND NOT 0xFFFFF = push_bit 20 b"
proof -
  have "section_desc b AND NOT 0xFFFFF
      = (push_bit 20 b AND NOT (mask 20)) OR (0x19F2 AND NOT 0xFFFFF)"
    by (simp only: section_desc_eq bit.conj_disj_distrib2 mask_lits)
  also have "(0x19F2 AND NOT 0xFFFFF :: u32) = 0" by simp
  finally show ?thesis by (simp only: push_bit_and_not_mask or.right_neutral)
qed

lemma unat_section:
  assumes "unat (b :: u32) < 4096"
  shows "unat (push_bit 20 b OR (va AND 0xFFFFF)) = unat b * 1048576 + unat va mod 1048576"
proof -
  have p: "unat (push_bit 20 b) = unat b * 1048576"
    using assms by (simp add: push_bit_eq_mult unat_word_ariths)
  have v: "unat (va AND 0xFFFFF) = unat va mod 1048576"
    by (simp add: mask_lits unat_and_mask32)
  have "push_bit 20 b OR (va AND 0xFFFFF) = push_bit 20 b + (va AND 0xFFFFF)"
    by (rule or_low_add [where n = 20]) (simp_all add: p v)
  then show ?thesis
    using assms by (simp add: unat_word_ariths p v)
qed

lemma entry_translate_section:
  assumes "EntryPageTable t (PDX va) = section_desc b"
  shows "entry_translate t va = Some (push_bit 20 b OR (va AND 0xFFFFF))"
  using assms by (simp add: entry_translate_def mmu_walk_def section_desc_type section_desc_base [simplified])

lemma EntryPageTable_low:
  assumes "unat i < 4"
  shows "EntryPageTable t i = section_desc i"
proof -
  from assms consider "unat i = 0" | "unat i = 1" | "unat i = 2" | "unat i = 3" by linarith
  then consider "i = 0" | "i = 1" | "i = 2" | "i = 3"
    by (cases; simp add: word32_eq_iff)
  then show ?thesis
    by cases (cases t; simp add: EntryPageTable_def PDX_def PDXSHIFT_def)+
qed

lemma EntryPageTable_kern:
  assumes "unat i < 4"
  shows "EntryPageTable t (0xc00 + i) = section_desc i"
proof -
  from assms consider "unat i = 0" | "unat i = 1" | "unat i = 2" | "unat i = 3" by linarith
  then consider "i = 0" | "i = 1" | "i = 2" | "i = 3"
    by (cases; simp add: word32_eq_iff)
  then show ?thesis
    by cases (cases t; simp add: EntryPageTable_def PDX_def PDXSHIFT_def)+
qed

lemma EntryPageTable_uart:
  "EntryPageTable t (PDX (UART0_BASE_V t)) = section_desc (drop_bit 20 (UART0_BASE_P t))"
  by (cases t; simp add: EntryPageTable_def PDX_def PDXSHIFT_def)

text \<open>The first 4 MB are mapped twice: one to one, and at \<^const>\<open>KERNBASE\<close>.\<close>

lemma entry_translate_low:
  assumes "unat va < 0x400000"
  shows "entry_translate t va = Some va"
proof -
  have "unat (PDX va) < 4" using assms by (simp add: unat32)
  then have "entry_translate t va = Some (push_bit 20 (PDX va) OR (va AND 0xFFFFF))"
    by (intro entry_translate_section EntryPageTable_low)
  moreover have "push_bit 20 (PDX va) OR (va AND 0xFFFFF) = va"
    using unat_section [of "PDX va" va] \<open>unat (PDX va) < 4\<close>
    by (simp add: word32_eq_iff unat32)
  ultimately show ?thesis by simp
qed

lemma entry_translate_kern:
  assumes "unat KERNBASE \<le> unat va" and "unat va < unat KERNBASE + 0x400000"
  shows "entry_translate t va = Some (v2p va)"
proof -
  define i where "i = PDX va - 0xc00"
  have "unat (PDX va) = unat va div 1048576" by (simp add: unat32)
  moreover have "3072 \<le> unat va div 1048576" "unat va div 1048576 < 3076"
    using assms by (simp_all add: KERNBASE_def)
  ultimately have i: "unat i = unat va div 1048576 - 3072" "unat i < 4"
    by (simp_all add: i_def unat32)
  have "entry_translate t va = Some (push_bit 20 i OR (va AND 0xFFFFF))"
    using EntryPageTable_kern [OF i(2)] by (intro entry_translate_section) (simp add: i_def)
  moreover have "(unat va div 1048576 - 3072) * 1048576 + unat va mod 1048576 = unat va - 3221225472"
  proof -
    have "3072 * 1048576 \<le> unat va div 1048576 * 1048576"
      using \<open>3072 \<le> unat va div 1048576\<close> by (rule mult_le_mono1)
    moreover have "unat va div 1048576 * 1048576 + unat va mod 1048576 = unat va"
      by (rule div_mult_mod_eq)
    ultimately show ?thesis by (simp only: diff_mult_distrib)
  qed
  then have "push_bit 20 i OR (va AND 0xFFFFF) = v2p va"
    using unat_section [of i va] i assms
    by (simp add: word32_eq_iff unat32 v2p_def KERNBASE_def)
  ultimately show ?thesis by simp
qed

text \<open>
  On the boot table the UART registers the kernel addresses at their virtual window reach
  the UART of the build target.
\<close>

lemma entry_translate_uart:
  assumes "unat r < 4096"
  shows "entry_translate t (UART0_BASE_V t + r) = Some (UART0_BASE_P t + r)"
proof (cases t)
  case QEMU
  have u: "unat (0xf22f1000 + r) = 0xf22f1000 + unat r"
    using assms by (simp add: unat32)
  then have "PDX (UART0_BASE_V t + r) = PDX (UART0_BASE_V t)"
    using assms QEMU by (simp add: word32_eq_iff unat_PDX)
  then have "entry_translate t (UART0_BASE_V t + r)
      = Some (push_bit 20 (drop_bit 20 (UART0_BASE_P t)) OR ((UART0_BASE_V t + r) AND 0xFFFFF))"
    by (intro entry_translate_section) (simp add: EntryPageTable_uart)
  moreover have "(0xf22f1000 + unat r) mod 1048576 = 0xf1000 + unat r"
    using assms mod_mult_self1 [of "0xf1000 + unat r" 3874 1048576] by simp
  then have "push_bit 20 (drop_bit 20 (UART0_BASE_P t)) OR ((UART0_BASE_V t + r) AND 0xFFFFF)
      = UART0_BASE_P t + r"
    using unat_section [of "0x101" "0xf22f1000 + r"] u assms QEMU
    by (simp add: word32_eq_iff unat_add32)
  ultimately show ?thesis by simp
next
  case REAL
  have u: "unat (0xf2201000 + r) = 0xf2201000 + unat r"
    using assms by (simp add: unat32)
  then have "PDX (UART0_BASE_V t + r) = PDX (UART0_BASE_V t)"
    using assms REAL by (simp add: word32_eq_iff unat_PDX)
  then have "entry_translate t (UART0_BASE_V t + r)
      = Some (push_bit 20 (drop_bit 20 (UART0_BASE_P t)) OR ((UART0_BASE_V t + r) AND 0xFFFFF))"
    by (intro entry_translate_section) (simp add: EntryPageTable_uart)
  moreover have "(0xf2201000 + unat r) mod 1048576 = 0x1000 + unat r"
    using assms mod_mult_self1 [of "0x1000 + unat r" 3874 1048576] by simp
  then have "push_bit 20 (drop_bit 20 (UART0_BASE_P t)) OR ((UART0_BASE_V t + r) AND 0xFFFFF)
      = UART0_BASE_P t + r"
    using unat_section [of "0x202" "0xf2201000 + r"] u assms REAL
    by (simp add: word32_eq_iff unat_add32)
  ultimately show ?thesis by simp
qed

text \<open>
  \<^verbatim>\<open>PGADDR\<close> rebuilds an address from its table indices and its offset in the page.
\<close>

lemma PGADDR_roundtrip: "PGADDR (PDX va) (PTX va) (va AND 0xFFF) = va"
proof (rule bit_word_eqI)
  fix n :: nat
  assume "n < LENGTH(32)"
  then consider "n < 12" | "12 \<le> n" "n < 20" | "20 \<le> n" "n < 32" by fastforce
  then show "bit (PGADDR (PDX va) (PTX va) (va AND 0xFFF)) n = bit va n"
    by cases (auto simp: PGADDR_def PDX_def PTX_def PTXSHIFT_def PDXSHIFT_def mask_lits bit_simps)
qed

end
