(* ===== verification/Arm.thy ===== *)
theory Arm
  imports Memlayout
begin

text \<open>
  The processor support of \<^verbatim>\<open>arm.c\<close> (interrupt masking, matched \<^verbatim>\<open>pushcli\<close>/\<^verbatim>\<open>popcli\<close>, the call
  stack recorder) and the single-processor spin locks of \<^verbatim>\<open>spinlock.c\<close> built on it.
  C truth values are \<^typ>\<open>bool\<close>; the machine code statements \<^verbatim>\<open>MRS\<close> and \<^verbatim>\<open>MSR\<close> read and write the
  \<open>cpsr\<close> field.
\<close>

section \<open>arm.c: the processor state\<close>

definition DIS_INT :: u32 where "DIS_INT = 0x80"
definition MODE_MASK :: u32 where "MODE_MASK = 0x1f"
definition USR_MODE :: u32 where "USR_MODE = 0x10"
definition N_CALLSTK :: nat where "N_CALLSTK = 15"

text \<open>The fields of \<^verbatim>\<open>struct cpu\<close> the code uses, with the status register of the processor.\<close>

record cpu =
  cpsr :: u32
  ncli :: int
  intena :: bool

definition cli :: "cpu \<Rightarrow> cpu" where
  "cli c = c\<lparr>cpsr := cpsr c OR DIS_INT\<rparr>"

definition sti :: "cpu \<Rightarrow> cpu" where
  "sti c = c\<lparr>cpsr := cpsr c AND NOT DIS_INT\<rparr>"

definition spsr_usr :: "cpu \<Rightarrow> u32" where
  "spsr_usr c = (cpsr c AND NOT MODE_MASK) OR USR_MODE"

definition int_enabled :: "cpu \<Rightarrow> bool" where
  "int_enabled c \<longleftrightarrow> cpsr c AND DIS_INT = 0"

definition pushcli :: "cpu \<Rightarrow> cpu" where
  "pushcli c =
     (let enabled = int_enabled c;
          c1 = cli c;
          n = ncli c1;
          c2 = c1\<lparr>ncli := n + 1\<rparr>
      in if n = 0 then c2\<lparr>intena := enabled\<rparr> else c2)"

definition popcli :: "cpu \<Rightarrow> cpu res" where
  "popcli c =
     (if int_enabled c then Inl (Panic ''popcli - interruptible'')
      else let c1 = c\<lparr>ncli := ncli c - 1\<rparr>
           in if ncli c1 < 0 then Inl (Panic ''popcli -- ncli < 0'')
              else if ncli c1 = 0 \<and> intena c1 then Inr (sti c1)
              else Inr c1)"

text \<open>
  The loop of \<^verbatim>\<open>getcallerpcs\<close> over the remaining slots of \<^verbatim>\<open>pcs[]\<close>: \<open>rd\<close> reads a word of kernel
  memory, \<open>fp\<close> points at a saved return address with the saved frame pointer below it.
\<close>

fun callerpcs_loop :: "(u32 \<Rightarrow> u32) \<Rightarrow> u32 \<Rightarrow> nat \<Rightarrow> u32 list" where
  "callerpcs_loop rd fp 0 = []"
| "callerpcs_loop rd fp (Suc n) =
     (if fp = 0 \<or> fp < KERNBASE \<or> fp = 0xffffffff then replicate (Suc n) 0
      else let fp1 = fp - 4
           in rd (fp1 + 4) # callerpcs_loop rd (rd fp1) n)"

definition getcallerpcs :: "(u32 \<Rightarrow> u32) \<Rightarrow> u32 \<Rightarrow> u32 list" where
  "getcallerpcs rd v = callerpcs_loop rd v N_CALLSTK"

section \<open>spinlock.c\<close>

record spinlock =
  locked :: u32
  name :: string
  lk_cpu :: u32
  pcs :: "u32 list"

definition init_lock :: "spinlock \<Rightarrow> string \<Rightarrow> spinlock" where
  "init_lock lk n = lk\<lparr>name := n, locked := 0, lk_cpu := 0\<rparr>"

definition acquire :: "cpu \<times> spinlock \<Rightarrow> cpu \<times> spinlock" where
  "acquire s = (case s of (c, lk) \<Rightarrow> (pushcli c, lk\<lparr>locked := 1\<rparr>))"

definition release :: "cpu \<times> spinlock \<Rightarrow> (cpu \<times> spinlock) res" where
  "release s = (case s of (c, lk) \<Rightarrow>
     (let lk1 = lk\<lparr>locked := 0\<rparr> in bindR (popcli c) (\<lambda>c1. Inr (c1, lk1))))"

text \<open>\<^verbatim>\<open>cpus\<close> is the address of the processor table.\<close>

definition holding :: "u32 \<Rightarrow> spinlock \<Rightarrow> bool" where
  "holding cpus lk \<longleftrightarrow> locked lk \<noteq> 0 \<and> lk_cpu lk = cpus"

section \<open>Matched sequences of masking operations\<close>

text \<open>
  A trace of masking operations, for any pair of a push and a pop: \<^verbatim>\<open>pushcli\<close>/\<^verbatim>\<open>popcli\<close>, and
  \<^verbatim>\<open>acquire\<close>/\<^verbatim>\<open>release\<close> which are built on them.
\<close>

datatype cli_op = Push | Pop

fun mask_run :: "('s \<Rightarrow> 's) \<Rightarrow> ('s \<Rightarrow> 's res) \<Rightarrow> cli_op list \<Rightarrow> 's \<Rightarrow> 's res" where
  "mask_run push pop [] s = Inr s"
| "mask_run push pop (Push # ops) s = mask_run push pop ops (push s)"
| "mask_run push pop (Pop # ops) s = bindR (pop s) (mask_run push pop ops)"

text \<open>The nesting depth after a trace that starts at depth \<open>d\<close>, if it never drops below zero.\<close>

fun cli_depth :: "nat \<Rightarrow> cli_op list \<Rightarrow> nat option" where
  "cli_depth d [] = Some d"
| "cli_depth d (Push # ops) = cli_depth (Suc d) ops"
| "cli_depth d (Pop # ops) = (case d of 0 \<Rightarrow> None | Suc e \<Rightarrow> cli_depth e ops)"

text \<open>
  The state at nesting depth \<open>d\<close> of a processor whose status register was \<open>p\<close> at depth 0: masked
  exactly while the depth is positive, with the original mask remembered in \<open>intena\<close>.
\<close>

definition cli_at :: "u32 \<Rightarrow> nat \<Rightarrow> cpu \<Rightarrow> bool" where
  "cli_at p d c \<longleftrightarrow> ncli c = int d \<and>
     (if d = 0 then cpsr c = p
      else cpsr c = p OR DIS_INT \<and> intena c = (p AND DIS_INT = 0))"

text \<open>
  The contract of nested masking, and what its clients get from it: every trace that stays
  matched runs to its end, and one that pops below zero stops in a panic.
\<close>

locale nested_mask =
  fixes at :: "u32 \<Rightarrow> nat \<Rightarrow> 's \<Rightarrow> bool"
    and push :: "'s \<Rightarrow> 's"
    and pop :: "'s \<Rightarrow> 's res"
  assumes push_at: "at p d s \<Longrightarrow> at p (Suc d) (push s)"
    and pop_at: "at p (Suc d) s \<Longrightarrow> \<exists>s'. pop s = Inr s' \<and> at p d s'"
    and pop_zero: "at p 0 s \<Longrightarrow> \<exists>m. pop s = Inl (Panic m)"
begin

lemma run_matched:
  "cli_depth d ops = Some d' \<Longrightarrow> at p d s \<Longrightarrow>
     \<exists>s'. mask_run push pop ops s = Inr s' \<and> at p d' s'"
proof (induction ops arbitrary: d s)
  case Nil
  then show ?case by simp
next
  case (Cons a ops)
  show ?case
  proof (cases a)
    case Push
    with Cons show ?thesis by (auto dest: push_at)
  next
    case Pop
    with Cons.prems obtain e where e: "d = Suc e" "cli_depth e ops = Some d'"
      by (auto split: nat.splits)
    with Cons.prems(2) obtain s1 where "pop s = Inr s1" "at p e s1"
      by (auto dest: pop_at)
    with Cons.IH [OF e(2)] Pop show ?thesis by simp
  qed
qed

lemma run_unmatched:
  "cli_depth d ops = None \<Longrightarrow> at p d s \<Longrightarrow> \<exists>m. mask_run push pop ops s = Inl (Panic m)"
proof (induction ops arbitrary: d s)
  case Nil
  then show ?case by simp
next
  case (Cons a ops)
  show ?case
  proof (cases a)
    case Push
    with Cons show ?thesis by (auto dest: push_at)
  next
    case Pop
    show ?thesis
    proof (cases d)
      case 0
      with Cons.prems(2) Pop show ?thesis by (auto dest: pop_zero)
    next
      case (Suc e)
      with Cons.prems(2) obtain s1 where "pop s = Inr s1" "at p e s1"
        by (auto dest: pop_at)
      with Cons Pop Suc show ?thesis by auto
    qed
  qed
qed

end

section \<open>Lemmas\<close>

text \<open>The interrupt bit.\<close>

lemma int_enabled_bit: "int_enabled c \<longleftrightarrow> \<not> bit (cpsr c) 7"
proof -
  have "DIS_INT = push_bit 7 1" by (simp add: DIS_INT_def)
  then show ?thesis
    by (simp add: int_enabled_def bit_iff_and_push_bit_not_eq_0)
qed

lemma cli_disables [simp]: "\<not> int_enabled (cli c)"
  by (simp add: int_enabled_bit cli_def DIS_INT_def bit_or_iff)

lemma sti_enables [simp]: "int_enabled (sti c)"
  by (simp add: int_enabled_bit sti_def DIS_INT_def bit_and_iff bit_not_iff)

lemma int_enabled_cpsr: "int_enabled (c\<lparr>ncli := n\<rparr>) = int_enabled c"
  by (simp add: int_enabled_def)

lemma pushcli_at: "cli_at p d c \<Longrightarrow> cli_at p (Suc d) (pushcli c)"
  by (auto simp: cli_at_def pushcli_def cli_def int_enabled_def Let_def split: if_splits)

lemma bit_DIS_INT: "bit DIS_INT n \<longleftrightarrow> n = 7"
proof -
  have d: "DIS_INT = push_bit 7 1" by (simp add: DIS_INT_def)
  show ?thesis
    unfolding d bit_push_bit_iff bit_1_iff possible_bit_word by auto
qed

lemma unmask_restore:
  "(if p AND DIS_INT = 0 then (p OR DIS_INT) AND NOT DIS_INT else p OR DIS_INT) = p"
  using int_enabled_bit [of "\<lparr>cpsr = p, ncli = 0, intena = False\<rparr>"]
  by (intro bit_word_eqI) (auto simp: int_enabled_def bit_simps bit_DIS_INT)

lemma popcli_at: "cli_at p (Suc d) c \<Longrightarrow> \<exists>c'. popcli c = Inr c' \<and> cli_at p d c'"
proof -
  assume at: "cli_at p (Suc d) c"
  then have off: "\<not> int_enabled c"
    by (simp add: cli_at_def int_enabled_bit DIS_INT_def bit_or_iff)
  show ?thesis
    using at off unmask_restore [of p]
    by (auto simp: popcli_def Let_def cli_at_def sti_def split: if_splits)
qed

lemma popcli_zero: "cli_at p 0 c \<Longrightarrow> \<exists>m. popcli c = Inl (Panic m)"
  by (auto simp: popcli_def Let_def cli_at_def)

interpretation cli: nested_mask cli_at pushcli popcli
  by unfold_locales (rule pushcli_at popcli_at popcli_zero, assumption)+

interpretation lock: nested_mask "\<lambda>p d s. cli_at p d (fst s)" acquire release
proof unfold_locales
  fix p d and s :: "cpu \<times> spinlock"
  assume "cli_at p d (fst s)"
  then show "cli_at p (Suc d) (fst (acquire s))"
    by (auto simp: acquire_def pushcli_at split: prod.splits)
next
  fix p d and s :: "cpu \<times> spinlock"
  assume "cli_at p (Suc d) (fst s)"
  then show "\<exists>s'. release s = Inr s' \<and> cli_at p d (fst s')"
    by (cases s) (auto simp: release_def Let_def dest: popcli_at)
next
  fix p and s :: "cpu \<times> spinlock"
  assume "cli_at p 0 (fst s)"
  then show "\<exists>m. release s = Inl (Panic m)"
    by (cases s) (auto simp: release_def Let_def dest: popcli_zero)
qed

section \<open>Interrupt state across matched sections\<close>



text \<open>
  A trace of \<^verbatim>\<open>acquire\<close> and \<^verbatim>\<open>release\<close> on a lock that releases more often than it acquired stops
  in a panic of \<^verbatim>\<open>popcli\<close>; the matched ones do not.
\<close>

lemma release_unmatched_panics:
  assumes "ncli c = 0"
  shows "(\<exists>m. mask_run acquire release ops (c, lk) = Inl (Panic m)) \<longleftrightarrow> cli_depth 0 ops = None"
proof -
  have at: "cli_at (cpsr c) 0 (fst (c, lk))" using assms by (simp add: cli_at_def)
  show ?thesis
  proof (cases "cli_depth 0 ops")
    case None
    with lock.run_unmatched [OF None at] show ?thesis by simp
  next
    case (Some d)
    with lock.run_matched [OF Some at] show ?thesis by auto
  qed
qed

text \<open>
  A single critical section, as the allocator and the console use it: the lock is free again, and
  the interrupt state is the caller's.
\<close>

lemma critical_section:
  assumes "cli_at p d c"
  shows "\<exists>c1 c2. acquire (c, lk) = (c1, lk\<lparr>locked := 1\<rparr>) \<and> cli_at p (Suc d) c1
    \<and> release (c1, lk\<lparr>locked := 1\<rparr>) = Inr (c2, lk\<lparr>locked := 0\<rparr>) \<and> cli_at p d c2"
proof -
  have c1: "cli_at p (Suc d) (pushcli c)" by (rule pushcli_at [OF assms])
  from popcli_at [OF c1] obtain c2 where "popcli (pushcli c) = Inr c2" "cli_at p d c2" by blast
  with c1 show ?thesis by (simp add: acquire_def release_def Let_def)
qed

lemma mask_run_lk_cpu:
  "mask_run acquire release ops s = Inr s' \<Longrightarrow> lk_cpu (snd s') = lk_cpu (snd s)"
proof (induction ops arbitrary: s)
  case Nil
  then show ?case by simp
next
  case (Cons a ops)
  show ?case
  proof (cases a)
    case Push
    with Cons show ?thesis by (cases s) (auto simp: acquire_def)
  next
    case Pop
    with Cons.prems obtain s1 where "release s = Inr s1" "mask_run acquire release ops s1 = Inr s'"
      by (auto simp: bindR_eq_Inr)
    with Cons.IH show ?thesis
      by (cases s) (fastforce simp: release_def Let_def bindR_eq_Inr)
  qed
qed

text \<open>
  C29: \<^verbatim>\<open>holding\<close> answers no for every lock that was initialised, however often it was acquired and
  released since: \<^verbatim>\<open>acquire\<close> does not record the holder any more.
\<close>

theorem holding_always_false:
  assumes "mask_run acquire release ops (c, init_lock lk n) = Inr (c', lk')" and "cpus \<noteq> 0"
  shows "\<not> holding cpus lk'"
  using mask_run_lk_cpu [OF assms(1)] assms(2) by (simp add: init_lock_def holding_def)

theorem holding_always_false_witness:
  "\<not> holding 0xc0010000
     (snd (acquire (\<lparr>cpsr = 0x13, ncli = 0, intena = False\<rparr>,
        init_lock \<lparr>locked = 0, name = [], lk_cpu = 0, pcs = []\<rparr> ''kmem'')))"
  using holding_always_false [of "[Push]" "\<lparr>cpsr = 0x13, ncli = 0, intena = False\<rparr>"
      "\<lparr>locked = 0, name = [], lk_cpu = 0, pcs = []\<rparr>" "''kmem''"
      "fst (acquire (\<lparr>cpsr = 0x13, ncli = 0, intena = False\<rparr>,
        init_lock \<lparr>locked = 0, name = [], lk_cpu = 0, pcs = []\<rparr> ''kmem''))"]
  by simp

section \<open>The call stack recorder\<close>

text \<open>
  A chain of stack frames in memory: at each frame pointer lies the return address, below it the
  caller's frame pointer; the chain ends at a pointer outside kernel space.
\<close>

definition stop_fp :: "u32 \<Rightarrow> bool" where
  "stop_fp fp \<longleftrightarrow> fp = 0 \<or> fp < KERNBASE \<or> fp = 0xffffffff"

fun frames :: "(u32 \<Rightarrow> u32) \<Rightarrow> u32 \<Rightarrow> u32 list \<Rightarrow> bool" where
  "frames rd fp [] \<longleftrightarrow> stop_fp fp"
| "frames rd fp (lr # lrs) \<longleftrightarrow> \<not> stop_fp fp \<and> rd fp = lr \<and> frames rd (rd (fp - 4)) lrs"

lemma callerpcs_loop_frames:
  "frames rd fp lrs \<Longrightarrow>
     callerpcs_loop rd fp n = take n lrs @ replicate (n - length lrs) 0"
proof (induction lrs arbitrary: fp n)
  case Nil
  then show ?case by (cases n) (simp_all add: stop_fp_def)
next
  case (Cons lr lrs)
  then show ?case by (cases n) (auto simp: stop_fp_def)
qed

text \<open>
  \<^verbatim>\<open>getcallerpcs\<close> fills exactly 15 slots: the return addresses of the call chain, newest first,
  cut off after 15, and zeros after them.
\<close>

lemma getcallerpcs_records_chain:
  assumes "frames rd fp lrs"
  shows "getcallerpcs rd fp = take 15 lrs @ replicate (15 - length lrs) 0
     \<and> length (getcallerpcs rd fp) = 15"
  using callerpcs_loop_frames [OF assms, of 15] by (simp add: getcallerpcs_def N_CALLSTK_def)

end
