(* ===== verification/Uart.thy ===== *)
theory Uart
  imports Memlayout
begin

text \<open>
  Register access of \<^verbatim>\<open>mmio.c\<close> and the serial port driver of \<^verbatim>\<open>uart.c\<close>. A device is seen through
  the registers only: the words written to them, in order, and for each read the word the device
  answers with. The polling loop of \<^verbatim>\<open>uart_putc\<close> may wait for ever on a device that never
  becomes ready, so it is a partial function; the theorems say when it returns.
\<close>

section \<open>mmio.c\<close>

text \<open>\<open>answer n reg\<close> is what the device returns to the \<open>n\<close>-th read, of register \<open>reg\<close>.\<close>

record dev =
  wlog :: "(u32 \<times> u32) list"
  reads :: nat
  answer :: "nat \<Rightarrow> u32 \<Rightarrow> u32"

definition mmio_write :: "u32 \<Rightarrow> u32 \<Rightarrow> dev \<Rightarrow> dev" where
  "mmio_write reg data d = d\<lparr>wlog := wlog d @ [(reg, data)]\<rparr>"

definition mmio_read :: "u32 \<Rightarrow> dev \<Rightarrow> u32 \<times> dev" where
  "mmio_read reg d = (answer d (reads d) reg, d\<lparr>reads := Suc (reads d)\<rparr>)"

section \<open>uart.h\<close>

definition GPPUD :: "target \<Rightarrow> u32" where "GPPUD t = GPIO_BASE_V t + 0x94"
definition GPPUDCLK0 :: "target \<Rightarrow> u32" where "GPPUDCLK0 t = GPIO_BASE_V t + 0x98"
definition UART0ADDR :: "target \<Rightarrow> u32" where "UART0ADDR t = UART0_BASE_V t"
definition UART0_FR :: "target \<Rightarrow> u32" where "UART0_FR t = UART0_BASE_V t + 0x18"
definition UART0_IBRD :: "target \<Rightarrow> u32" where "UART0_IBRD t = UART0_BASE_V t + 0x24"
definition UART0_FBRD :: "target \<Rightarrow> u32" where "UART0_FBRD t = UART0_BASE_V t + 0x28"
definition UART0_LCRH :: "target \<Rightarrow> u32" where "UART0_LCRH t = UART0_BASE_V t + 0x2C"
definition UART0_CR :: "target \<Rightarrow> u32" where "UART0_CR t = UART0_BASE_V t + 0x30"
definition UART0_IMSC :: "target \<Rightarrow> u32" where "UART0_IMSC t = UART0_BASE_V t + 0x38"
definition UART0_ICR :: "target \<Rightarrow> u32" where "UART0_ICR t = UART0_BASE_V t + 0x44"

section \<open>uart.c\<close>

text \<open>The counting loop of \<^verbatim>\<open>delay\<close>: the machine code decrements and branches while not zero.\<close>

function delay_loop :: "u32 \<Rightarrow> nat \<Rightarrow> nat" where
  "delay_loop count cycles =
     (let c = count - 1 in if c = 0 then Suc cycles else delay_loop c (Suc cycles))"
  by pat_completeness auto
termination
proof (relation "measure (\<lambda>(count, _). unat (count - 1))")
  fix count c :: u32 and cycles :: nat
  assume c: "c = count - 1" "c \<noteq> 0"
  then have "unat (c - 1) < unat c"
    by (metis unat_minus_one unat_gt_0 diff_less zero_less_one)
  then show "((c, Suc cycles), count, cycles) \<in> measure (\<lambda>(count, _). unat (count - 1))"
    using c(1) by simp
qed simp

declare delay_loop.simps [simp del]

definition uart_init :: "target \<Rightarrow> dev \<Rightarrow> dev" where
  "uart_init t d =
     (let d = mmio_write (UART0_CR t) 0 d;
          d = mmio_write (UART0_LCRH t) 0 d;
          d = mmio_write (GPPUD t) 0 d;
          _ = delay_loop 150 0;
          d = mmio_write (GPPUDCLK0 t) (push_bit 14 1 OR push_bit 15 1) d;
          _ = delay_loop 150 0;
          d = mmio_write (GPPUD t) 0 d;
          d = mmio_write (GPPUDCLK0 t) 0 d;
          d = mmio_write (UART0_ICR t) 0xFFFF d;
          d = mmio_write (UART0_IBRD t) 1 d;
          d = mmio_write (UART0_FBRD t) 40 d;
          d = mmio_write (UART0_LCRH t) (push_bit 4 1 OR push_bit 5 1 OR push_bit 6 1) d;
          d = mmio_write (UART0_IMSC t) (push_bit 1 1 OR push_bit 4 1 OR push_bit 5 1
                OR push_bit 6 1 OR push_bit 7 1 OR push_bit 8 1 OR push_bit 9 1
                OR push_bit 10 1) d;
          d = mmio_write (UART0_CR t) (push_bit 0 1 OR push_bit 8 1 OR push_bit 9 1) d
      in d)"

partial_function (option) uart_wait :: "target \<Rightarrow> dev \<Rightarrow> dev option" where
  "uart_wait t d =
     (let r = mmio_read (UART0_FR t) d
      in if fst r AND push_bit 5 1 = 0 then Some (snd r) else uart_wait t (snd r))"

definition uart_putc :: "target \<Rightarrow> char \<Rightarrow> dev \<Rightarrow> dev option" where
  "uart_putc t byte d =
     (case uart_wait t d of None \<Rightarrow> None
      | Some d1 \<Rightarrow> Some (mmio_write (UART0ADDR t) (of_char byte) d1))"

fun uart_puts :: "target \<Rightarrow> string \<Rightarrow> dev \<Rightarrow> dev option" where
  "uart_puts t [] d = Some d"
| "uart_puts t (c # str) d =
     (case uart_putc t c d of None \<Rightarrow> None | Some d1 \<Rightarrow> uart_puts t str d1)"

section \<open>Lemmas\<close>

definition tx_ready :: "target \<Rightarrow> dev \<Rightarrow> nat \<Rightarrow> bool" where
  "tx_ready t d n \<longleftrightarrow> answer d n (UART0_FR t) AND push_bit 5 1 = 0"

text \<open>The device becomes ready again and again, as a transmitter that drains its FIFO does.\<close>

definition tx_fair :: "target \<Rightarrow> dev \<Rightarrow> bool" where
  "tx_fair t d \<longleftrightarrow> (\<forall>n. \<exists>m \<ge> n. tx_ready t d m)"

lemma uart_wait_returns:
  assumes "tx_ready t d (reads d + k)"
  shows "\<exists>j \<le> k. uart_wait t d = Some (d\<lparr>reads := reads d + Suc j\<rparr>)"
  using assms
proof (induction k arbitrary: d)
  case 0
  then show ?case
    by (subst uart_wait.simps) (simp add: mmio_read_def tx_ready_def Let_def)
next
  case (Suc k)
  show ?case
  proof (cases "tx_ready t d (reads d)")
    case True
    then show ?thesis
      by (subst uart_wait.simps) (auto simp: mmio_read_def tx_ready_def Let_def)
  next
    case False
    let ?d = "d\<lparr>reads := Suc (reads d)\<rparr>"
    have "tx_ready t ?d (reads ?d + k)"
      using Suc.prems by (simp add: tx_ready_def)
    from Suc.IH [OF this] obtain j where
      "j \<le> k" "uart_wait t ?d = Some (?d\<lparr>reads := reads ?d + Suc j\<rparr>)" by blast
    moreover have "uart_wait t d = uart_wait t ?d"
      using False by (subst uart_wait.simps) (simp add: mmio_read_def tx_ready_def Let_def)
    ultimately show ?thesis by (intro exI [of _ "Suc j"]) simp
  qed
qed

lemma uart_putc_fair:
  assumes "tx_fair t d"
  shows "\<exists>n. uart_putc t c d
    = Some (d\<lparr>wlog := wlog d @ [(UART0ADDR t, of_char c)], reads := n\<rparr>)"
proof -
  from assms obtain m where "reads d \<le> m" "tx_ready t d m" by (auto simp: tx_fair_def)
  then have "tx_ready t d (reads d + (m - reads d))" by simp
  from uart_wait_returns [OF this] obtain j where
    "uart_wait t d = Some (d\<lparr>reads := reads d + Suc j\<rparr>)" by blast
  then show ?thesis
    by (intro exI [of _ "reads d + Suc j"]) (simp add: uart_putc_def mmio_write_def)
qed

text \<open>
  On a transmitter that keeps becoming ready, \<^verbatim>\<open>uart_puts\<close> returns, and what it has written is
  exactly the characters of the string to the data register, in order.
\<close>

lemma uart_puts_sends:
  assumes "tx_fair t d"
  shows "\<exists>d'. uart_puts t str d = Some d'
     \<and> wlog d' = wlog d @ map (\<lambda>c. (UART0ADDR t, of_char c)) str \<and> answer d' = answer d"
  using assms
proof (induction str arbitrary: d)
  case Nil
  then show ?case by simp
next
  case (Cons c str)
  from uart_putc_fair [OF Cons.prems] obtain n where
    c: "uart_putc t c d = Some (d\<lparr>wlog := wlog d @ [(UART0ADDR t, of_char c)], reads := n\<rparr>)"
    by blast
  let ?d = "d\<lparr>wlog := wlog d @ [(UART0ADDR t, of_char c)], reads := n\<rparr>"
  have "tx_fair t ?d" using Cons.prems by (simp add: tx_fair_def tx_ready_def)
  from Cons.IH [OF this] c show ?case by auto
qed

end
