(* ===== verification/Kstring.thy ===== *)
theory Kstring
  imports Memlayout
begin

text \<open>
  Kernel memory as a store of 32-bit words indexed by physical address, access to it through the
  translation in force, and the \<^verbatim>\<open>memset\<close> of \<^verbatim>\<open>string.c\<close>, the only routine of that file that is
  compiled. Every access of the modelled kernel code is a word access at a word boundary.
\<close>

type_synonym mem = "u32 \<Rightarrow> u32"
type_synonym trans = "u32 \<Rightarrow> u32 option"

section \<open>Loads and stores\<close>

definition load :: "trans \<Rightarrow> u32 \<Rightarrow> mem \<Rightarrow> u32 res" where
  "load tr va m = (case tr va of None \<Rightarrow> Inl (Abort va) | Some pa \<Rightarrow> Inr (m pa))"

definition store :: "trans \<Rightarrow> u32 \<Rightarrow> u32 \<Rightarrow> mem \<Rightarrow> mem res" where
  "store tr va v m = (case tr va of None \<Rightarrow> Inl (Abort va) | Some pa \<Rightarrow> Inr (m(pa := v)))"

section \<open>string.c: memset\<close>

text \<open>The word \<^verbatim>\<open>f\<close>: the first loop, over the 32 shifts of \<^verbatim>\<open>c\<close>.\<close>

definition memset_word :: "u32 \<Rightarrow> u32" where
  "memset_word c = fold (\<lambda>i f. f OR push_bit i c) [0..<32] 0"

text \<open>The second loop: one word per iteration, \<open>n\<close> iterations left.\<close>

fun memset_loop :: "trans \<Rightarrow> nat \<Rightarrow> u32 \<Rightarrow> u32 \<Rightarrow> mem \<Rightarrow> mem res" where
  "memset_loop tr 0 addr f m = Inr m"
| "memset_loop tr (Suc n) addr f m =
     bindR (store tr addr f m) (\<lambda>m1. memset_loop tr n (addr + 4) f m1)"

definition memset :: "trans \<Rightarrow> u32 \<Rightarrow> u32 \<Rightarrow> u32 \<Rightarrow> mem \<Rightarrow> mem res" where
  "memset tr dst c size1 m = memset_loop tr (unat (size1 div 4)) dst (memset_word c) m"

section \<open>Lemmas\<close>

text \<open>The \<open>n\<close> words from address \<open>p\<close> on.\<close>

definition words :: "u32 \<Rightarrow> nat \<Rightarrow> u32 set" where
  "words p n = (\<lambda>k. p + 4 * word_of_nat k) ` {..<n}"

definition mapped :: "trans \<Rightarrow> u32 \<Rightarrow> u32 \<Rightarrow> nat \<Rightarrow> bool" where
  "mapped tr v p n \<longleftrightarrow> (\<forall>k < n. tr (v + 4 * word_of_nat k) = Some (p + 4 * word_of_nat k))"

definition filled :: "u32 \<Rightarrow> nat \<Rightarrow> u32 \<Rightarrow> mem \<Rightarrow> mem" where
  "filled p n f m = (\<lambda>a. if a \<in> words p n then f else m a)"

lemma words_Suc: "words p (Suc n) = insert p (words (p + 4) n)"
proof -
  have "{..<Suc n} = insert 0 (Suc ` {..<n})" by (auto simp: image_iff less_Suc_eq_0_disj)
  then show ?thesis
    by (auto simp: words_def image_image algebra_simps)
qed

lemma mapped_Suc: "mapped tr v p (Suc n) \<longleftrightarrow> tr v = Some p \<and> mapped tr (v + 4) (p + 4) n"
  by (auto simp: mapped_def less_Suc_eq_0_disj algebra_simps)

lemma memset_loop_mapped:
  "mapped tr v p n \<Longrightarrow> memset_loop tr n v f m = Inr (filled p n f m)"
proof (induction n arbitrary: v p m)
  case 0
  then show ?case by (simp add: filled_def words_def)
next
  case (Suc n)
  then have "tr v = Some p" "mapped tr (v + 4) (p + 4) n" by (simp_all add: mapped_Suc)
  with Suc.IH show ?case
    by (auto simp: store_def filled_def words_Suc fun_eq_iff)
qed

lemma bit_memset_word:
  assumes "n < 32"
  shows "bit (memset_word c) n \<longleftrightarrow> (\<exists>k \<le> n. bit c k)"
proof -
  have "bit (fold (\<lambda>i f. f OR push_bit i c) is f0) n
      \<longleftrightarrow> bit f0 n \<or> (\<exists>i \<in> set is. i \<le> n \<and> bit c (n - i))" for "is" f0
    using assms by (induction "is" arbitrary: f0) (auto simp: bit_simps)
  then have "bit (memset_word c) n \<longleftrightarrow> (\<exists>i < 32. i \<le> n \<and> bit c (n - i))"
    by (simp add: memset_word_def Bex_def)
  also have "\<dots> \<longleftrightarrow> (\<exists>k \<le> n. bit c k)"
    using assms by (metis diff_diff_cancel diff_le_self le_less_trans)
  finally show ?thesis .
qed

lemma memset_word_0 [simp]: "memset_word 0 = 0"
  by (rule bit_word_eqI) (simp add: bit_memset_word)

lemma memset_word_1 [simp]: "memset_word 1 = 0xFFFFFFFF"
proof (rule bit_word_eqI)
  fix n :: nat
  assume "n < LENGTH(32)"
  moreover have m: "(0xFFFFFFFF :: u32) = - 1" by simp
  ultimately show "bit (memset_word 1) n = bit (0xFFFFFFFF :: u32) n"
    unfolding m by (auto simp: bit_memset_word bit_simps)
qed

text \<open>
  On mapped memory \<^verbatim>\<open>memset\<close> writes the words of its range that are whole (the last
  \<^verbatim>\<open>size % 4\<close> bytes are left alone) and nothing else; each gets the word whose bit \<open>n\<close> is set
  when \<^verbatim>\<open>c\<close> has a bit at or below \<open>n\<close>, so 0 fills with zeros and every odd \<^verbatim>\<open>c\<close> with ones.
\<close>

lemma memset_fills:
  assumes "mapped tr dst p (unat (size1 div 4))"
  shows "memset tr dst c size1 m = Inr (filled p (unat (size1 div 4)) (memset_word c) m)
     \<and> (\<forall>n. n < 32 \<longrightarrow> bit (memset_word c) n = (\<exists>k \<le> n. bit c k))"
  using memset_loop_mapped [OF assms] bit_memset_word by (auto simp: memset_def)

end
