(* ===== verification/Kalloc.thy ===== *)
theory Kalloc
  imports Arm Kstring
begin

text \<open>
  The physical page allocator of \<^verbatim>\<open>kalloc.c\<close>. The free list is threaded through the free pages
  themselves: the first word of a free page is the address of the next one, so the model keeps
  it in memory, under the translation in force. Each routine is the whole routine: its checks,
  the junk fill, the lock and the console messages.
\<close>

section \<open>The kernel state\<close>

text \<open>
  \<open>con\<close> is what \<^verbatim>\<open>uart_puts\<close> has sent (on a transmitter that drains, see the theory of the UART);
  \<open>use_lock\<close> and \<open>freelist\<close> are the fields of \<^verbatim>\<open>kmem\<close>, \<open>freelist\<close> a kernel pointer with 0 for
  the end of the list.
\<close>

record kstate =
  pmem :: mem
  con :: string
  kcpu :: cpu
  kmem_lock :: spinlock
  use_lock :: bool
  freelist :: u32

definition NL :: string where "NL = [CHR 0x0A]"

definition puts :: "string \<Rightarrow> kstate \<Rightarrow> kstate" where
  "puts str s = s\<lparr>con := con s @ str\<rparr>"

definition lock_kmem :: "kstate \<Rightarrow> kstate" where
  "lock_kmem s =
     (if use_lock s then
        (case acquire (kcpu s, kmem_lock s) of (c, l) \<Rightarrow> s\<lparr>kcpu := c, kmem_lock := l\<rparr>)
      else s)"

definition unlock_kmem :: "kstate \<Rightarrow> kstate res" where
  "unlock_kmem s =
     (if use_lock s then
        bindR (release (kcpu s, kmem_lock s))
          (\<lambda>r. case r of (c, l) \<Rightarrow> Inr (s\<lparr>kcpu := c, kmem_lock := l\<rparr>))
      else Inr s)"

section \<open>kalloc.c\<close>

text \<open>\<open>kend\<close> is the linker symbol \<^verbatim>\<open>end\<close>.\<close>

definition kfree :: "trans \<Rightarrow> u32 \<Rightarrow> u32 \<Rightarrow> kstate \<Rightarrow> kstate res" where
  "kfree tr kend v s =
     (if v mod PGSIZE \<noteq> 0 \<or> v < kend \<or> v2p v \<ge> PHYSTOP then Inl (Panic ''kfree'')
      else bindR (memset tr v 1 PGSIZE (pmem s)) (\<lambda>m.
           let s1 = lock_kmem (s\<lparr>pmem := m\<rparr>)
           in bindR (store tr v (freelist s1) (pmem s1)) (\<lambda>m1.
              unlock_kmem (s1\<lparr>pmem := m1, freelist := v\<rparr>))))"

definition kalloc :: "trans \<Rightarrow> kstate \<Rightarrow> (u32 \<times> kstate) res" where
  "kalloc tr s =
     (let s1 = lock_kmem s; r = freelist s1
      in bindR (if r \<noteq> 0
                then bindR (load tr r (pmem s1)) (\<lambda>nxt. Inr (s1\<lparr>freelist := nxt\<rparr>))
                else Inr (puts (''no elements in free list'' @ NL) s1)) (\<lambda>s2.
         bindR (unlock_kmem s2) (\<lambda>s3. Inr (r, s3))))"

lemma kfree_below_PHYSTOP: "kfree tr kend v s = Inr s' \<Longrightarrow> v2p v < PHYSTOP"
  by (auto simp: kfree_def split: if_splits)

lemma unat_v2p_next:
  "v2p p < PHYSTOP \<Longrightarrow> unat (v2p (p + PGSIZE)) = unat (v2p p) + 4096"
proof -
  assume "v2p p < PHYSTOP"
  then have "unat (v2p p) < 33554432" by (simp add: word_less_nat_alt PHYSTOP_def)
  moreover have "v2p (p + PGSIZE) = v2p p + PGSIZE" by (simp add: v2p_def)
  ultimately show ?thesis by (simp add: unat_add32 PGSIZE_def)
qed

text \<open>
  The loop of \<^verbatim>\<open>freerange\<close>. It ends because \<^verbatim>\<open>kfree\<close> panics on a page past \<^verbatim>\<open>PHYSTOP\<close>, long
  before \<^verbatim>\<open>p\<close> could wrap.
\<close>

function freerange_loop :: "trans \<Rightarrow> u32 \<Rightarrow> u32 \<Rightarrow> u32 \<Rightarrow> kstate \<Rightarrow> kstate res" where
  "freerange_loop tr kend p vend s =
     (if p + PGSIZE \<le> vend
      then bindR (kfree tr kend p s) (\<lambda>s1. freerange_loop tr kend (p + PGSIZE) vend s1)
      else Inr s)"
  by pat_completeness auto
termination
proof (relation "measure (\<lambda>(tr, kend, p, vend, s). 4294967296 - unat (v2p p))")
  fix tr :: trans and kend p vend :: u32 and s s1 :: kstate
  assume "kfree tr kend p s = Inr s1"
  then have "unat (v2p (p + PGSIZE)) = unat (v2p p) + 4096"
    by (intro unat_v2p_next kfree_below_PHYSTOP)
  moreover have "unat (v2p (p + PGSIZE)) < 4294967296" by (rule unat_lt32)
  ultimately show "((tr, kend, p + PGSIZE, vend, s1), tr, kend, p, vend, s)
    \<in> measure (\<lambda>(tr, kend, p, vend, s). 4294967296 - unat (v2p p))"
    by (simp add: diff_less_mono2)
qed simp

declare freerange_loop.simps [simp del]

definition freerange :: "trans \<Rightarrow> u32 \<Rightarrow> u32 \<Rightarrow> u32 \<Rightarrow> kstate \<Rightarrow> kstate res" where
  "freerange tr kend vstart vend s =
     freerange_loop tr kend (PGROUNDUP vstart) vend (puts (''freerange'' @ NL) s)"

definition kinit1 :: "trans \<Rightarrow> u32 \<Rightarrow> u32 \<Rightarrow> u32 \<Rightarrow> kstate \<Rightarrow> kstate res" where
  "kinit1 tr kend vstart vend s =
     (let s1 = puts (''kinit1'' @ NL) s;
          s2 = s1\<lparr>kmem_lock := init_lock (kmem_lock s1) ''kmem'', use_lock := False\<rparr>
      in freerange tr kend vstart vend s2)"

definition kinit2 :: "trans \<Rightarrow> u32 \<Rightarrow> u32 \<Rightarrow> u32 \<Rightarrow> kstate \<Rightarrow> kstate res" where
  "kinit2 tr kend vstart vend s =
     bindR (freerange tr kend vstart vend (puts (''kinit2'' @ NL) s))
       (\<lambda>s1. Inr (s1\<lparr>use_lock := True\<rparr>))"

text \<open>The debugging aid \<^verbatim>\<open>check_fl\<close>: the first five pointers of the list.\<close>

definition check_fl :: "trans \<Rightarrow> kstate \<Rightarrow> u32 list res" where
  "check_fl tr s =
     (let k1 = freelist s
      in bindR (load tr k1 (pmem s)) (\<lambda>k2.
         bindR (load tr k2 (pmem s)) (\<lambda>k3.
         bindR (load tr k3 (pmem s)) (\<lambda>k4.
         bindR (load tr k4 (pmem s)) (\<lambda>k5. Inr [k1, k2, k3, k4, k5])))))"

section \<open>The invariant\<close>

text \<open>A page \<^verbatim>\<open>kfree\<close> accepts: the negation of its panic test.\<close>

definition kpage :: "u32 \<Rightarrow> u32 \<Rightarrow> bool" where
  "kpage kend v \<longleftrightarrow> v mod PGSIZE = 0 \<and> kend \<le> v \<and> v2p v < PHYSTOP"

text \<open>The translation maps the whole page \<open>v\<close> where the direct map of the kernel puts it.\<close>

definition direct :: "trans \<Rightarrow> u32 \<Rightarrow> bool" where
  "direct tr v \<longleftrightarrow> mapped tr v (v2p v) 1024"

fun flist :: "trans \<Rightarrow> mem \<Rightarrow> u32 \<Rightarrow> u32 list \<Rightarrow> bool" where
  "flist tr m p [] \<longleftrightarrow> p = 0"
| "flist tr m p (x # xs) \<longleftrightarrow> p = x \<and> x \<noteq> 0 \<and>
     (case tr x of None \<Rightarrow> False | Some pa \<Rightarrow> flist tr m (m pa) xs)"

text \<open>The free list holds exactly the pages \<open>xs\<close>, each once, each valid and mapped.\<close>

definition kmem_inv :: "trans \<Rightarrow> u32 \<Rightarrow> kstate \<Rightarrow> u32 list \<Rightarrow> bool" where
  "kmem_inv tr kend s xs \<longleftrightarrow>
     flist tr (pmem s) (freelist s) xs \<and> distinct xs \<and>
     (\<forall>x \<in> set xs. kpage kend x \<and> direct tr x) \<and> (\<exists>p d. cli_at p d (kcpu s))"

section \<open>Pages and their words\<close>

lemma aligned_room:
  assumes "unat (p :: u32) mod 4096 = 0"
  shows "unat p + 4096 \<le> 4294967296"
proof -
  have "unat p = unat p div 4096 * 4096" using assms by auto
  moreover have "unat p div 4096 < 1048576"
    using unat_lt32 [of p] by (simp add: less_mult_imp_div_less)
  then have "(unat p div 4096 + 1) * 4096 \<le> 1048576 * 4096" by (intro mult_le_mono1) simp
  ultimately show ?thesis by simp
qed

lemma unat_word_offset:
  assumes "unat (p :: u32) mod 4096 = 0" and "k < 1024"
  shows "unat (p + 4 * word_of_nat k) = unat p + 4 * k"
proof -
  have "unat (4 * word_of_nat k :: u32) = 4 * k"
    using assms(2) by (simp add: unat_word_ariths unat_of_nat)
  then show ?thesis
    using aligned_room [OF assms(1)] assms(2) by (simp add: unat_add32)
qed

lemma PGROUNDDOWN_offset:
  assumes "unat (p :: u32) mod 4096 = 0" and "k < 1024"
  shows "PGROUNDDOWN (p + 4 * word_of_nat k) = p"
proof -
  have "(unat p + 4 * k) mod 4096 = 4 * k"
    using assms mod_add_left_eq [of "unat p" 4096 "4 * k"] by simp
  then show ?thesis
    by (simp add: word32_eq_iff unat_PGROUNDDOWN unat_word_offset [OF assms])
qed

lemma words_page:
  assumes "unat (p :: u32) mod 4096 = 0" and "a \<in> words p 1024"
  shows "PGROUNDDOWN a = p"
  using assms by (auto simp: words_def PGROUNDDOWN_offset)

lemma PGROUNDDOWN_aligned: "unat (p :: u32) mod 4096 = 0 \<Longrightarrow> PGROUNDDOWN p = p"
  by (simp add: word32_eq_iff unat_PGROUNDDOWN)

lemma mod_PGSIZE: "v mod PGSIZE = 0 \<longleftrightarrow> unat v mod 4096 = 0"
  by (simp add: word32_eq_iff unat_mod PGSIZE_def)

lemma unat_v2p_small:
  assumes "v2p v < PHYSTOP"
  shows "unat v = unat (v2p v) + 3221225472" and "unat (v2p v) < 33554432"
proof -
  show small: "unat (v2p v) < 33554432"
    using assms by (simp add: word_less_nat_alt PHYSTOP_def)
  have k: "unat KERNBASE = 3221225472" by (simp add: KERNBASE_def)
  have "v = v2p v + KERNBASE" by (simp add: v2p_def)
  then have "unat v = (unat (v2p v) + 3221225472) mod 4294967296"
    using unat_add32 [of "v2p v" KERNBASE] k by simp
  then show "unat v = unat (v2p v) + 3221225472" using small by simp
qed

lemma kpage_aligned:
  assumes "kpage kend v"
  shows "unat v mod 4096 = 0" and "unat (v2p v) mod 4096 = 0" and "v \<noteq> 0"
    and "unat (v2p v) < 33554432"
proof -
  have v: "v2p v < PHYSTOP" and al: "unat v mod 4096 = 0"
    using assms by (simp_all add: kpage_def mod_PGSIZE)
  note u = unat_v2p_small [OF v]
  show "unat v mod 4096 = 0" by (rule al)
  have "unat v = unat (v2p v) + 786432 * 4096" using u(1) by simp
  then show "unat (v2p v) mod 4096 = 0" using al by (metis mod_mult_self1)
  show "v \<noteq> 0" using u(1) by auto
  show "unat (v2p v) < 33554432" by (rule u(2))
qed

lemma v2p_inj: "v2p a = v2p b \<Longrightarrow> a = b"
  by (simp add: v2p_def)

lemma direct_base: "direct tr v \<Longrightarrow> tr v = Some (v2p v)"
  by (auto simp: direct_def mapped_def dest: spec [of _ 0])

lemma flist_frame:
  assumes "flist tr m p xs" and "\<And>x pa. x \<in> set xs \<Longrightarrow> tr x = Some pa \<Longrightarrow> m' pa = m pa"
  shows "flist tr m' p xs"
  using assms
proof (induction xs arbitrary: p)
  case Nil
  then show ?case by simp
next
  case (Cons x xs)
  from Cons.prems(1) obtain pa where "p = x" "x \<noteq> 0" "tr x = Some pa" "flist tr m (m pa) xs"
    by (auto split: option.splits)
  moreover from this have "m' pa = m pa" using Cons.prems(2) [of x pa] by simp
  moreover have "flist tr m' (m pa) xs"
    using \<open>flist tr m (m pa) xs\<close> Cons.prems(2) by (intro Cons.IH) auto
  ultimately show ?case by simp
qed

section \<open>The lock\<close>

lemma lock_kmem_fields [simp]:
  "pmem (lock_kmem s) = pmem s" "con (lock_kmem s) = con s"
  "use_lock (lock_kmem s) = use_lock s" "freelist (lock_kmem s) = freelist s"
  by (simp_all add: lock_kmem_def split: prod.splits)

lemma lock_kmem_at:
  "cli_at p d (kcpu s) \<Longrightarrow> cli_at p (if use_lock s then Suc d else d) (kcpu (lock_kmem s))"
  by (simp add: lock_kmem_def acquire_def pushcli_at)

lemma unlock_kmem_at:
  assumes "cli_at p (if use_lock s then Suc d else d) (kcpu s)"
  shows "\<exists>c l. unlock_kmem s = Inr (s\<lparr>kcpu := c, kmem_lock := l\<rparr>) \<and> cli_at p d c"
proof (cases "use_lock s")
  case True
  with assms popcli_at obtain c where "popcli (kcpu s) = Inr c" "cli_at p d c" by fastforce
  with True show ?thesis
    by (intro exI [of _ c] exI [of _ "kmem_lock s\<lparr>locked := 0\<rparr>"])
      (simp add: unlock_kmem_def release_def Let_def)
next
  case False
  with assms show ?thesis
    by (intro exI [of _ "kcpu s"] exI [of _ "kmem_lock s"]) (simp add: unlock_kmem_def)
qed

section \<open>kfree and kalloc keep the invariant\<close>

lemma memset_page:
  assumes "direct tr v"
  shows "memset tr v 1 PGSIZE m = Inr (filled (v2p v) 1024 0xFFFFFFFF m)"
  using memset_loop_mapped [of tr v "v2p v" 1024] assms
  by (simp add: memset_def direct_def PGSIZE_def)

lemma kfree_pushes:
  assumes inv: "kmem_inv tr kend s xs" and v: "kpage kend v" "direct tr v" "v \<notin> set xs"
  shows "\<exists>s'. kfree tr kend v s = Inr s' \<and> kmem_inv tr kend s' (v # xs)
    \<and> con s' = con s \<and> use_lock s' = use_lock s
    \<and> (\<forall>a. PGROUNDDOWN a \<noteq> v2p v \<longrightarrow> pmem s' a = pmem s a)"
proof -
  from inv obtain p d where at: "cli_at p d (kcpu s)" by (auto simp: kmem_inv_def)
  note al = kpage_aligned [OF v(1)]
  let ?m = "filled (v2p v) 1024 0xFFFFFFFF (pmem s)"
  let ?s1 = "lock_kmem (s\<lparr>pmem := ?m\<rparr>)"
  let ?m2 = "?m(v2p v := freelist s)"
  let ?s2 = "?s1\<lparr>pmem := ?m2, freelist := v\<rparr>"
  have "cli_at p (if use_lock ?s2 then Suc d else d) (kcpu ?s2)"
    using lock_kmem_at [of p d "s\<lparr>pmem := ?m\<rparr>"] at by simp
  from unlock_kmem_at [OF this] obtain c l where
    ul: "unlock_kmem ?s2 = Inr (?s2\<lparr>kcpu := c, kmem_lock := l\<rparr>)" and c: "cli_at p d c" by blast
  let ?s' = "?s2\<lparr>kcpu := c, kmem_lock := l\<rparr>"
  have ok: "kfree tr kend v s = Inr ?s'"
    using v ul direct_base [OF v(2)]
    by (simp add: kfree_def kpage_def memset_page store_def not_le not_less Let_def)
  have frame: "?m2 a = pmem s a" if "PGROUNDDOWN a \<noteq> v2p v" for a
    using that words_page [OF al(2), of a] PGROUNDDOWN_aligned [OF al(2)]
    by (auto simp: filled_def)
  have "flist tr ?m2 (freelist s) xs"
  proof (rule flist_frame)
    show "flist tr (pmem s) (freelist s) xs" using inv by (simp add: kmem_inv_def)
    fix x pa assume x: "x \<in> set xs" "tr x = Some pa"
    then have "kpage kend x" "direct tr x" using inv by (auto simp: kmem_inv_def)
    then have "pa = v2p x \<and> PGROUNDDOWN pa = v2p x"
      using x(2) direct_base [of tr x] PGROUNDDOWN_aligned [OF kpage_aligned(2) [of kend x]]
      by simp
    with x(1) v(3) show "?m2 pa = pmem s pa" by (metis frame v2p_inj)
  qed
  then have "kmem_inv tr kend ?s' (v # xs)"
    using inv v al(3) c direct_base [OF v(2)] by (auto simp: kmem_inv_def)
  with ok frame show ?thesis by (intro exI [of _ ?s']) simp
qed

lemma kfree_rejects: "\<not> kpage kend v \<Longrightarrow> kfree tr kend v s = Inl (Panic ''kfree'')"
  by (auto simp: kpage_def kfree_def not_le not_less)

lemma kalloc_pops:
  assumes inv: "kmem_inv tr kend s (x # xs)"
  shows "\<exists>s'. kalloc tr s = Inr (x, s') \<and> kmem_inv tr kend s' xs
    \<and> pmem s' = pmem s \<and> con s' = con s \<and> use_lock s' = use_lock s"
proof -
  from inv obtain p d where at: "cli_at p d (kcpu s)" by (auto simp: kmem_inv_def)
  from inv have x: "freelist s = x" "x \<noteq> 0" "tr x = Some (v2p x)"
    and fl: "flist tr (pmem s) (pmem s (v2p x)) xs"
    using direct_base [of tr x] by (auto simp: kmem_inv_def)
  let ?s2 = "(lock_kmem s)\<lparr>freelist := pmem s (v2p x)\<rparr>"
  have "cli_at p (if use_lock ?s2 then Suc d else d) (kcpu ?s2)"
    using lock_kmem_at [OF at] by simp
  from unlock_kmem_at [OF this] obtain c l where
    ul: "unlock_kmem ?s2 = Inr (?s2\<lparr>kcpu := c, kmem_lock := l\<rparr>)" and c: "cli_at p d c" by blast
  have "kalloc tr s = Inr (x, ?s2\<lparr>kcpu := c, kmem_lock := l\<rparr>)"
    using x ul by (simp add: kalloc_def load_def Let_def)
  moreover have "kmem_inv tr kend (?s2\<lparr>kcpu := c, kmem_lock := l\<rparr>) xs"
    using inv fl c by (auto simp: kmem_inv_def)
  ultimately show ?thesis by (intro exI [of _ "?s2\<lparr>kcpu := c, kmem_lock := l\<rparr>"]) simp
qed

lemma kalloc_empty:
  assumes inv: "kmem_inv tr kend s []"
  shows "\<exists>s'. kalloc tr s = Inr (0, s') \<and> kmem_inv tr kend s' []
    \<and> pmem s' = pmem s \<and> con s' = con s @ ''no elements in free list'' @ NL"
proof -
  from inv obtain p d where at: "cli_at p d (kcpu s)" by (auto simp: kmem_inv_def)
  let ?s2 = "puts (''no elements in free list'' @ NL) (lock_kmem s)"
  have "cli_at p (if use_lock ?s2 then Suc d else d) (kcpu ?s2)"
    using lock_kmem_at [OF at] by (simp add: puts_def)
  from unlock_kmem_at [OF this] obtain c l where
    ul: "unlock_kmem ?s2 = Inr (?s2\<lparr>kcpu := c, kmem_lock := l\<rparr>)" and c: "cli_at p d c" by blast
  have "kalloc tr s = Inr (0, ?s2\<lparr>kcpu := c, kmem_lock := l\<rparr>)"
    using inv ul by (simp add: kalloc_def kmem_inv_def Let_def)
  moreover have "kmem_inv tr kend (?s2\<lparr>kcpu := c, kmem_lock := l\<rparr>) []"
    using inv c by (auto simp: kmem_inv_def puts_def)
  ultimately show ?thesis
    by (intro exI [of _ "?s2\<lparr>kcpu := c, kmem_lock := l\<rparr>"]) (simp add: puts_def)
qed

text \<open>The variables as the boot loader leaves them: zeroed, the processor masked in supervisor mode.\<close>

definition bss_state :: "mem \<Rightarrow> kstate" where
  "bss_state m =
     \<lparr>pmem = m, con = [], kcpu = \<lparr>cpsr = 0xD3, ncli = 0, intena = False\<rparr>,
      kmem_lock = \<lparr>locked = 0, name = [], lk_cpu = 0, pcs = replicate 10 0\<rparr>,
      use_lock = False, freelist = 0\<rparr>"

lemma bss_state_inv: "kmem_inv tr kend (bss_state m) []"
  by (auto simp: kmem_inv_def bss_state_def cli_at_def)

section \<open>The allocator as a stack of pages\<close>

text \<open>
  What a client of the allocator may rely on: a stack \<open>xs\<close> of free pages that allocation pops
  and freeing pushes; 0 when the stack is empty.
\<close>

datatype pg_op = Alloc | Free u32

fun pg_run :: "('s \<Rightarrow> (u32 \<times> 's) res) \<Rightarrow> (u32 \<Rightarrow> 's \<Rightarrow> 's res) \<Rightarrow> pg_op list \<Rightarrow> 's \<Rightarrow>
    (u32 list \<times> 's) res" where
  "pg_run alloc free [] s = Inr ([], s)"
| "pg_run alloc free (Alloc # ops) s =
     bindR (alloc s) (\<lambda>r. bindR (pg_run alloc free ops (snd r)) (\<lambda>q. Inr (fst r # fst q, snd q)))"
| "pg_run alloc free (Free v # ops) s = bindR (free v s) (pg_run alloc free ops)"

text \<open>
  The specification: the pages handed out and the free stack after a trace; undefined when the
  trace frees what is not a page, or a page that is free already.
\<close>

fun pg_spec :: "(u32 \<Rightarrow> bool) \<Rightarrow> pg_op list \<Rightarrow> u32 list \<Rightarrow> (u32 list \<times> u32 list) option" where
  "pg_spec good [] xs = Some ([], xs)"
| "pg_spec good (Alloc # ops) [] =
     (case pg_spec good ops [] of None \<Rightarrow> None | Some (rs, ys) \<Rightarrow> Some (0 # rs, ys))"
| "pg_spec good (Alloc # ops) (x # xs) =
     (case pg_spec good ops xs of None \<Rightarrow> None | Some (rs, ys) \<Rightarrow> Some (x # rs, ys))"
| "pg_spec good (Free v # ops) xs =
     (if good v \<and> v \<notin> set xs then pg_spec good ops (v # xs) else None)"

locale page_stack =
  fixes inv :: "'s \<Rightarrow> u32 list \<Rightarrow> bool"
    and alloc :: "'s \<Rightarrow> (u32 \<times> 's) res"
    and free :: "u32 \<Rightarrow> 's \<Rightarrow> 's res"
    and good :: "u32 \<Rightarrow> bool"
  assumes alloc_hit: "inv s (x # xs) \<Longrightarrow> \<exists>s'. alloc s = Inr (x, s') \<and> inv s' xs"
    and alloc_miss: "inv s [] \<Longrightarrow> \<exists>s'. alloc s = Inr (0, s') \<and> inv s' []"
    and free_good: "inv s xs \<Longrightarrow> good v \<Longrightarrow> v \<notin> set xs \<Longrightarrow>
      \<exists>s'. free v s = Inr s' \<and> inv s' (v # xs)"
    and inv_distinct: "inv s xs \<Longrightarrow> distinct xs"
    and inv_nonnull: "inv s xs \<Longrightarrow> 0 \<notin> set xs"
begin

lemma run_refines:
  "inv s xs \<Longrightarrow> pg_spec good ops xs = Some (rs, ys) \<Longrightarrow>
     \<exists>s'. pg_run alloc free ops s = Inr (rs, s') \<and> inv s' ys"
proof (induction ops arbitrary: s xs rs)
  case Nil
  then show ?case by simp
next
  case (Cons a ops)
  show ?case
  proof (cases a)
    case Alloc
    show ?thesis
    proof (cases xs)
      case Nil
      with alloc_miss Cons.prems(1) obtain s1 where "alloc s = Inr (0, s1)" "inv s1 []" by blast
      with Cons.prems(2) Cons.IH [of s1 "[]"] Alloc Nil show ?thesis
        by (fastforce split: option.splits)
    next
      case (Cons x ys)
      with alloc_hit Cons.prems(1) obtain s1 where "alloc s = Inr (x, s1)" "inv s1 ys" by blast
      with Cons.prems(2) Cons.IH [of s1 ys] Alloc Cons show ?thesis
        by (fastforce split: option.splits)
    qed
  next
    case (Free v)
    with Cons.prems(2) have "good v" "v \<notin> set xs" by (simp_all split: if_splits)
    with free_good Cons.prems(1) obtain s1 where "free v s = Inr s1" "inv s1 (v # xs)" by blast
    with Cons.prems(2) Cons.IH Free show ?thesis by (auto split: if_splits)
  qed
qed

lemma alloc_many:
  "inv s xs \<Longrightarrow> \<exists>s'. pg_run alloc free (replicate n Alloc) s
      = Inr (take n xs @ replicate (n - length xs) 0, s') \<and> inv s' (drop n xs)"
proof (induction n arbitrary: s xs)
  case 0
  then show ?case by simp
next
  case (Suc n)
  show ?case
  proof (cases xs)
    case Nil
    with alloc_miss Suc.prems obtain s1 where "alloc s = Inr (0, s1)" "inv s1 []" by blast
    with Suc.IH [of s1 "[]"] Nil show ?thesis by auto
  next
    case (Cons x ys)
    with alloc_hit Suc.prems obtain s1 where "alloc s = Inr (x, s1)" "inv s1 ys" by blast
    with Suc.IH [of s1 ys] Cons show ?thesis by auto
  qed
qed

end

interpretation kmem: page_stack "kmem_inv tr kend" "kalloc tr" "kfree tr kend"
  "\<lambda>v. kpage kend v \<and> direct tr v" for tr kend
proof unfold_locales
  fix s x xs
  assume "kmem_inv tr kend s (x # xs)"
  then show "\<exists>s'. kalloc tr s = Inr (x, s') \<and> kmem_inv tr kend s' xs"
    by (blast dest: kalloc_pops)
next
  fix s
  assume "kmem_inv tr kend s []"
  then show "\<exists>s'. kalloc tr s = Inr (0, s') \<and> kmem_inv tr kend s' []"
    by (blast dest: kalloc_empty)
next
  fix s xs v
  assume "kmem_inv tr kend s xs" "kpage kend v \<and> direct tr v" "v \<notin> set xs"
  then show "\<exists>s'. kfree tr kend v s = Inr s' \<and> kmem_inv tr kend s' (v # xs)"
    using kfree_pushes [of tr kend s xs v] by blast
qed (auto simp: kmem_inv_def dest: kpage_aligned(3))

text \<open>
  C26: every trace of \<^verbatim>\<open>kalloc\<close> and \<^verbatim>\<open>kfree\<close> calls that frees only pages that are not free behaves
  as the stack specification says, and leaves a well-formed free list: no page is handed out
  while it is in use, none is lost.
\<close>

theorem kalloc_kfree_refine_stack:
  assumes "kmem_inv tr kend s xs"
    and "pg_spec (\<lambda>v. kpage kend v \<and> direct tr v) ops xs = Some (rs, ys)"
  shows "\<exists>s'. pg_run (kalloc tr) (kfree tr kend) ops s = Inr (rs, s') \<and> kmem_inv tr kend s' ys"
  using assms by (rule kmem.run_refines)

section \<open>freerange and kinit1\<close>

definition pages :: "u32 \<Rightarrow> nat \<Rightarrow> u32 list" where
  "pages p n = map (\<lambda>k. p + 4096 * word_of_nat k) [0..<n]"

lemma pages_Suc: "pages p (Suc n) = p # pages (p + PGSIZE) n"
  by (simp add: pages_def PGSIZE_def upt_conv_Cons map_Suc_upt [symmetric] algebra_simps
      del: upt_Suc)

lemma length_pages [simp]: "length (pages p n) = n"
  by (simp add: pages_def)

lemma freerange_loop_pages:
  assumes "kmem_inv tr kend s xs"
    and "\<forall>x \<in> set (pages p n). kpage kend x \<and> direct tr x"
    and "distinct (pages p n)" and "set (pages p n) \<inter> set xs = {}"
    and "unat p + 4096 * n \<le> unat vend" and "unat vend < unat p + 4096 * n + 4096"
    and "unat p + 4096 * n + 4096 < 4294967296"
  shows "\<exists>s'. freerange_loop tr kend p vend s = Inr s' \<and> kmem_inv tr kend s' (rev (pages p n) @ xs)
    \<and> con s' = con s \<and> use_lock s' = use_lock s
    \<and> (\<forall>a. p2v (PGROUNDDOWN a) \<notin> set (pages p n) \<longrightarrow> pmem s' a = pmem s a)"
  using assms
proof (induction n arbitrary: p s xs)
  case 0
  then have "\<not> p + PGSIZE \<le> vend"
    by (simp add: word_le_nat_alt unat_add32 PGSIZE_def)
  with 0 show ?case by (subst freerange_loop.simps) (simp add: pages_def)
next
  case (Suc n)
  have u: "unat (p + PGSIZE) = unat p + 4096"
    using Suc.prems(7) by (simp add: unat_add32 PGSIZE_def)
  have go: "p + PGSIZE \<le> vend" using Suc.prems(5) u by (simp add: word_le_nat_alt)
  have "kpage kend p" "direct tr p" "p \<notin> set xs"
    using Suc.prems(2,4) by (simp_all add: pages_Suc)
  from kfree_pushes [OF Suc.prems(1) this] obtain s1 where s1:
    "kfree tr kend p s = Inr s1" "kmem_inv tr kend s1 (p # xs)" "con s1 = con s"
    "use_lock s1 = use_lock s" "\<forall>a. PGROUNDDOWN a \<noteq> v2p p \<longrightarrow> pmem s1 a = pmem s a" by blast
  have "\<exists>s'. freerange_loop tr kend (p + PGSIZE) vend s1 = Inr s'
      \<and> kmem_inv tr kend s' (rev (pages (p + PGSIZE) n) @ p # xs)
      \<and> con s' = con s1 \<and> use_lock s' = use_lock s1
      \<and> (\<forall>a. p2v (PGROUNDDOWN a) \<notin> set (pages (p + PGSIZE) n) \<longrightarrow> pmem s' a = pmem s1 a)"
    using Suc.prems u by (intro Suc.IH [OF s1(2)]) (auto simp: pages_Suc)
  then obtain s' where s': "freerange_loop tr kend (p + PGSIZE) vend s1 = Inr s'"
    "kmem_inv tr kend s' (rev (pages (p + PGSIZE) n) @ p # xs)" "con s' = con s1"
    "use_lock s' = use_lock s1"
    "\<forall>a. p2v (PGROUNDDOWN a) \<notin> set (pages (p + PGSIZE) n) \<longrightarrow> pmem s' a = pmem s1 a" by blast
  have "pmem s' a = pmem s a" if "p2v (PGROUNDDOWN a) \<notin> set (pages p (Suc n))" for a
  proof -
    have "PGROUNDDOWN a \<noteq> v2p p" using that by (auto simp: pages_Suc v2p_def p2v_def)
    with that s1(5) s'(5) show ?thesis by (simp add: pages_Suc)
  qed
  moreover have "freerange_loop tr kend p vend s = Inr s'"
    using go s1(1) s'(1) by (subst freerange_loop.simps) simp
  ultimately show ?case using s1 s' by (simp add: pages_Suc)
qed

lemma unat_pages:
  assumes "unat (p :: u32) + 4096 * n \<le> 4294967296" and "k < n"
  shows "unat (p + 4096 * word_of_nat k) = unat p + 4096 * k"
proof -
  have k: "4096 * k < 4294967296" "unat p + 4096 * k < 4294967296" using assms by linarith+
  then have "unat (4096 * word_of_nat k :: u32) = 4096 * k"
    by (simp add: unat_word_ariths unat_of_nat)
  then show ?thesis using k unat_add32_small [of p "4096 * word_of_nat k"] by simp
qed

lemma distinct_pages:
  assumes "unat p + 4096 * n \<le> 4294967296"
  shows "distinct (pages p n)"
  unfolding pages_def distinct_map
proof (rule conjI [OF distinct_upt], rule inj_onI)
  fix i j assume "i \<in> set [0..<n]" "j \<in> set [0..<n]"
    and eq: "p + 4096 * word_of_nat i = p + 4096 * word_of_nat j"
  then have "i < n" "j < n" by simp_all
  from unat_pages [OF assms this(1)] unat_pages [OF assms this(2)] show "i = j"
    unfolding eq by linarith
qed

lemma PGROUNDUP_aligned:
  assumes "unat (p :: u32) mod 4096 = 0"
  shows "PGROUNDUP p = p"
proof -
  have "unat (p + 4095) = unat p + 4095"
    using aligned_room [OF assms] by (intro unat_add32_small [THEN trans]) simp_all
  moreover have "(unat p + 4095) mod 4096 = 4095"
    using assms mod_add_left_eq [of "unat p" 4096 4095] by simp
  moreover have "PGROUNDUP p = PGROUNDDOWN (p + 4095)"
    by (simp add: PGROUNDUP_def PGROUNDDOWN_def PGSIZE_def add.commute)
  ultimately show ?thesis by (simp add: word32_eq_iff unat_PGROUNDDOWN)
qed

definition npages :: "u32 \<Rightarrow> u32 \<Rightarrow> nat" where
  "npages vstart vend = (unat vend - unat vstart) div 4096"

lemma in_pages:
  assumes "unat p + 4096 * n \<le> 4294967296" and "unat p mod 4096 = 0" and "x \<in> set (pages p n)"
  shows "unat p \<le> unat x" and "unat x + 4096 \<le> unat p + 4096 * n" and "unat x mod 4096 = 0"
proof -
  from assms(3) obtain k where k: "k < n" "x = p + 4096 * word_of_nat k"
    by (auto simp: pages_def)
  then have u: "unat x = unat p + 4096 * k" using unat_pages [OF assms(1)] by simp
  with k(1) show "unat p \<le> unat x" "unat x + 4096 \<le> unat p + 4096 * n" by simp_all
  show "unat x mod 4096 = 0" using u assms(2) by simp
qed

lemma npages_end:
  assumes "unat vstart mod 4096 = 0" and "unat vend mod 4096 = 0" and "unat vstart \<le> unat vend"
  shows "unat vstart + 4096 * npages vstart vend = unat vend"
proof -
  have "(unat vend - unat vstart) mod 4096 = 0"
    using assms by (metis mod_eq_dvd_iff_nat mod_0_imp_dvd dvd_imp_mod_0)
  then have "4096 * npages vstart vend = unat vend - unat vstart"
    unfolding npages_def by (metis add.right_neutral mult_div_mod_eq)
  with assms(3) show ?thesis by linarith
qed

lemma kpage_range:
  assumes "unat kend \<le> unat x" and "unat x mod 4096 = 0"
    and "unat KERNBASE \<le> unat x" and "unat x + 4096 \<le> unat KERNBASE + 0x2000000"
  shows "kpage kend x"
  using assms
  by (simp add: kpage_def mod_PGSIZE v2p_def KERNBASE_def PHYSTOP_def word_less_nat_alt
      word_le_nat_alt unat_sub32)

lemma freerange_range:
  assumes inv: "kmem_inv tr kend s xs"
    and al: "unat vstart mod 4096 = 0" "unat vend mod 4096 = 0"
    and lo: "unat KERNBASE \<le> unat vstart" "unat kend \<le> unat vstart" "unat vstart \<le> unat vend"
    and hi: "unat vend \<le> unat KERNBASE + 0x2000000"
    and dir: "\<And>x. unat x mod 4096 = 0 \<Longrightarrow> unat vstart \<le> unat x \<Longrightarrow> unat x + 4096 \<le> unat vend
      \<Longrightarrow> direct tr x"
    and old: "\<And>x. x \<in> set xs \<Longrightarrow> unat x < unat vstart"
  shows "\<exists>s'. freerange tr kend vstart vend s = Inr s'
    \<and> kmem_inv tr kend s' (rev (pages vstart (npages vstart vend)) @ xs)
    \<and> con s' = con s @ ''freerange'' @ NL \<and> use_lock s' = use_lock s
    \<and> (\<forall>a. p2v (PGROUNDDOWN a) \<notin> set (pages vstart (npages vstart vend)) \<longrightarrow> pmem s' a = pmem s a)"
proof -
  let ?n = "npages vstart vend"
  note e = npages_end [OF al lo(3)]
  have top: "unat KERNBASE + 0x2000000 + 4096 < 4294967296" by (simp add: KERNBASE_def)
  have room: "unat vstart + 4096 * ?n \<le> 4294967296" using e top hi by linarith
  have pg: "kpage kend x \<and> direct tr x" "unat vstart \<le> unat x" if "x \<in> set (pages vstart ?n)" for x
  proof -
    note i = in_pages [OF room al(1) that]
    show "kpage kend x \<and> direct tr x"
      using i e lo hi by (intro conjI kpage_range dir) linarith+
    show "unat vstart \<le> unat x" by (rule i)
  qed
  let ?s = "puts (''freerange'' @ NL) s"
  have "kmem_inv tr kend ?s xs" using inv by (simp add: kmem_inv_def puts_def)
  moreover have "set (pages vstart ?n) \<inter> set xs = {}" using pg(2) old by fastforce
  moreover have "unat vend < unat vstart + 4096 * ?n + 4096"
    "unat vstart + 4096 * ?n + 4096 < 4294967296" using e hi top by linarith+
  ultimately have "\<exists>s'. freerange_loop tr kend vstart vend ?s = Inr s'
      \<and> kmem_inv tr kend s' (rev (pages vstart ?n) @ xs)
      \<and> con s' = con ?s \<and> use_lock s' = use_lock ?s
      \<and> (\<forall>a. p2v (PGROUNDDOWN a) \<notin> set (pages vstart ?n) \<longrightarrow> pmem s' a = pmem ?s a)"
    using pg(1) e by (intro freerange_loop_pages distinct_pages [OF room]) auto
  then show ?thesis by (simp add: freerange_def PGROUNDUP_aligned [OF al(1)] puts_def)
qed

text \<open>Pages of the first four megabytes are mapped directly by the boot table.\<close>

lemma direct_entry:
  assumes "unat v mod 4096 = 0" and "unat KERNBASE \<le> unat v" and "unat v + 4096 \<le> unat KERNBASE + 0x400000"
  shows "direct (entry_translate t) v"
  unfolding direct_def mapped_def
proof (intro allI impI)
  fix k :: nat assume k: "k < 1024"
  then have "unat (v + 4 * word_of_nat k) = unat v + 4 * k"
    using assms(1) by (intro unat_word_offset)
  with assms k have "entry_translate t (v + 4 * word_of_nat k) = Some (v2p (v + 4 * word_of_nat k))"
    by (intro entry_translate_kern) simp_all
  then show "entry_translate t (v + 4 * word_of_nat k) = Some (v2p v + 4 * word_of_nat k)"
    by (simp add: v2p_def algebra_simps)
qed

lemma kinit1_pages:
  assumes "unat kend mod 4096 = 0" and "unat KERNBASE \<le> unat kend"
    and "unat kend \<le> unat (p2v 0x400000)"
    and "freelist s = 0" and "cli_at p d (kcpu s)"
  shows "\<exists>s'. kinit1 (entry_translate t) kend kend (p2v 0x400000) s = Inr s'
    \<and> kmem_inv (entry_translate t) kend s' (rev (pages kend (npages kend (p2v 0x400000))))
    \<and> \<not> use_lock s' \<and> con s' = con s @ ''kinit1'' @ NL @ ''freerange'' @ NL
    \<and> (\<forall>a. p2v (PGROUNDDOWN a) \<notin> set (pages kend (npages kend (p2v 0x400000)))
          \<longrightarrow> pmem s' a = pmem s a)"
proof -
  let ?s = "(puts (''kinit1'' @ NL) s)\<lparr>kmem_lock := init_lock (kmem_lock (puts (''kinit1'' @ NL) s)) ''kmem'',
    use_lock := False\<rparr>"
  have top: "unat (p2v 0x400000) = unat KERNBASE + 0x400000" by (simp add: p2v_def KERNBASE_def)
  have "kmem_inv (entry_translate t) kend ?s []"
    using assms(4,5) by (auto simp: kmem_inv_def puts_def)
  then have "\<exists>s'. freerange (entry_translate t) kend kend (p2v 0x400000) ?s = Inr s'
    \<and> kmem_inv (entry_translate t) kend s' (rev (pages kend (npages kend (p2v 0x400000))) @ [])
    \<and> con s' = con ?s @ ''freerange'' @ NL \<and> use_lock s' = use_lock ?s
    \<and> (\<forall>a. p2v (PGROUNDDOWN a) \<notin> set (pages kend (npages kend (p2v 0x400000))) \<longrightarrow> pmem s' a = pmem ?s a)"
  proof (rule freerange_range)
    show "unat (p2v 0x400000) mod 4096 = 0" "unat (p2v 0x400000) \<le> unat KERNBASE + 0x2000000"
      by (simp_all add: p2v_def KERNBASE_def)
    show "direct (entry_translate t) x"
      if "unat x mod 4096 = 0" "unat kend \<le> unat x" "unat x + 4096 \<le> unat (p2v 0x400000)" for x
      using that assms(2) top by (intro direct_entry) linarith+
  qed (use assms in simp_all)
  then show ?thesis
    unfolding kinit1_def Let_def by (auto simp: puts_def)
qed

text \<open>
  C25: \<^verbatim>\<open>kinit1\<close> on the boot table, called as \<^verbatim>\<open>main\<close> calls it (from \<^verbatim>\<open>end\<close> to the end of the boot
  mapping), returns with exactly the pages between those addresses on the free list, the highest
  first, each once, and has written no other page.
\<close>

theorem kinit1_frees_all:
  assumes "unat kend mod 4096 = 0" and "unat KERNBASE \<le> unat kend"
    and "unat kend \<le> unat (p2v 0x400000)"
    and "freelist s = 0" and "cli_at p d (kcpu s)"
  shows "\<exists>s'. kinit1 (entry_translate t) kend kend (p2v 0x400000) s = Inr s'
    \<and> kmem_inv (entry_translate t) kend s' (rev (pages kend (npages kend (p2v 0x400000))))
    \<and> \<not> use_lock s' \<and> con s' = con s @ ''kinit1'' @ NL @ ''freerange'' @ NL
    \<and> (\<forall>a. p2v (PGROUNDDOWN a) \<notin> set (pages kend (npages kend (p2v 0x400000)))
          \<longrightarrow> pmem s' a = pmem s a)"
  using assms by (rule kinit1_pages)

theorem kinit1_frees_all_witness:
  "\<exists>s'. kinit1 (entry_translate QEMU) 0xC0380000 0xC0380000 (p2v 0x400000) (bss_state (\<lambda>_. 0)) = Inr s'
    \<and> kmem_inv (entry_translate QEMU) 0xC0380000 s' (rev (pages 0xC0380000 128))"
  using kinit1_frees_all [of "0xC0380000" "bss_state (\<lambda>_. 0)" "0xD3" 0 QEMU]
  by (auto simp: KERNBASE_def p2v_def npages_def cli_at_def bss_state_def)


lemma page_0xC0380000: "kpage 0xC0380000 0xC0380000 \<and> direct (entry_translate t) 0xC0380000"
  by (intro conjI direct_entry) (simp_all add: kpage_def PGSIZE_def PHYSTOP_def v2p_def KERNBASE_def)


theorem kalloc_kfree_refine_stack_witness:
  "\<exists>s'. pg_run (kalloc (entry_translate QEMU)) (kfree (entry_translate QEMU) 0xC0380000)
      [Alloc, Free 0xC0380000, Alloc, Alloc] (bss_state (\<lambda>_. 0)) = Inr ([0, 0xC0380000, 0], s')"
proof -
  have "pg_spec (\<lambda>v. kpage 0xC0380000 v \<and> direct (entry_translate QEMU) v)
      [Alloc, Free 0xC0380000, Alloc, Alloc] [] = Some ([0, 0xC0380000, 0], [])"
    using page_0xC0380000 by simp
  from kalloc_kfree_refine_stack [OF bss_state_inv this] show ?thesis by blast
qed

end
