(* ===== verification/Vm.thy ===== *)
theory Vm
  imports Kalloc
begin

text \<open>
  Kernel page tables (\<^verbatim>\<open>vm.c\<close>, the part that is compiled): \<^verbatim>\<open>walkpgdir\<close>, \<^verbatim>\<open>mappages\<close>, the table
  \<^verbatim>\<open>kmap\<close>, \<^verbatim>\<open>setupkvm\<close>, \<^verbatim>\<open>kvmalloc\<close> and \<^verbatim>\<open>switchkvm\<close>. The routines write translation tables into
  memory; what those tables mean is the hardware walk \<^const>\<open>mmu_walk\<close>. The linker symbols \<^verbatim>\<open>data\<close>,
  \<^verbatim>\<open>end\<close> and the address of the array \<^verbatim>\<open>kernel_pgdir\<close> are parameters.
\<close>

section \<open>vm.c\<close>

text \<open>Pointers to table entries are addresses; entries are four bytes wide.\<close>

definition walkpgdir :: "trans \<Rightarrow> u32 \<Rightarrow> u32 \<Rightarrow> bool \<Rightarrow> kstate \<Rightarrow> (u32 \<times> kstate) res" where
  "walkpgdir tr pgdir va alloc s =
     (let pde = pgdir + 4 * PDX va
      in bindR (load tr pde (pmem s)) (\<lambda>d.
         if d AND PDE_TYPES = 1 then Inr ((d AND 0xfffff800) + 4 * PTX va, s)
         else let s1 = puts (''set new page directory entry!'' @ NL) s
              in if \<not> alloc then Inr (0, s1)
                 else bindR (kalloc tr s1) (\<lambda>r. case r of (pgtab, s2) \<Rightarrow>
                      if pgtab = 0 then Inr (0, s2)
                      else bindR (memset tr pgtab 0 PGSIZE (pmem s2)) (\<lambda>m.
                           bindR (store tr pde (0 OR v2p pgtab OR push_bit 5 DOMAIN
                                    OR push_bit 3 NS OR 1) m) (\<lambda>m1.
                           Inr (pgtab + 4 * PTX va, s2\<lparr>pmem := m1\<rparr>))))))"

definition pte_bits :: "u32 \<Rightarrow> u32" where
  "pte_bits pa = 0 OR pa OR push_bit 11 nG OR push_bit 10 S_bit OR push_bit 9 APX
     OR push_bit 6 TEX OR push_bit 4 AP OR push_bit 3 C_bit OR push_bit 2 B_bit
     OR push_bit 1 1 OR push_bit 0 XN"

text \<open>
  The endless loop of \<^verbatim>\<open>mappages\<close>, with the number of iterations bounded by \<open>fuel\<close>. There are
  \<open>2 ^ 20\<close> pages in the address space, so \<open>2 ^ 20\<close> iterations are enough for every range; running
  out of fuel is the value \<open>Hang\<close>.
\<close>

fun mappages_loop :: "nat \<Rightarrow> trans \<Rightarrow> u32 \<Rightarrow> u32 \<Rightarrow> u32 \<Rightarrow> u32 \<Rightarrow> kstate \<Rightarrow> (int \<times> kstate) res" where
  "mappages_loop 0 tr pgdir a lst pa s = Inl Hang"
| "mappages_loop (Suc fuel) tr pgdir a lst pa s =
     bindR (walkpgdir tr pgdir a True s) (\<lambda>r. case r of (pte, s1) \<Rightarrow>
     if pte = 0 then Inr (- 1, s1)
     else bindR (load tr pte (pmem s1)) (\<lambda>e.
          let s2 = (if e AND 2 \<noteq> 0 then puts (''resetting page table entry'' @ NL) s1 else s1)
          in bindR (store tr pte (pte_bits pa) (pmem s2)) (\<lambda>m.
             let s3 = puts ''A'' (s2\<lparr>pmem := m\<rparr>)
             in if a \<ge> lst then Inr (0, puts (NL @ ''mappage done'' @ NL @ NL) s3)
                else mappages_loop fuel tr pgdir (a + PGSIZE) lst (pa + PGSIZE) s3)))"

definition MAP_FUEL :: nat where "MAP_FUEL = 1048576"

text \<open>The argument \<^verbatim>\<open>perm\<close> is not used by the source.\<close>

definition mappages :: "trans \<Rightarrow> u32 \<Rightarrow> u32 \<Rightarrow> u32 \<Rightarrow> u32 \<Rightarrow> int \<Rightarrow> kstate \<Rightarrow> (int \<times> kstate) res" where
  "mappages tr pgdir va sz pa prm s =
     mappages_loop MAP_FUEL tr pgdir (PGROUNDDOWN va) (PGROUNDDOWN (va + sz - 1)) pa s"

record kmap_entry =
  virt :: u32
  phys_start :: u32
  phys_end :: u32
  perm :: int

definition PTE_W :: int where "PTE_W = 2"

definition kmap :: "target \<Rightarrow> u32 \<Rightarrow> u32 \<Rightarrow> kmap_entry list" where
  "kmap t kdata kend =
    [\<lparr>virt = KERNBASE, phys_start = 0, phys_end = EXTMEM, perm = PTE_W\<rparr>,
     \<lparr>virt = KERNLINK, phys_start = v2p KERNLINK, phys_end = v2p kdata, perm = PTE_W\<rparr>,
     \<lparr>virt = kdata, phys_start = v2p kdata, phys_end = v2p kend, perm = PTE_W\<rparr>,
     \<lparr>virt = kend, phys_start = v2p kend, phys_end = PHYSTOP, perm = PTE_W\<rparr>,
     \<lparr>virt = UART0_BASE_V t, phys_start = UART0_BASE_P t, phys_end = UART0_BASE_P t + 0x1000,
      perm = PTE_W\<rparr>,
     \<lparr>virt = VEC_TBL, phys_start = 0x6000, phys_end = 0x7000, perm = PTE_W\<rparr>,
     \<lparr>virt = VIC_BASE, phys_start = VIC_BASE, phys_end = VIC_BASE + 0x1000, perm = PTE_W\<rparr>,
     \<lparr>virt = TIMER_BASE, phys_start = TIMER_BASE, phys_end = TIMER_BASE + 0x1000, perm = PTE_W\<rparr>]"

fun kmap_loop :: "trans \<Rightarrow> u32 \<Rightarrow> kmap_entry list \<Rightarrow> kstate \<Rightarrow> (u32 \<times> kstate) res" where
  "kmap_loop tr pgdir [] s = Inr (pgdir, puts (''return pgdir address'' @ NL) s)"
| "kmap_loop tr pgdir (k # ks) s =
     bindR (mappages tr pgdir (virt k) (phys_end k - phys_start k) (phys_start k) (perm k)
              (puts (''mappages'' @ NL) s)) (\<lambda>r. case r of (rc, s1) \<Rightarrow>
     if rc < 0 then Inr (0, puts (''mappages return number < 0'' @ NL) s1)
     else kmap_loop tr pgdir ks s1)"

text \<open>
  \<^verbatim>\<open>setupkvm\<close> overwrites the sixth entry of \<^verbatim>\<open>kmap\<close> before it uses the table; \<open>kernel_pgdir\<close> is the
  address of the statically allocated first-level table.
\<close>

definition setupkvm :: "target \<Rightarrow> trans \<Rightarrow> u32 \<Rightarrow> u32 \<Rightarrow> u32 \<Rightarrow> kstate \<Rightarrow> (u32 \<times> kstate) res" where
  "setupkvm t tr kdata kend kernel_pgdir s =
     bindR (kalloc tr s) (\<lambda>r. case r of (v, s1) \<Rightarrow>
     let km = kmap t kdata kend;
         km = km[5 := (km ! 5)\<lparr>phys_start := v2p v\<rparr>];
         km = km[5 := (km ! 5)\<lparr>phys_end := phys_start (km ! 4) + 0x1000\<rparr>]
     in bindR (memset tr kernel_pgdir 0 (PGSIZE * 4) (pmem s1)) (\<lambda>m.
        let s2 = s1\<lparr>pmem := m\<rparr>;
            s3 = (if p2v PHYSTOP > DEVSPACE then puts (''PHYSTOP too high'' @ NL) s2 else s2)
        in kmap_loop tr kernel_pgdir km s3))"

text \<open>\<^verbatim>\<open>switchkvm\<close> returns the new value of the translation table base register.\<close>

definition switchkvm :: "u32 \<Rightarrow> kstate \<Rightarrow> u32 \<times> kstate" where
  "switchkvm kpgdir s = (v2p kpgdir, puts (''switchkvm done'' @ NL) s)"

text \<open>\<^verbatim>\<open>kvmalloc\<close>: the new \<^verbatim>\<open>kpgdir\<close>, the new table base, and the state.\<close>

definition kvmalloc :: "target \<Rightarrow> trans \<Rightarrow> u32 \<Rightarrow> u32 \<Rightarrow> u32 \<Rightarrow> kstate \<Rightarrow> (u32 \<times> u32 \<times> kstate) res" where
  "kvmalloc t tr kdata kend kernel_pgdir s =
     bindR (setupkvm t tr kdata kend kernel_pgdir s) (\<lambda>r. case r of (kpgdir, s1) \<Rightarrow>
     if kpgdir = 0 then Inl Hang
     else case switchkvm kpgdir s1 of (ttbr, s2) \<Rightarrow> Inr (kpgdir, ttbr, s2))"

text \<open>The translation in force once the table base register holds \<open>ttbr\<close>.\<close>

definition table_translate :: "u32 \<Rightarrow> mem \<Rightarrow> trans" where
  "table_translate ttbr m = mmu_walk (\<lambda>i. m (ttbr + 4 * i)) m"

section \<open>The tables as an abstract mapping\<close>

text \<open>
  \<open>T\<close> says which page holds the second-level table of each directory slot in use. The table page
  is named by its kernel address, as the free list names its pages.
\<close>

definition low_page :: "u32 \<Rightarrow> u32 \<Rightarrow> bool" where
  "low_page kend x \<longleftrightarrow> kpage kend x \<and> unat x + 4096 \<le> unat KERNBASE + 0x400000"

definition pd_ok :: "u32 \<Rightarrow> u32 \<Rightarrow> bool" where
  "pd_ok kend pd \<longleftrightarrow> unat pd mod 16384 = 0 \<and> unat KERNBASE \<le> unat pd \<and>
     unat pd + 16384 \<le> unat kend \<and> unat kend \<le> unat KERNBASE + 0x400000"

definition pt_inv :: "trans \<Rightarrow> u32 \<Rightarrow> u32 \<Rightarrow> kstate \<Rightarrow> u32 list \<Rightarrow> (u32 \<rightharpoonup> u32) \<Rightarrow> bool" where
  "pt_inv tr kend pd s xs T \<longleftrightarrow>
     kmem_inv tr kend s xs \<and> (\<forall>x \<in> set xs \<union> ran T. low_page kend x) \<and>
     (\<forall>i. unat i < 4096 \<longrightarrow>
        pmem s (v2p pd + 4 * i) = (case T i of None \<Rightarrow> 0 | Some x \<Rightarrow> v2p x OR 0x1E1)) \<and>
     set xs \<inter> ran T = {} \<and> inj_on T (dom T) \<and> finite (dom T)"

definition pte_at :: "mem \<Rightarrow> (u32 \<rightharpoonup> u32) \<Rightarrow> u32 \<Rightarrow> u32" where
  "pte_at m T va = (case T (PDX va) of None \<Rightarrow> 0 | Some x \<Rightarrow> m (v2p x + 4 * PTX va))"

text \<open>Nothing is written outside the directory and the pages \<open>X\<close>.\<close>

definition vm_frame :: "u32 \<Rightarrow> u32 set \<Rightarrow> mem \<Rightarrow> mem \<Rightarrow> bool" where
  "vm_frame pd X m m' \<longleftrightarrow>
     (\<forall>a. a \<notin> words (v2p pd) 4096 \<and> p2v (PGROUNDDOWN a) \<notin> X \<longrightarrow> m' a = m a)"

section \<open>Descriptors\<close>

lemma pde_bits: "0 OR v2p x OR push_bit 5 DOMAIN OR push_bit 3 NS OR 1 = v2p x OR 0x1E1"
  by (simp add: DOMAIN_def NS_def or.assoc)

lemma pte_bits_eq: "pte_bits pa = pa OR 0x63"
  by (simp add: pte_bits_def nG_def S_bit_def APX_def TEX_def AP_def C_bit_def B_bit_def XN_def or.assoc)

lemma aligned_and_low:
  assumes "unat (p :: u32) mod 4096 = 0"
  shows "p AND mask 12 = 0"
  using unat_and_mask32 [of p 12] assms by (simp add: word32_eq_iff)

lemma aligned_bit:
  assumes "unat (p :: u32) mod 4096 = 0" and "n < 12"
  shows "\<not> bit p n"
proof
  assume "bit p n"
  then have "bit (p AND mask 12) n" using assms(2) by (simp add: bit_simps)
  then show False by (simp add: aligned_and_low [OF assms(1)])
qed

lemma aligned_and_small:
  assumes "unat (p :: u32) mod 4096 = 0" and "w AND mask 12 = w"
  shows "p AND w = 0"
proof -
  have "p AND w = (p AND mask 12) AND w"
    using assms(2) by (simp only: and.assoc and.commute [of "mask 12" w])
  then show ?thesis by (simp add: aligned_and_low [OF assms(1)])
qed

lemma coarse_desc:
  assumes "unat (p :: u32) mod 4096 = 0"
  shows "(p OR 0x1E1) AND PDE_TYPES = 1" "(p OR 0x1E1) AND 0xfffff800 = p"
    and "(p OR 0x1E1) AND 3 = 1" "(p OR 0x1E1) AND NOT 0x3FF = p"
proof -
  note z = aligned_bit [OF assms]
  note p = aligned_and_small [OF assms]
  have "p AND 1 = 0" "p AND 3 = 0"
    using p [of 1] p [of 3] by (simp_all add: mask_eq_exp_minus_1)
  then show "(p OR 0x1E1) AND PDE_TYPES = 1" "(p OR 0x1E1) AND 3 = 1"
    by (simp_all add: PDE_TYPES_def bit.conj_disj_distrib2)
  have m: "p AND NOT (mask k) = p" if "k \<le> 12" for k
    using z that by (intro bit_word_eqI) (auto simp: bit_simps)
  have c: "(0xfffff800 :: u32) = - 2048" by simp
  have "p AND 0xfffff800 = p" "p AND NOT 0x3FF = p"
    unfolding c using m [of 11] m [of 10] by (simp_all add: mask_eq_exp_minus_1)
  then show "(p OR 0x1E1) AND 0xfffff800 = p" "(p OR 0x1E1) AND NOT 0x3FF = p"
    by (simp_all add: bit.conj_disj_distrib2)
qed

lemma small_page_desc:
  assumes "unat (pa :: u32) mod 4096 = 0"
  shows "pte_bits pa AND 2 = 2" "(pte_bits pa AND NOT 0xFFF) OR (va AND 0xFFF) = pa + (va AND 0xFFF)"
proof -
  note z = aligned_bit [OF assms]
  have "pa AND 2 = 0"
    using aligned_and_small [OF assms, of 2] by (simp add: mask_eq_exp_minus_1)
  then show "pte_bits pa AND 2 = 2" by (simp add: pte_bits_eq bit.conj_disj_distrib2)
  have "pa AND NOT (mask 12) = pa" using z by (intro bit_word_eqI) (auto simp: bit_simps)
  then have "pte_bits pa AND NOT 0xFFF = pa"
    by (simp add: pte_bits_eq bit.conj_disj_distrib2 mask_eq_exp_minus_1)
  moreover have "pa OR (va AND 0xFFF) = pa + (va AND 0xFFF)"
  proof -
    have "pa AND (va AND mask 12) = 0" using z by (intro bit_word_eqI) (auto simp: bit_simps)
    then have "pa AND (va AND 0xFFF) = 0" by (simp only: mask_lits)
    then show ?thesis by (simp only: disjunctive_add_eq_or)
  qed
  ultimately show "(pte_bits pa AND NOT 0xFFF) OR (va AND 0xFFF) = pa + (va AND 0xFFF)" by simp
qed

section \<open>Addresses of table entries\<close>

lemma unat_quad:
  assumes "unat (i :: u32) < 4096"
  shows "unat (4 * i) = 4 * unat i"
  using assms by (simp add: unat_word_ariths)

lemma PDX_lt: "unat (PDX va) < 4096"
  using unat_lt32 [of va] by (simp add: unat_PDX less_mult_imp_div_less)

lemma PTX_lt: "unat (PTX va) < 256"
  by (simp add: unat_PTX)

lemma unat_page_entry:
  assumes "unat (p :: u32) mod 4096 = 0"
  shows "unat (p + 4 * PTX va) = unat p + 4 * unat (PTX va)"
  using unat_word_offset [OF assms, of "unat (PTX va)"] PTX_lt [of va] by simp

lemma PGROUNDDOWN_entry:
  assumes "unat (p :: u32) mod 4096 = 0"
  shows "PGROUNDDOWN (p + 4 * PTX va) = p"
  using PGROUNDDOWN_offset [OF assms, of "unat (PTX va)"] PTX_lt [of va] by simp

text \<open>Addresses in the directory, under the boot mapping.\<close>

lemma pd_entry:
  assumes "pd_ok kend pd" and "unat i < 4096"
  shows "unat (pd + 4 * i) = unat pd + 4 * unat i"
    and "unat (v2p pd + 4 * i) = unat (v2p pd) + 4 * unat i"
    and "entry_translate t (pd + 4 * i) = Some (v2p pd + 4 * i)"
    and "unat (v2p pd + 4 * i) < unat (v2p kend)"
proof -
  have k: "unat KERNBASE = 3221225472" by (simp add: KERNBASE_def)
  have b: "unat KERNBASE \<le> unat pd" "unat pd + 16384 \<le> unat kend" "unat kend \<le> unat KERNBASE + 0x400000"
    using assms(1) by (simp_all add: pd_ok_def)
  have q: "unat (4 * i) = 4 * unat i" by (rule unat_quad [OF assms(2)])
  show u: "unat (pd + 4 * i) = unat pd + 4 * unat i"
    using unat_add32_small [of pd "4 * i"] q b k assms(2) by simp
  have v: "unat (v2p pd) = unat pd - 3221225472" "unat (v2p kend) = unat kend - 3221225472"
    using b k by (simp_all add: v2p_def unat_sub32)
  show w: "unat (v2p pd + 4 * i) = unat (v2p pd) + 4 * unat i"
    using unat_add32_small [of "v2p pd" "4 * i"] q b k v assms(2) by simp
  show "unat (v2p pd + 4 * i) < unat (v2p kend)" using w v b k assms(2) by linarith
  have "entry_translate t (pd + 4 * i) = Some (v2p (pd + 4 * i))"
    using u b assms(2) by (intro entry_translate_kern) linarith+
  then show "entry_translate t (pd + 4 * i) = Some (v2p pd + 4 * i)"
    by (simp add: v2p_def algebra_simps)
qed

lemma low_page_facts:
  assumes "low_page kend x"
  shows "unat x mod 4096 = 0" "unat (v2p x) mod 4096 = 0" "x \<noteq> 0"
    and "unat (v2p x) + 4096 \<le> 0x400000" "unat (v2p kend) \<le> unat (v2p x) \<or> unat kend < unat KERNBASE"
    and "direct (entry_translate t) x"
proof -
  have kp: "kpage kend x" and hi: "unat x + 4096 \<le> unat KERNBASE + 0x400000"
    using assms by (simp_all add: low_page_def)
  note a = kpage_aligned [OF kp]
  have k: "unat KERNBASE = 3221225472" by (simp add: KERNBASE_def)
  have x: "unat x = unat (v2p x) + 3221225472"
    using kp by (intro unat_v2p_small) (simp add: kpage_def)
  show "unat x mod 4096 = 0" "unat (v2p x) mod 4096 = 0" "x \<noteq> 0" by (rule a)+
  show "unat (v2p x) + 4096 \<le> 0x400000" using hi k x by linarith
  have "unat kend \<le> unat x" using kp by (simp add: kpage_def word_le_nat_alt)
  moreover have "unat (v2p kend) = unat kend - 3221225472" if "3221225472 \<le> unat kend"
    using that k unat_sub32 [of kend KERNBASE] by (simp add: v2p_def)
  ultimately show "unat (v2p kend) \<le> unat (v2p x) \<or> unat kend < unat KERNBASE"
    using k x by linarith
  show "direct (entry_translate t) x" using a(1) hi k x by (intro direct_entry) linarith+
qed

lemma low_entry:
  assumes "low_page kend x"
  shows "entry_translate t (v2p x + 4 * PTX va) = Some (v2p x + 4 * PTX va)"
    and "entry_translate t (x + 4 * PTX va) = Some (v2p x + 4 * PTX va)"
    and "x + 4 * PTX va \<noteq> 0"
proof -
  note f = low_page_facts [OF assms]
  note b = PTX_lt [of va]
  have "unat (v2p x + 4 * PTX va) < 0x400000"
    using f(4) b unat_page_entry [OF f(2), of va] by linarith
  then show "entry_translate t (v2p x + 4 * PTX va) = Some (v2p x + 4 * PTX va)"
    by (intro entry_translate_low) simp
  show "entry_translate t (x + 4 * PTX va) = Some (v2p x + 4 * PTX va)"
    using f(6) [of t, unfolded direct_def mapped_def, rule_format, of "unat (PTX va)"] b by simp
  have "unat x \<noteq> 0" using f(3) by (simp add: unat_eq_0)
  then have "unat (x + 4 * PTX va) \<noteq> 0" using unat_page_entry [OF f(1), of va] by simp
  then show "x + 4 * PTX va \<noteq> 0" by (metis unat_0)
qed

lemma pd_page_disjoint:
  assumes "pd_ok kend pd" and "low_page kend x" and "unat i < 4096"
  shows "p2v (PGROUNDDOWN (v2p pd + 4 * i)) \<noteq> x"
proof -
  have "unat KERNBASE \<le> unat kend" using assms(1) by (simp add: pd_ok_def)
  then have "unat (v2p kend) \<le> unat (v2p x)" using low_page_facts(5) [OF assms(2)] by simp
  moreover have "unat (v2p pd + 4 * i) < unat (v2p kend)" by (rule pd_entry [OF assms(1,3)])
  moreover have "unat (PGROUNDDOWN (v2p pd + 4 * i)) \<le> unat (v2p pd + 4 * i)"
    by (simp add: unat_PGROUNDDOWN)
  ultimately have "PGROUNDDOWN (v2p pd + 4 * i) \<noteq> v2p x" by auto
  then show ?thesis by (auto simp: p2v_def v2p_def)
qed

lemma pd_words:
  assumes "unat i < 4096"
  shows "v2p pd + 4 * i \<in> words (v2p pd) 4096"
  unfolding words_def using assms by (intro image_eqI [of _ _ "unat i"]) simp_all

lemma pd_entry_inj:
  assumes "pd_ok kend pd" and "unat i < 4096" and "unat j < 4096"
  shows "v2p pd + 4 * i = v2p pd + 4 * j \<longleftrightarrow> i = j"
  using pd_entry(2) [OF assms(1,2)] pd_entry(2) [OF assms(1,3)] by (auto simp: word32_eq_iff)

text \<open>The page a physical address lies in, as a kernel address.\<close>

lemma p2v_entry:
  assumes "low_page kend x"
  shows "p2v (PGROUNDDOWN (v2p x + 4 * PTX va)) = x"
  using PGROUNDDOWN_entry [OF low_page_facts(2) [OF assms]] by (simp add: p2v_def v2p_def)

lemma kmem_inv_frame:
  assumes "kmem_inv tr kend s xs" and "\<And>y. y \<in> set xs \<Longrightarrow> m' (v2p y) = pmem s (v2p y)"
  shows "kmem_inv tr kend (s\<lparr>pmem := m'\<rparr>) xs"
proof -
  have "flist tr m' (freelist s) xs"
  proof (rule flist_frame)
    show "flist tr (pmem s) (freelist s) xs" using assms(1) by (simp add: kmem_inv_def)
    fix x pa assume "x \<in> set xs" "tr x = Some pa"
    moreover from this have "pa = v2p x"
      using assms(1) direct_base [of tr x] by (auto simp: kmem_inv_def)
    ultimately show "m' pa = pmem s pa" using assms(2) by simp
  qed
  with assms(1) show ?thesis by (simp add: kmem_inv_def)
qed

lemma memset_page_0:
  assumes "direct tr v"
  shows "memset tr v 0 PGSIZE m = Inr (filled (v2p v) 1024 0 m)"
  using memset_loop_mapped [of tr v "v2p v" 1024] assms
  by (simp add: memset_def direct_def PGSIZE_def memset_word_0)

section \<open>walkpgdir\<close>

lemma pt_inv_low: "pt_inv tr kend pd s xs T \<Longrightarrow> x \<in> set xs \<union> ran T \<Longrightarrow> low_page kend x"
  by (simp add: pt_inv_def)

lemma pt_inv_pde:
  "pt_inv tr kend pd s xs T \<Longrightarrow> unat i < 4096 \<Longrightarrow>
     pmem s (v2p pd + 4 * i) = (case T i of None \<Rightarrow> 0 | Some x \<Rightarrow> v2p x OR 0x1E1)"
  by (simp add: pt_inv_def)

lemma walk_hit:
  assumes "pt_inv (entry_translate t) kend pd s xs T" and "pd_ok kend pd" and "T (PDX va) = Some x"
  shows "walkpgdir (entry_translate t) pd va al s = Inr (v2p x + 4 * PTX va, s)"
proof -
  have "low_page kend x" using assms(1,3) by (auto intro: pt_inv_low ranI)
  note f = coarse_desc [OF low_page_facts(2) [OF this]]
  have "pmem s (v2p pd + 4 * PDX va) = v2p x OR 0x1E1"
    using pt_inv_pde [OF assms(1) PDX_lt] assms(3) by simp
  then show ?thesis
    using pd_entry(3) [OF assms(2) PDX_lt] f by (simp add: walkpgdir_def load_def Let_def)
qed

lemma zeroed_page:
  assumes "low_page kend x"
  shows "filled (v2p x) 1024 0 m (v2p x + 4 * PTX va) = 0"
    and "p2v (PGROUNDDOWN a) \<noteq> x \<Longrightarrow> filled (v2p x) 1024 0 m a = m a"
proof -
  note f = low_page_facts [OF assms]
  have "v2p x + 4 * PTX va \<in> words (v2p x) 1024"
    unfolding words_def using PTX_lt [of va] by (intro image_eqI [of _ _ "unat (PTX va)"]) simp_all
  then show "filled (v2p x) 1024 0 m (v2p x + 4 * PTX va) = 0" by (simp add: filled_def)
  assume "p2v (PGROUNDDOWN a) \<noteq> x"
  then have "PGROUNDDOWN a \<noteq> v2p x" by (auto simp: p2v_def v2p_def)
  then show "filled (v2p x) 1024 0 m a = m a"
    using words_page [OF f(2), of a] by (auto simp: filled_def)
qed

lemma walk_miss_run:
  assumes inv: "pt_inv (entry_translate t) kend pd s (x # ys) T" and pd: "pd_ok kend pd"
    and none: "T (PDX va) = None"
  shows "\<exists>s2. kmem_inv (entry_translate t) kend s2 ys \<and> pmem s2 = pmem s \<and>
    walkpgdir (entry_translate t) pd va True s = Inr (x + 4 * PTX va,
      s2\<lparr>pmem := (filled (v2p x) 1024 0 (pmem s))(v2p pd + 4 * PDX va := v2p x OR 0x1E1)\<rparr>)"
proof -
  let ?s1 = "puts (''set new page directory entry!'' @ NL) s"
  have "kmem_inv (entry_translate t) kend ?s1 (x # ys)"
    using inv by (simp add: pt_inv_def kmem_inv_def puts_def)
  from kalloc_pops [OF this] obtain s2 where s2: "kalloc (entry_translate t) ?s1 = Inr (x, s2)"
    "kmem_inv (entry_translate t) kend s2 ys" "pmem s2 = pmem s" by (auto simp: puts_def)
  have x: "low_page kend x" using pt_inv_low [OF inv] by simp
  note f = low_page_facts [OF x]
  have "pmem s (v2p pd + 4 * PDX va) = 0" using pt_inv_pde [OF inv PDX_lt] none by simp
  then have "walkpgdir (entry_translate t) pd va True s = Inr (x + 4 * PTX va,
      s2\<lparr>pmem := (filled (v2p x) 1024 0 (pmem s))(v2p pd + 4 * PDX va := v2p x OR 0x1E1)\<rparr>)"
    using pd_entry(3) [OF pd PDX_lt] s2 f(3) memset_page_0 [OF f(6)] pde_bits
    by (simp add: walkpgdir_def load_def store_def Let_def)
  with s2 show ?thesis by blast
qed

lemma walk_miss:
  assumes inv: "pt_inv (entry_translate t) kend pd s (x # ys) T" and pd: "pd_ok kend pd"
    and none: "T (PDX va) = None"
  shows "\<exists>s'. walkpgdir (entry_translate t) pd va True s = Inr (x + 4 * PTX va, s')
    \<and> pt_inv (entry_translate t) kend pd s' ys (T(PDX va \<mapsto> x))
    \<and> (\<forall>va'. pte_at (pmem s') (T(PDX va \<mapsto> x)) va' = pte_at (pmem s) T va')
    \<and> vm_frame pd (set (x # ys) \<union> ran T) (pmem s) (pmem s')"
proof -
  let ?i = "PDX va" and ?T = "T(PDX va \<mapsto> x)"
  let ?m = "(filled (v2p x) 1024 0 (pmem s))(v2p pd + 4 * ?i := v2p x OR 0x1E1)"
  from walk_miss_run [OF assms] obtain s2 where s2: "kmem_inv (entry_translate t) kend s2 ys"
    "pmem s2 = pmem s"
    "walkpgdir (entry_translate t) pd va True s = Inr (x + 4 * PTX va, s2\<lparr>pmem := ?m\<rparr>)" by blast
  let ?s' = "s2\<lparr>pmem := ?m\<rparr>"
  have lowx: "low_page kend x" and lowT: "\<And>y. y \<in> set ys \<union> ran T \<Longrightarrow> low_page kend y"
    using inv by (auto simp: pt_inv_def)
  have new: "x \<notin> set ys" "x \<notin> ran T" "set ys \<inter> ran T = {}"
    using inv by (auto simp: pt_inv_def kmem_inv_def)
  have other: "?m (v2p y + 4 * PTX va') = pmem s (v2p y + 4 * PTX va')"
    if "low_page kend y" "y \<noteq> x" for y va'
  proof -
    have "v2p y + 4 * PTX va' \<noteq> v2p pd + 4 * ?i"
      using pd_page_disjoint [OF pd that(1) PDX_lt, of va] p2v_entry [OF that(1), of va'] by auto
    then show ?thesis
      using zeroed_page(2) [OF lowx, of "v2p y + 4 * PTX va'"] p2v_entry [OF that(1)] that(2)
      by simp
  qed
  have pde: "?m (v2p pd + 4 * i) = (case ?T i of None \<Rightarrow> 0 | Some x \<Rightarrow> v2p x OR 0x1E1)"
    if "unat i < 4096" for i
    using pt_inv_pde [OF inv that] pd_entry_inj [OF pd that PDX_lt, of va]
      zeroed_page(2) [OF lowx pd_page_disjoint [OF pd lowx that], of "pmem s"] by simp
  have "?m (v2p y) = pmem s2 (v2p y)" if "y \<in> set ys" for y
  proof -
    have "low_page kend y" "y \<noteq> x" using that lowT new(1) by auto
    from other [OF this, of 0] show ?thesis by (simp add: PTX_def s2(2))
  qed
  then have "kmem_inv (entry_translate t) kend ?s' ys" by (intro kmem_inv_frame [OF s2(1)])
  moreover have "ran ?T = insert x (ran T)" using none by (simp add: ran_map_upd)
  moreover have "inj_on ?T (dom ?T)"
    using inv new(2) by (auto simp: pt_inv_def inj_on_def ran_def split: if_splits)
  ultimately have "pt_inv (entry_translate t) kend pd ?s' ys ?T"
    using inv pde new by (auto simp: pt_inv_def)
  moreover have "pte_at ?m ?T va' = pte_at (pmem s) T va'" for va'
  proof (cases "T (PDX va')")
    case None
    moreover have "?m (v2p x + 4 * PTX va') = 0"
      using pd_page_disjoint [OF pd lowx PDX_lt, of va] p2v_entry [OF lowx, of va']
        zeroed_page(1) [OF lowx, of "pmem s" va'] by auto
    ultimately show ?thesis by (simp add: pte_at_def)
  next
    case (Some y)
    then have "y \<in> ran T" by (rule ranI)
    with new(2) have "low_page kend y" "y \<noteq> x" using lowT by auto
    from other [OF this] Some none show ?thesis by (auto simp: pte_at_def)
  qed
  moreover have "vm_frame pd (set (x # ys) \<union> ran T) (pmem s) ?m"
    unfolding vm_frame_def using zeroed_page(2) [OF lowx] pd_words [OF PDX_lt, of pd va]
    by (intro allI impI) (metis Un_iff fun_upd_other list.set_intros(1))
  ultimately show ?thesis using s2(3) by (intro exI [of _ ?s']) simp
qed

text \<open>
  What \<^verbatim>\<open>walkpgdir\<close> promises: with room for a new table it returns a usable pointer to the entry of
  \<open>va\<close>, and no entry changes.
\<close>

lemma walk_ok:
  assumes inv: "pt_inv (entry_translate t) kend pd s xs T" and pd: "pd_ok kend pd"
    and room: "T (PDX va) \<noteq> None \<or> xs \<noteq> []"
  shows "\<exists>s' xs' T' x ptr. walkpgdir (entry_translate t) pd va True s = Inr (ptr, s')
    \<and> ptr \<noteq> 0 \<and> entry_translate t ptr = Some (v2p x + 4 * PTX va) \<and> T' (PDX va) = Some x
    \<and> pt_inv (entry_translate t) kend pd s' xs' T'
    \<and> (\<forall>va'. pte_at (pmem s') T' va' = pte_at (pmem s) T va')
    \<and> dom T' = insert (PDX va) (dom T)
    \<and> length xs' + card (dom T') = length xs + card (dom T)
    \<and> set xs' \<union> ran T' = set xs \<union> ran T \<and> set xs' \<subseteq> set xs
    \<and> vm_frame pd (set xs \<union> ran T) (pmem s) (pmem s')"
proof (cases "T (PDX va)")
  case (Some x)
  then have x: "low_page kend x" using inv by (auto intro: pt_inv_low ranI)
  have "unat (v2p kend) \<le> unat (v2p x)"
    using low_page_facts(5) [OF x] pd by (auto simp: pd_ok_def)
  moreover have "0 < unat (v2p kend)" using pd_entry(4) [OF pd, of 0] by simp
  ultimately have "unat (v2p x + 4 * PTX va) \<noteq> 0"
    using unat_page_entry [OF low_page_facts(2) [OF x], of va] by simp
  then have "v2p x + 4 * PTX va \<noteq> 0" by (metis unat_0)
  then show ?thesis
    using walk_hit [OF inv pd Some] low_entry(1) [OF x] Some inv
    by (intro exI [of _ s] exI [of _ xs] exI [of _ T] exI [of _ x] exI [of _ "v2p x + 4 * PTX va"])
      (auto simp: vm_frame_def)
next
  case None
  with room obtain x ys where xs: "xs = x # ys" by (cases xs) auto
  have x: "low_page kend x" using inv xs by (auto intro: pt_inv_low)
  from walk_miss [OF inv [unfolded xs] pd None] obtain s' where s':
    "walkpgdir (entry_translate t) pd va True s = Inr (x + 4 * PTX va, s')"
    "pt_inv (entry_translate t) kend pd s' ys (T(PDX va \<mapsto> x))"
    "\<forall>va'. pte_at (pmem s') (T(PDX va \<mapsto> x)) va' = pte_at (pmem s) T va'"
    "vm_frame pd (set (x # ys) \<union> ran T) (pmem s) (pmem s')" by blast
  have "ran (T(PDX va \<mapsto> x)) = insert x (ran T)" using None by (simp add: ran_map_upd)
  moreover have "finite (dom T)" using inv by (simp add: pt_inv_def)
  ultimately show ?thesis
    using s' low_entry(2,3) [OF x] None xs
    by (intro exI [of _ s'] exI [of _ ys] exI [of _ "T(PDX va \<mapsto> x)"] exI [of _ x]
        exI [of _ "x + 4 * PTX va"]) (auto simp: domIff)
qed

section \<open>Writing an entry\<close>

lemma same_entry:
  assumes "PDX va = PDX va'" and "PTX va = PTX va'"
  shows "PGROUNDDOWN va = PGROUNDDOWN va'"
proof -
  have "unat va div 1048576 = unat va' div 1048576"
    using assms(1) by (metis unat_PDX)
  moreover have "unat va div 4096 mod 256 = unat va' div 4096 mod 256"
    using assms(2) by (metis unat_PTX)
  moreover have "n div 4096 = n div 1048576 * 256 + n div 4096 mod 256" for n :: nat
    using div_mult_mod_eq [of "n div 4096" 256] by (simp add: div_mult2_eq [symmetric])
  ultimately have "unat va div 4096 = unat va' div 4096" by metis
  then show ?thesis
    by (simp add: word32_eq_iff unat_PGROUNDDOWN minus_mod_eq_mult_div)
qed

lemma entry_of_page:
  assumes "PGROUNDDOWN va = PGROUNDDOWN va'"
  shows "PDX va = PDX va'" and "PTX va = PTX va'"
proof -
  have "unat va div 4096 = unat va' div 4096"
    using assms by (simp add: word32_eq_iff unat_PGROUNDDOWN minus_mod_eq_mult_div)
  moreover have "n div 1048576 = n div 4096 div 256" for n :: nat
    by (simp add: div_mult2_eq [symmetric])
  ultimately show "PDX va = PDX va'" "PTX va = PTX va'"
    by (simp_all add: word32_eq_iff unat_PDX unat_PTX)
qed

lemma write_pte:
  fixes e :: u32
  assumes inv: "pt_inv tr kend pd s xs T" and pd: "pd_ok kend pd" and T: "T (PDX va) = Some x"
  defines "m' \<equiv> (pmem s)(v2p x + 4 * PTX va := e)"
  shows "pt_inv tr kend pd (s\<lparr>pmem := m'\<rparr>) xs T"
    and "pte_at m' T va' = (if PGROUNDDOWN va' = PGROUNDDOWN va then e else pte_at (pmem s) T va')"
    and "vm_frame pd (set xs \<union> ran T) (pmem s) m'"
proof -
  have xT: "x \<in> ran T" using T by (rule ranI)
  then have x: "low_page kend x" and low: "\<And>y. y \<in> set xs \<union> ran T \<Longrightarrow> low_page kend y"
    using inv by (auto intro: pt_inv_low)
  note px = p2v_entry [OF x, of va]
  have "m' (v2p y) = pmem s (v2p y)" if "y \<in> set xs" for y
  proof -
    have "y \<noteq> x" "low_page kend y" using inv that xT low by (auto simp: pt_inv_def)
    then show ?thesis using p2v_entry [of kend y 0] px by (auto simp: m'_def PTX_def)
  qed
  then have "kmem_inv tr kend (s\<lparr>pmem := m'\<rparr>) xs"
    using inv by (intro kmem_inv_frame) (auto simp: pt_inv_def)
  moreover have "m' (v2p pd + 4 * i) = pmem s (v2p pd + 4 * i)" if "unat i < 4096" for i
    using pd_page_disjoint [OF pd x that] px by (auto simp: m'_def)
  ultimately show "pt_inv tr kend pd (s\<lparr>pmem := m'\<rparr>) xs T" using inv by (simp add: pt_inv_def)
  show "vm_frame pd (set xs \<union> ran T) (pmem s) m'" using px xT by (auto simp: vm_frame_def m'_def)
  show "pte_at m' T va' = (if PGROUNDDOWN va' = PGROUNDDOWN va then e else pte_at (pmem s) T va')"
  proof (cases "PDX va' = PDX va \<and> PTX va' = PTX va")
    case True
    then show ?thesis using T same_entry [of va' va] by (simp add: pte_at_def m'_def)
  next
    case False
    then have diff: "PGROUNDDOWN va' \<noteq> PGROUNDDOWN va" using entry_of_page by blast
    have "v2p y + 4 * PTX va' \<noteq> v2p x + 4 * PTX va" if y: "T (PDX va') = Some y" for y
    proof
      assume eq: "v2p y + 4 * PTX va' = v2p x + 4 * PTX va"
      have ly: "low_page kend y" using y low by (auto intro: ranI)
      with eq px have "y = x" using p2v_entry [OF ly, of va'] by simp
      with T y inv have "PDX va' = PDX va"
        using inj_onD [of T "dom T" "PDX va'" "PDX va"] by (auto simp: pt_inv_def)
      moreover have "unat (v2p x) + 4 * unat (PTX va') = unat (v2p x) + 4 * unat (PTX va)"
        using eq \<open>y = x\<close> unat_page_entry [OF low_page_facts(2) [OF x]] by metis
      then have "PTX va' = PTX va" by (simp add: word32_eq_iff)
      ultimately show False using False by simp
    qed
    then show ?thesis using diff by (simp add: pte_at_def m'_def split: option.split)
  qed
qed

section \<open>mappages\<close>

text \<open>The free pages suffice for the tables of the directory slots \<open>D\<close> not in use yet.\<close>

definition pt_room :: "u32 set \<Rightarrow> u32 list \<Rightarrow> (u32 \<rightharpoonup> u32) \<Rightarrow> bool" where
  "pt_room D xs T \<longleftrightarrow> finite D \<and> dom T \<subseteq> D \<and> card D \<le> length xs + card (dom T)"

text \<open>From tables \<open>T\<close> in state \<open>s\<close> to tables \<open>T'\<close> in \<open>s'\<close>, the entries being \<open>f\<close> afterwards.\<close>

definition pt_step :: "target \<Rightarrow> u32 \<Rightarrow> u32 \<Rightarrow> u32 set \<Rightarrow> (u32 \<Rightarrow> u32) \<Rightarrow>
    kstate \<times> u32 list \<times> (u32 \<rightharpoonup> u32) \<Rightarrow> kstate \<times> u32 list \<times> (u32 \<rightharpoonup> u32) \<Rightarrow> bool" where
  "pt_step t kend pd D f = (\<lambda>(s, xs, T) (s', xs', T').
     pt_inv (entry_translate t) kend pd s' xs' T' \<and> pt_room D xs' T' \<and>
     set xs' \<union> ran T' = set xs \<union> ran T \<and> set xs' \<subseteq> set xs \<and>
     vm_frame pd (set xs \<union> ran T) (pmem s) (pmem s') \<and>
     (\<forall>va. pte_at (pmem s') T' va = f va))"

lemma pt_step_trans:
  assumes "pt_step t kend pd D f (s, xs, T) (s1, xs1, T1)"
    and "pt_step t kend pd D g (s1, xs1, T1) (s2, xs2, T2)"
  shows "pt_step t kend pd D g (s, xs, T) (s2, xs2, T2)"
  using assms unfolding pt_step_def vm_frame_def by auto

lemma pt_inv_puts [simp]: "pt_inv tr kend pd (puts str s) xs T = pt_inv tr kend pd s xs T"
  by (simp add: pt_inv_def kmem_inv_def puts_def)

lemma pmem_puts [simp]: "pmem (puts str s) = pmem s"
  by (simp add: puts_def)

lemma map_one:
  assumes inv: "pt_inv (entry_translate t) kend pd s xs T" and pd: "pd_ok kend pd"
    and room: "pt_room D xs T" and a: "PDX a \<in> D"
  shows "\<exists>s3 xs' T'. mappages_loop (Suc fuel) (entry_translate t) pd a lst pa s =
      (if a \<ge> lst then Inr (0, puts (NL @ ''mappage done'' @ NL @ NL) s3)
       else mappages_loop fuel (entry_translate t) pd (a + PGSIZE) lst (pa + PGSIZE) s3)
    \<and> pt_step t kend pd D
        (\<lambda>va. if PGROUNDDOWN va = PGROUNDDOWN a then pte_bits pa else pte_at (pmem s) T va)
        (s, xs, T) (s3, xs', T')"
proof -
  have "T (PDX a) \<noteq> None \<or> xs \<noteq> []"
  proof (rule disjCI)
    assume "\<not> xs \<noteq> []"
    then have "card D \<le> card (dom T)" "dom T \<subseteq> D" "finite D" using room by (auto simp: pt_room_def)
    then have "dom T = D" by (intro card_seteq)
    with a show "T (PDX a) \<noteq> None" by auto
  qed
  from walk_ok [OF inv pd this] obtain s1 xs' T' x ptr where w:
    "walkpgdir (entry_translate t) pd a True s = Inr (ptr, s1)" "ptr \<noteq> 0"
    "entry_translate t ptr = Some (v2p x + 4 * PTX a)" "T' (PDX a) = Some x"
    "pt_inv (entry_translate t) kend pd s1 xs' T'"
    "\<forall>va'. pte_at (pmem s1) T' va' = pte_at (pmem s) T va'"
    "dom T' = insert (PDX a) (dom T)" "length xs' + card (dom T') = length xs + card (dom T)"
    "set xs' \<union> ran T' = set xs \<union> ran T" "set xs' \<subseteq> set xs"
    "vm_frame pd (set xs \<union> ran T) (pmem s) (pmem s1)" by blast
  let ?m = "(pmem s1)(v2p x + 4 * PTX a := pte_bits pa)"
  let ?s2 = "if pmem s1 (v2p x + 4 * PTX a) AND 2 \<noteq> 0
    then puts (''resetting page table entry'' @ NL) s1 else s1"
  let ?s3 = "puts ''A'' (?s2\<lparr>pmem := ?m\<rparr>)"
  note wr = write_pte [OF w(5) pd w(4), of "pte_bits pa"]
  have run: "mappages_loop (Suc fuel) (entry_translate t) pd a lst pa s =
      (if a \<ge> lst then Inr (0, puts (NL @ ''mappage done'' @ NL @ NL) ?s3)
       else mappages_loop fuel (entry_translate t) pd (a + PGSIZE) lst (pa + PGSIZE) ?s3)"
    using w(1-3) by (simp add: load_def store_def Let_def)
  have "pt_inv (entry_translate t) kend pd ?s3 xs' T'"
    using wr(1) by (simp add: pt_inv_def kmem_inv_def puts_def)
  moreover have "pt_room D xs' T'" using room w(7,8) a by (auto simp: pt_room_def)
  moreover have "vm_frame pd (set xs \<union> ran T) (pmem s) (pmem ?s3)"
    using w(9,11) wr(3) by (simp add: vm_frame_def)
  moreover have "pte_at (pmem ?s3) T' va =
      (if PGROUNDDOWN va = PGROUNDDOWN a then pte_bits pa else pte_at (pmem s) T va)" for va
    using wr(2) [of va] w(6) by simp
  ultimately have "pt_step t kend pd D
      (\<lambda>va. if PGROUNDDOWN va = PGROUNDDOWN a then pte_bits pa else pte_at (pmem s) T va)
      (s, xs, T) (?s3, xs', T')"
    using w(9,10) by (simp add: pt_step_def)
  with run show ?thesis by blast
qed

text \<open>The entries after mapping \<open>k + 1\<close> pages from \<open>a\<close> to \<open>pa\<close>.\<close>

definition ptes_mapped :: "u32 \<Rightarrow> nat \<Rightarrow> u32 \<Rightarrow> (u32 \<Rightarrow> u32) \<Rightarrow> u32 \<Rightarrow> u32" where
  "ptes_mapped a k pa f va =
     (if unat a \<le> unat va \<and> unat va < unat a + 4096 * Suc k
      then pte_bits (pa + (PGROUNDDOWN va - a)) else f va)"

lemma PGROUNDDOWN_eq_iff:
  assumes "unat (a :: u32) mod 4096 = 0"
  shows "PGROUNDDOWN va = a \<longleftrightarrow> unat a \<le> unat va \<and> unat va < unat a + 4096"
proof -
  have "n - n mod 4096 = c \<longleftrightarrow> c \<le> n \<and> n < c + 4096" if "c mod 4096 = 0" for n c :: nat
  proof
    assume "n - n mod 4096 = c"
    then show "c \<le> n \<and> n < c + 4096"
      using mod_less_divisor [of 4096 n] mod_less_eq_dividend [of n 4096] by linarith
  next
    assume "c \<le> n \<and> n < c + 4096"
    then obtain d where d: "n = c + d" "d < 4096" using nat_le_iff_add by fastforce
    then have "n mod 4096 = d" using that mod_add_left_eq [of c 4096 d] by simp
    then show "n - n mod 4096 = c" using d by simp
  qed
  from this [OF assms] show ?thesis by (simp add: word32_eq_iff unat_PGROUNDDOWN)
qed

lemma same_page_iff:
  assumes "unat (a :: u32) mod 4096 = 0"
  shows "PGROUNDDOWN va = PGROUNDDOWN a \<longleftrightarrow> unat a \<le> unat va \<and> unat va < unat a + 4096"
  unfolding PGROUNDDOWN_aligned [OF assms] by (rule PGROUNDDOWN_eq_iff [OF assms])

lemma ptes_mapped_step:
  assumes "unat a mod 4096 = 0" and "unat a + 4096 * Suc k < 4294967296"
  shows "ptes_mapped (a + PGSIZE) k (pa + PGSIZE)
      (\<lambda>va. if PGROUNDDOWN va = PGROUNDDOWN a then pte_bits pa else f va)
    = ptes_mapped a (Suc k) pa f"
proof
  fix va
  have u: "unat (a + PGSIZE) = unat a + 4096"
    using assms(2) by (simp add: unat_add32 PGSIZE_def)
  note p = same_page_iff [OF assms(1)]
  have q: "pa + PGSIZE + (PGROUNDDOWN va - (a + PGSIZE)) = pa + (PGROUNDDOWN va - a)" by simp
  show "ptes_mapped (a + PGSIZE) k (pa + PGSIZE)
      (\<lambda>va. if PGROUNDDOWN va = PGROUNDDOWN a then pte_bits pa else f va) va
    = ptes_mapped a (Suc k) pa f va"
  proof (cases "unat a \<le> unat va \<and> unat va < unat a + 4096")
    case True
    then have "PGROUNDDOWN va = a" using PGROUNDDOWN_eq_iff [OF assms(1)] by simp
    with True show ?thesis by (simp add: ptes_mapped_def u PGROUNDDOWN_aligned [OF assms(1)])
  next
    case False
    then have "\<not> (unat a \<le> unat va \<and> unat va < unat a + 4096 * Suc (Suc k)) \<longleftrightarrow>
      \<not> (unat a + 4096 \<le> unat va \<and> unat va < unat a + 4096 + 4096 * Suc k)" by auto
    then show ?thesis using False unfolding ptes_mapped_def u p q by auto
  qed
qed

lemma ptes_mapped_0:
  assumes "unat a mod 4096 = 0"
  shows "ptes_mapped a 0 pa f
    = (\<lambda>va. if unat a \<le> unat va \<and> unat va < unat a + 4096 then pte_bits pa else f va)"
proof
  fix va
  have "PGROUNDDOWN va = a" if "unat a \<le> unat va \<and> unat va < unat a + 4096"
    using that PGROUNDDOWN_eq_iff [OF assms] by simp
  then show "ptes_mapped a 0 pa f va
    = (if unat a \<le> unat va \<and> unat va < unat a + 4096 then pte_bits pa else f va)"
    by (simp add: ptes_mapped_def)
qed

lemma aligned_next:
  assumes "unat (a :: u32) mod 4096 = 0" and "unat a + 4096 * Suc k < 4294967296"
  shows "unat (a + PGSIZE) = unat a + 4096" "unat (a + PGSIZE) mod 4096 = 0"
proof -
  show u: "unat (a + PGSIZE) = unat a + 4096"
    using assms(2) by (simp add: unat_add32 PGSIZE_def)
  show "unat (a + PGSIZE) mod 4096 = 0" using assms(1) by (simp add: u)
qed

lemma mappages_loop_ok:
  assumes "pt_inv (entry_translate t) kend pd s xs T" and "pd_ok kend pd" and "pt_room D xs T"
    and "unat a mod 4096 = 0" and "unat a + 4096 * k < 4294967296" and "k < fuel"
    and "\<forall>va. unat a \<le> unat va \<and> unat va < unat a + 4096 * Suc k \<longrightarrow> PDX va \<in> D"
    and "unat lst \<le> unat a + 4096 * k" and "k = 0 \<or> unat a + 4096 * k < unat lst + 4096"
  shows "\<exists>s' xs' T'. mappages_loop fuel (entry_translate t) pd a lst pa s = Inr (0, s')
    \<and> pt_step t kend pd D (ptes_mapped a k pa (pte_at (pmem s) T)) (s, xs, T) (s', xs', T')"
  using assms
proof (induction k arbitrary: a pa s xs T fuel)
  case 0
  then obtain fuel' where f: "fuel = Suc fuel'" by (cases fuel) auto
  have "PDX a \<in> D" using 0(7) by auto
  from map_one [OF 0(1-3) this, of fuel' lst pa] obtain s3 xs' T' where s3:
    "mappages_loop fuel (entry_translate t) pd a lst pa s =
      (if a \<ge> lst then Inr (0, puts (NL @ ''mappage done'' @ NL @ NL) s3)
       else mappages_loop fuel' (entry_translate t) pd (a + PGSIZE) lst (pa + PGSIZE) s3)"
    "pt_step t kend pd D
      (\<lambda>va. if PGROUNDDOWN va = PGROUNDDOWN a then pte_bits pa else pte_at (pmem s) T va)
      (s, xs, T) (s3, xs', T')" unfolding f by blast
  have "a \<ge> lst" using 0(8) by (simp add: word_le_nat_alt)
  moreover have "(\<lambda>va. if PGROUNDDOWN va = PGROUNDDOWN a then pte_bits pa else pte_at (pmem s) T va)
      = ptes_mapped a 0 pa (pte_at (pmem s) T)"
    unfolding same_page_iff [OF 0(4)] by (rule ptes_mapped_0 [OF 0(4), symmetric])
  ultimately show ?case using s3
    by (intro exI [of _ "puts (NL @ ''mappage done'' @ NL @ NL) s3"] exI [of _ xs'] exI [of _ T'])
      (simp add: pt_step_def)
next
  case (Suc k)
  then obtain fuel' where f: "fuel = Suc fuel'" "k < fuel'" by (cases fuel) auto
  have "PDX a \<in> D" using Suc.prems(7) by auto
  from map_one [OF Suc.prems(1-3) this, of fuel' lst pa] obtain s3 xs3 T3 where s3:
    "mappages_loop fuel (entry_translate t) pd a lst pa s =
      (if a \<ge> lst then Inr (0, puts (NL @ ''mappage done'' @ NL @ NL) s3)
       else mappages_loop fuel' (entry_translate t) pd (a + PGSIZE) lst (pa + PGSIZE) s3)"
    "pt_step t kend pd D
      (\<lambda>va. if PGROUNDDOWN va = PGROUNDDOWN a then pte_bits pa else pte_at (pmem s) T va)
      (s, xs, T) (s3, xs3, T3)" unfolding f(1) by blast
  note n = aligned_next [OF Suc.prems(4,5)]
  have go: "\<not> a \<ge> lst" using Suc.prems(9) by (simp add: word_le_nat_alt)
  have 3: "pt_inv (entry_translate t) kend pd s3 xs3 T3" "pt_room D xs3 T3"
    "pte_at (pmem s3) T3 =
      (\<lambda>va. if PGROUNDDOWN va = PGROUNDDOWN a then pte_bits pa else pte_at (pmem s) T va)"
    using s3(2) by (auto simp: pt_step_def)
  have "\<exists>s' xs' T'. mappages_loop fuel' (entry_translate t) pd (a + PGSIZE) lst (pa + PGSIZE) s3 = Inr (0, s')
    \<and> pt_step t kend pd D (ptes_mapped (a + PGSIZE) k (pa + PGSIZE) (pte_at (pmem s3) T3))
        (s3, xs3, T3) (s', xs', T')"
    using Suc.prems f(2) n by (intro Suc.IH 3(1,2)) auto
  then obtain s' xs' T' where "mappages_loop fuel (entry_translate t) pd a lst pa s = Inr (0, s')"
    and st: "pt_step t kend pd D (ptes_mapped a (Suc k) pa (pte_at (pmem s) T)) (s3, xs3, T3) (s', xs', T')"
    using s3(1) go unfolding 3(3) ptes_mapped_step [OF Suc.prems(4,5)] by auto
  with pt_step_trans [OF s3(2) st] show ?case by blast
qed

section \<open>The kernel map\<close>

text \<open>An entry of \<^verbatim>\<open>kmap\<close> that \<^verbatim>\<open>mappages\<close> maps as \<open>k + 1\<close> pages, inside the directory slots \<open>D\<close>.\<close>

definition fits :: "u32 set \<Rightarrow> kmap_entry \<Rightarrow> nat \<Rightarrow> bool" where
  "fits D e k \<longleftrightarrow>
     (let a = unat (virt e);
          lst = unat (PGROUNDDOWN (virt e + (phys_end e - phys_start e) - 1))
      in a mod 4096 = 0 \<and> a + 4096 * k < 4294967296 \<and>
         (\<forall>va. a \<le> unat va \<and> unat va < a + 4096 * Suc k \<longrightarrow> PDX va \<in> D) \<and>
         lst \<le> a + 4096 * k \<and> (k = 0 \<or> a + 4096 * k < lst + 4096))"

lemma mappages_ok:
  assumes "pt_inv (entry_translate t) kend pd s xs T" and "pd_ok kend pd" and "pt_room D xs T"
    and "fits D e k"
  shows "\<exists>s' xs' T'. mappages (entry_translate t) pd (virt e) (phys_end e - phys_start e)
        (phys_start e) (perm e) s = Inr (0, s')
    \<and> pt_step t kend pd D (ptes_mapped (virt e) k (phys_start e) (pte_at (pmem s) T)) (s, xs, T) (s', xs', T')"
proof -
  have f: "unat (virt e) mod 4096 = 0" "unat (virt e) + 4096 * k < 4294967296"
    using assms(4) by (simp_all add: fits_def Let_def)
  have "k < MAP_FUEL" using f(2) by (simp add: MAP_FUEL_def)
  then show ?thesis
    unfolding mappages_def PGROUNDDOWN_aligned [OF f(1)]
    using assms(4) by (intro mappages_loop_ok assms(1-3)) (simp_all add: fits_def Let_def)
qed

text \<open>The entries after a list of mappings.\<close>

fun ptes_of :: "(kmap_entry \<times> nat) list \<Rightarrow> (u32 \<Rightarrow> u32) \<Rightarrow> u32 \<Rightarrow> u32" where
  "ptes_of [] f = f"
| "ptes_of ((e, k) # es) f = ptes_of es (ptes_mapped (virt e) k (phys_start e) f)"

lemma kmap_loop_ok:
  assumes "pt_inv (entry_translate t) kend pd s xs T" and "pd_ok kend pd" and "pt_room D xs T"
    and "\<forall>(e, k) \<in> set es. fits D e k"
  shows "\<exists>s' xs' T'. kmap_loop (entry_translate t) pd (map fst es) s = Inr (pd, s')
    \<and> pt_step t kend pd D (ptes_of es (pte_at (pmem s) T)) (s, xs, T) (s', xs', T')"
  using assms
proof (induction es arbitrary: s xs T)
  case Nil
  then show ?case
    by (intro exI [of _ "puts (''return pgdir address'' @ NL) s"] exI [of _ xs] exI [of _ T])
      (simp add: pt_step_def vm_frame_def)
next
  case (Cons ek es)
  obtain e k where ek: "ek = (e, k)" by (cases ek)
  let ?s = "puts (''mappages'' @ NL) s"
  have "pt_inv (entry_translate t) kend pd ?s xs T" "fits D e k"
    using Cons.prems(1,4) ek by simp_all
  from mappages_ok [OF this(1) Cons.prems(2,3) this(2)] obtain s1 xs1 T1 where 1:
    "mappages (entry_translate t) pd (virt e) (phys_end e - phys_start e) (phys_start e) (perm e) ?s
      = Inr (0, s1)"
    "pt_step t kend pd D (ptes_mapped (virt e) k (phys_start e) (pte_at (pmem s) T)) (s, xs, T) (s1, xs1, T1)"
    by (auto simp: pt_step_def)
  have 2: "pt_inv (entry_translate t) kend pd s1 xs1 T1" "pt_room D xs1 T1"
    "pte_at (pmem s1) T1 = ptes_mapped (virt e) k (phys_start e) (pte_at (pmem s) T)"
    using 1(2) by (auto simp: pt_step_def)
  have "\<forall>(e, k) \<in> set es. fits D e k" using Cons.prems(4) by simp
  from Cons.IH [OF 2(1) Cons.prems(2) 2(2) this] obtain s' xs' T' where
    run: "kmap_loop (entry_translate t) pd (map fst es) s1 = Inr (pd, s')" and
    st: "pt_step t kend pd D (ptes_of es (pte_at (pmem s1) T1)) (s1, xs1, T1) (s', xs', T')" by blast
  have "kmap_loop (entry_translate t) pd (map fst (ek # es)) s = Inr (pd, s')"
    using 1(1) run by (simp add: ek)
  moreover have "pt_step t kend pd D (ptes_of (ek # es) (pte_at (pmem s) T)) (s, xs, T) (s', xs', T')"
    using pt_step_trans [OF 1(2) st] 2(3) by (simp add: ek)
  ultimately show ?case by blast
qed

section \<open>What the tables mean\<close>

lemma translate_pte:
  assumes "pt_inv tr kend pd s xs T"
  shows "table_translate (v2p pd) (pmem s) va =
    (let e = pte_at (pmem s) T va
     in if e AND 2 = 2 then Some ((e AND NOT 0xFFF) OR (va AND 0xFFF)) else None)"
proof (cases "T (PDX va)")
  case None
  then have "pmem s (v2p pd + 4 * PDX va) = 0" using pt_inv_pde [OF assms PDX_lt] by simp
  with None show ?thesis
    by (simp add: table_translate_def mmu_walk_def pte_at_def Let_def)
next
  case (Some x)
  then have "low_page kend x" using assms by (auto intro: pt_inv_low ranI)
  note c = coarse_desc [OF low_page_facts(2) [OF this]]
  have "pmem s (v2p pd + 4 * PDX va) = v2p x OR 0x1E1"
    using pt_inv_pde [OF assms PDX_lt] Some by simp
  with Some c show ?thesis
    unfolding table_translate_def mmu_walk_def pte_at_def Let_def by simp
qed

lemma aligned_plus:
  assumes "unat (x :: u32) mod 4096 = 0" and "unat (y :: u32) mod 4096 = 0"
  shows "unat (x + y) mod 4096 = 0"
proof -
  have "unat (x + y) mod 4096 = (unat x + unat y) mod 4294967296 mod 4096"
    by (simp only: unat_add32)
  also have "\<dots> = (unat x + unat y) mod 4096" by (rule mod_mod_cancel) simp
  finally show ?thesis using assms mod_add_eq [of "unat x" 4096 "unat y"] by simp
qed

lemma aligned_minus:
  assumes "unat (x :: u32) mod 4096 = 0" and "unat (y :: u32) mod 4096 = 0"
  shows "unat (x - y) mod 4096 = 0"
proof -
  have "4096 dvd unat x" "4096 dvd unat y" "4096 dvd (4294967296 :: nat)"
    using assms by (simp_all add: dvd_eq_mod_eq_0)
  then have "4096 dvd unat (x - y)"
    unfolding unat_sub32 by (auto intro: dvd_diff_nat dvd_add)
  then show ?thesis by (simp add: dvd_eq_mod_eq_0)
qed

lemma PGROUNDDOWN_parts: "PGROUNDDOWN va + (va AND 0xFFF) = va"
proof -
  have "(va AND NOT (mask 12)) + (va AND mask 12) = (va AND NOT (mask 12)) OR (va AND mask 12)"
    by (rule disjunctive_add_eq_or) (simp add: bit_eq_iff bit_simps)
  also have "\<dots> = va" by (auto simp: bit_eq_iff bit_simps)
  finally show ?thesis unfolding PGROUNDDOWN_def pgmask mask_lits .
qed

lemma aligned_PGROUNDDOWN: "unat (PGROUNDDOWN va) mod 4096 = 0"
  by (simp add: unat_PGROUNDDOWN minus_mod_eq_mult_div)

text \<open>A mapped page translates to its frame, byte by byte.\<close>

lemma translate_mapped:
  assumes "unat a mod 4096 = 0" and "unat pa mod 4096 = 0"
  shows "(let e = pte_bits (pa + (PGROUNDDOWN va - a))
     in if e AND 2 = 2 then Some ((e AND NOT 0xFFF) OR (va AND 0xFFF)) else None) = Some (pa + (va - a))"
proof -
  have al: "unat (pa + (PGROUNDDOWN va - a)) mod 4096 = 0"
    by (intro aligned_plus aligned_minus assms aligned_PGROUNDDOWN)
  have "pa + (PGROUNDDOWN va - a) + (va AND 0xFFF) = pa + (PGROUNDDOWN va + (va AND 0xFFF) - a)"
    by (simp add: algebra_simps)
  then have "pa + (PGROUNDDOWN va - a) + (va AND 0xFFF) = pa + (va - a)"
    unfolding PGROUNDDOWN_parts .
  with small_page_desc [OF al] show ?thesis unfolding Let_def by simp
qed

end
