(* ===== verification/Kvm.thy ===== *)
theory Kvm
  imports Vm
begin

text \<open>
  The kernel address space that \<^verbatim>\<open>setupkvm\<close> and \<^verbatim>\<open>kvmalloc\<close> install: the routines succeed from a
  freshly initialised allocator, and the hardware walk of the tables they leave behind is exactly
  the intended map.
\<close>

section \<open>The layout of the kernel image\<close>

text \<open>
  What the linker script and the declarations guarantee: \<^verbatim>\<open>data\<close> and \<^verbatim>\<open>end\<close> start pages, the text is
  not empty, and the page directory lies in the zeroed data, aligned as its declaration asks.
\<close>

definition kernel_layout :: "u32 \<Rightarrow> u32 \<Rightarrow> u32 \<Rightarrow> bool" where
  "kernel_layout kdata kend pd \<longleftrightarrow>
     unat kdata mod 4096 = 0 \<and> unat kend mod 4096 = 0 \<and> unat KERNLINK < unat kdata \<and>
     unat kdata \<le> unat pd \<and> pd_ok kend pd"

text \<open>The directory slots of the kernel map: 32 megabytes of memory, the UART, the vectors with the
  interrupt controller, and the timer.\<close>

definition kdirs :: "u32 set" where
  "kdirs = set (map word_of_nat [3072..<3104] @ [0xf22, 0xfff, 0x7e0])"

lemma card_kdirs: "card kdirs \<le> 35"
  using card_length [of "map word_of_nat [3072..<3104] @ [0xf22, 0xfff, 0x7e0 :: u32]"]
  by (simp only: kdirs_def) simp

lemma finite_kdirs: "finite kdirs"
  by (simp add: kdirs_def)

lemma kdirs_kernel:
  assumes "unat KERNBASE \<le> unat va" and "unat va < unat KERNBASE + 0x2000000"
  shows "PDX va \<in> kdirs"
proof -
  have "3072 \<le> unat va div 1048576" "unat va div 1048576 < 3104"
    using assms by (simp_all add: KERNBASE_def less_mult_imp_div_less less_eq_div_iff_mult_less_eq)
  then have "unat (PDX va) \<in> {3072..<3104}" unfolding unat_PDX by simp
  moreover have "PDX va = word_of_nat (unat (PDX va))" by simp
  ultimately have "PDX va \<in> word_of_nat ` {3072..<3104}" by blast
  then show ?thesis by (simp only: kdirs_def set_append set_map set_upt) blast
qed

lemma kdirs_page:
  assumes "unat va div 1048576 = d" and "d \<in> {0xf22, 0xfff, 0x7e0}"
  shows "PDX va \<in> kdirs"
proof -
  have "PDX va = word_of_nat (unat (PDX va))" by simp
  also have "\<dots> = word_of_nat d" using assms(1) by (simp only: unat_PDX)
  also have "\<dots> \<in> kdirs" using assms(2) by (auto simp: kdirs_def)
  finally show ?thesis .
qed

lemma fits_range:
  assumes al: "unat (virt e) mod 4096 = 0" and sz: "unat (phys_end e - phys_start e) = 4096 * Suc k"
    and hi: "unat (virt e) + 4096 * Suc k < 4294967296"
    and D: "\<And>va. unat (virt e) \<le> unat va \<Longrightarrow> unat va < unat (virt e) + 4096 * Suc k \<Longrightarrow> PDX va \<in> D"
  shows "fits D e k"
proof -
  let ?sz = "phys_end e - phys_start e"
  have "unat (virt e + ?sz) = unat (virt e) + 4096 * Suc k"
    using unat_add32_small [of "virt e" ?sz] sz hi by simp
  then have n: "unat (virt e + ?sz - 1) = (unat (virt e) + 4096 * k) + 4095"
    using unat_sub32 [of "virt e + ?sz" 1] by simp
  have "(unat (virt e) + 4096 * k) mod 4096 = 0" using al by simp
  then have "((unat (virt e) + 4096 * k) + 4095) mod 4096 = 4095"
    using mod_add_left_eq [of "unat (virt e) + 4096 * k" 4096 4095] by simp
  then have "unat (PGROUNDDOWN (virt e + ?sz - 1)) = unat (virt e) + 4096 * k"
    unfolding unat_PGROUNDDOWN n by linarith
  then show ?thesis using al hi D by (simp add: fits_def Let_def)
qed

lemma fits_wrap:
  assumes al: "unat (virt e) mod 4096 = 0"
    and wr: "4294967296 < unat (virt e) + unat (phys_end e - phys_start e)"
    and D: "\<And>va. unat (virt e) \<le> unat va \<Longrightarrow> unat va < unat (virt e) + 4096 \<Longrightarrow> PDX va \<in> D"
  shows "fits D e 0"
proof -
  let ?sz = "phys_end e - phys_start e"
  have s: "unat (virt e) < 4294967296" "unat ?sz < 4294967296" by simp_all
  have "unat (virt e) + unat ?sz - 4294967296 < 4294967296" using wr s by linarith
  then have "unat (virt e + ?sz) = unat (virt e) + unat ?sz - 4294967296"
    unfolding unat_add32 using wr by (simp add: le_mod_geq)
  moreover from this have "unat (virt e + ?sz - 1) = unat (virt e + ?sz) - 1"
    using wr unat_sub32 [of "virt e + ?sz" 1] by simp
  ultimately have "unat (virt e + ?sz - 1) \<le> unat (virt e)" using s by linarith
  then have "unat (PGROUNDDOWN (virt e + ?sz - 1)) \<le> unat (virt e)"
    unfolding unat_PGROUNDDOWN by linarith
  then show ?thesis using al D s by (simp add: fits_def Let_def)
qed

section \<open>The entries of kmap\<close>

definition region :: "u32 \<Rightarrow> u32 \<Rightarrow> kmap_entry" where
  "region a b = \<lparr>virt = a, phys_start = v2p a, phys_end = v2p b, perm = PTE_W\<rparr>"

definition one_page :: "u32 \<Rightarrow> u32 \<Rightarrow> kmap_entry" where
  "one_page a p = \<lparr>virt = a, phys_start = p, phys_end = p + 0x1000, perm = PTE_W\<rparr>"

text \<open>The table as \<^verbatim>\<open>setupkvm\<close> uses it, after it has patched the entry of the vectors.\<close>

definition vec_entry :: "target \<Rightarrow> u32 \<Rightarrow> kmap_entry" where
  "vec_entry t v = \<lparr>virt = VEC_TBL, phys_start = v2p v, phys_end = UART0_BASE_P t + 0x1000, perm = PTE_W\<rparr>"

definition kernel_regions :: "target \<Rightarrow> u32 \<Rightarrow> u32 \<Rightarrow> u32 \<Rightarrow> (kmap_entry \<times> nat) list" where
  "kernel_regions t kdata kend v =
    [(region KERNBASE KERNLINK, npages KERNBASE KERNLINK - 1),
     (region KERNLINK kdata, npages KERNLINK kdata - 1),
     (region kdata kend, npages kdata kend - 1),
     (region kend (p2v PHYSTOP), npages kend (p2v PHYSTOP) - 1),
     (one_page (UART0_BASE_V t) (UART0_BASE_P t), 0),
     (vec_entry t v, 0),
     (one_page VIC_BASE VIC_BASE, 0),
     (one_page TIMER_BASE TIMER_BASE, 0)]"

lemma kmap_regions:
  "(let km = kmap t kdata kend;
        km = km[5 := (km ! 5)\<lparr>phys_start := v2p v\<rparr>]
    in km[5 := (km ! 5)\<lparr>phys_end := phys_start (km ! 4) + 0x1000\<rparr>])
   = map fst (kernel_regions t kdata kend v)"
  by (simp add: kmap_def kernel_regions_def region_def one_page_def vec_entry_def Let_def v2p_def p2v_def
      KERNLINK_def)

lemma KERN_unat: "unat KERNBASE = 3221225472" "unat KERNLINK = 3221258240" "unat (p2v PHYSTOP) = 3254779904"
  by (simp_all add: KERNBASE_def KERNLINK_def EXTMEM_def PHYSTOP_def p2v_def)

lemma fits_region:
  assumes "unat a mod 4096 = 0" "unat b mod 4096 = 0" "unat a < unat b"
    and "unat KERNBASE \<le> unat a" "unat b \<le> unat (p2v PHYSTOP)"
  shows "fits kdirs (region a b) (npages a b - 1)"
    and "unat a + 4096 * Suc (npages a b - 1) = unat b"
proof -
  have e: "unat a + 4096 * npages a b = unat b" using assms(1-3) by (intro npages_end) simp_all
  then have "npages a b \<noteq> 0" using assms(3) by (intro notI) simp
  with e show e': "unat a + 4096 * Suc (npages a b - 1) = unat b" by simp
  have "unat (v2p b - v2p a) = unat b - unat a"
    using unat_sub32 [of b a] assms(3) by (simp add: v2p_def)
  with e' have "unat (v2p b - v2p a) = 4096 * Suc (npages a b - 1)" by linarith
  then show "fits kdirs (region a b) (npages a b - 1)"
    using assms(1,4,5) e' KERN_unat
    by (intro fits_range kdirs_kernel) (simp_all add: region_def)
qed

lemma kdirs_in_page:
  assumes "unat (a :: u32) \<le> unat va" "unat va < unat a + 4096" "unat a mod 4096 = 0"
    and "unat a div 1048576 \<in> {0xf22, 0xfff, 0x7e0}"
  shows "PDX va \<in> kdirs"
proof -
  have "PGROUNDDOWN va = PGROUNDDOWN a" using assms(1,2) same_page_iff [OF assms(3)] by simp
  then have "PDX va = PDX a" by (rule entry_of_page)
  then show ?thesis using kdirs_page [OF refl assms(4)] by simp
qed

lemma fits_one_page:
  assumes "unat a mod 4096 = 0" "unat a + 4096 < 4294967296"
    and "unat a div 1048576 \<in> {0xf22, 0xfff, 0x7e0}"
  shows "fits kdirs (one_page a p) 0"
  using assms kdirs_in_page [OF _ _ assms(1,3)] by (intro fits_range) (simp_all add: one_page_def)

lemma fits_vec_entry:
  assumes "low_page kend v"
  shows "fits kdirs (vec_entry t v) 0"
proof (rule fits_wrap)
  let ?e = "vec_entry t v"
  have v: "unat VEC_TBL = 0xffff0000" "unat (virt ?e) = 0xffff0000"
    by (simp_all add: vec_entry_def VEC_TBL_def)
  then show "unat (virt ?e) mod 4096 = 0" by simp
  show "PDX va \<in> kdirs" if "unat (virt ?e) \<le> unat va" "unat va < unat (virt ?e) + 4096" for va
    using that v by (intro kdirs_in_page [of VEC_TBL]) simp_all
  have "0x101f2000 \<le> unat (UART0_BASE_P t + 0x1000)" by (cases t) simp_all
  moreover have "unat (v2p v) < 0x400000" using low_page_facts(4) [OF assms] by simp
  ultimately have "0xfdf2000 \<le> unat (UART0_BASE_P t + 0x1000 - v2p v)"
    using unat_sub32 [of "UART0_BASE_P t + 0x1000" "v2p v"] by simp
  then show "4294967296 < unat (virt ?e) + unat (phys_end ?e - phys_start ?e)"
    unfolding v by (simp add: vec_entry_def)
qed

lemma kernel_regions_fit:
  assumes lay: "kernel_layout kdata kend pd" and v: "low_page kend v"
  shows "\<forall>(e, k) \<in> set (kernel_regions t kdata kend v). fits kdirs e k"
proof -
  have b: "unat kdata mod 4096 = 0" "unat kend mod 4096 = 0" "unat KERNLINK < unat kdata"
    "unat kdata < unat kend" "unat kend \<le> unat KERNBASE + 0x400000"
    using lay by (auto simp: kernel_layout_def pd_ok_def)
  have m: "unat KERNBASE mod 4096 = 0" "unat KERNLINK mod 4096 = 0" "unat (p2v PHYSTOP) mod 4096 = 0"
    by (simp_all add: KERN_unat)
  have 1: "fits kdirs (region KERNBASE KERNLINK) (npages KERNBASE KERNLINK - 1)"
    "fits kdirs (region KERNLINK kdata) (npages KERNLINK kdata - 1)"
    "fits kdirs (region kdata kend) (npages kdata kend - 1)"
    "fits kdirs (region kend (p2v PHYSTOP)) (npages kend (p2v PHYSTOP) - 1)"
    using b m KERN_unat by (intro fits_region; linarith)+
  have 2: "fits kdirs (one_page (UART0_BASE_V t) (UART0_BASE_P t)) 0"
    "fits kdirs (one_page VIC_BASE VIC_BASE) 0" "fits kdirs (one_page TIMER_BASE TIMER_BASE) 0"
    by (cases t; intro fits_one_page; simp add: VIC_BASE_def TIMER_BASE_def)+
  from 1 2 fits_vec_entry [OF v] show ?thesis by (simp add: kernel_regions_def)
qed

section \<open>setupkvm\<close>

lemma pd_word_entry:
  assumes "a \<in> words (v2p pd) 4096"
  shows "\<exists>i. unat i < 4096 \<and> a = v2p pd + 4 * i"
proof -
  from assms obtain k where k: "k < 4096" "a = v2p pd + 4 * word_of_nat k" by (auto simp: words_def)
  moreover have "unat (word_of_nat k :: u32) = k" using k(1) by (simp add: unat_of_nat)
  ultimately show ?thesis by (intro exI [of _ "word_of_nat k"]) simp
qed

lemma memset_pd:
  assumes "pd_ok kend pd"
  shows "memset (entry_translate t) pd 0 (PGSIZE * 4) m = Inr (filled (v2p pd) 4096 0 m)"
proof -
  have "entry_translate t (pd + 4 * word_of_nat k) = Some (v2p pd + 4 * word_of_nat k)"
    if "k < 4096" for k
    using that by (intro pd_entry(3) [OF assms]) (simp add: unat_of_nat)
  then have "mapped (entry_translate t) pd (v2p pd) 4096" by (simp add: mapped_def)
  from memset_loop_mapped [OF this] show ?thesis
    by (simp add: memset_def PGSIZE_def memset_word_0)
qed

lemma pt_inv_fresh:
  assumes inv: "kmem_inv tr kend s xs" and low: "\<forall>x \<in> set xs. low_page kend x" and pd: "pd_ok kend pd"
  shows "pt_inv tr kend pd (s\<lparr>pmem := filled (v2p pd) 4096 0 (pmem s)\<rparr>) xs Map.empty"
proof -
  have "v2p y \<notin> words (v2p pd) 4096" if y: "low_page kend y" for y
  proof
    assume "v2p y \<in> words (v2p pd) 4096"
    with pd_word_entry obtain i where i: "unat i < 4096" "v2p y = v2p pd + 4 * i" by blast
    have "p2v (PGROUNDDOWN (v2p y)) = y"
      using PGROUNDDOWN_aligned [OF low_page_facts(2) [OF y]] by (simp add: p2v_def v2p_def)
    with pd_page_disjoint [OF pd y i(1)] show False unfolding i(2) [symmetric] by simp
  qed
  then have "kmem_inv tr kend (s\<lparr>pmem := filled (v2p pd) 4096 0 (pmem s)\<rparr>) xs"
    using low by (intro kmem_inv_frame [OF inv]) (simp add: filled_def)
  with low pd_words show ?thesis by (simp add: pt_inv_def filled_def)
qed

lemma setupkvm_run:
  assumes "kalloc (entry_translate t) s = Inr (v, s1)" and "pd_ok kend pd"
  shows "setupkvm t (entry_translate t) kdata kend pd s =
    kmap_loop (entry_translate t) pd (map fst (kernel_regions t kdata kend v))
      (s1\<lparr>pmem := filled (v2p pd) 4096 0 (pmem s1)\<rparr>)"
proof -
  have "\<not> p2v PHYSTOP > DEVSPACE" by (simp add: p2v_def PHYSTOP_def DEVSPACE_def KERNBASE_def)
  then show ?thesis
    using assms(1) memset_pd [OF assms(2), of t "pmem s1"] kmap_regions [of t kdata kend v]
    by (simp add: setupkvm_def Let_def)
qed

lemma setupkvm_ok:
  assumes lay: "kernel_layout kdata kend pd" and inv: "kmem_inv (entry_translate t) kend s (v # xs)"
    and low: "\<forall>x \<in> set (v # xs). low_page kend x" and len: "35 \<le> length xs"
  shows "\<exists>s' ys T. setupkvm t (entry_translate t) kdata kend pd s = Inr (pd, s')
    \<and> pt_inv (entry_translate t) kend pd s' ys T \<and> set ys \<subseteq> set xs \<and> set ys \<union> ran T = set xs
    \<and> vm_frame pd (set xs) (pmem s) (pmem s')
    \<and> (\<forall>va. pte_at (pmem s') T va = ptes_of (kernel_regions t kdata kend v) (\<lambda>_. 0) va)"
proof -
  have pd: "pd_ok kend pd" using lay by (simp add: kernel_layout_def)
  from kalloc_pops [OF inv] obtain s1 where s1: "kalloc (entry_translate t) s = Inr (v, s1)"
    "kmem_inv (entry_translate t) kend s1 xs" "pmem s1 = pmem s" by blast
  let ?m = "filled (v2p pd) 4096 0 (pmem s1)"
  have p: "pt_inv (entry_translate t) kend pd (s1\<lparr>pmem := ?m\<rparr>) xs Map.empty"
    using low by (intro pt_inv_fresh s1(2) pd) simp
  have "pt_room kdirs xs Map.empty"
    using len card_kdirs finite_kdirs by (simp add: pt_room_def)
  from kmap_loop_ok [OF p pd this kernel_regions_fit [OF lay, of v t]] low
  obtain s' ys T where r:
    "kmap_loop (entry_translate t) pd (map fst (kernel_regions t kdata kend v)) (s1\<lparr>pmem := ?m\<rparr>) = Inr (pd, s')"
    "pt_step t kend pd kdirs (ptes_of (kernel_regions t kdata kend v) (pte_at ?m Map.empty))
      (s1\<lparr>pmem := ?m\<rparr>, xs, Map.empty) (s', ys, T)" by auto
  have z: "pte_at ?m Map.empty = (\<lambda>_. 0)" by (simp add: pte_at_def fun_eq_iff)
  have run: "setupkvm t (entry_translate t) kdata kend pd s = Inr (pd, s')"
    using setupkvm_run [OF s1(1) pd] r(1) by simp
  have "vm_frame pd (set xs) (pmem s) (pmem s')"
    using r(2) s1(3) by (auto simp: pt_step_def vm_frame_def filled_def)
  with run r(2) show ?thesis by (auto simp: pt_step_def z)
qed

section \<open>The address space\<close>

text \<open>The intended kernel address space; \<open>v\<close> is the page allocated for the exception vectors.\<close>

definition kernel_map :: "target \<Rightarrow> u32 \<Rightarrow> u32 \<Rightarrow> u32 option" where
  "kernel_map t v va =
     (if KERNBASE \<le> va \<and> va < p2v PHYSTOP then Some (v2p va)
      else if PGROUNDDOWN va = UART0_BASE_V t then Some (UART0_BASE_P t + (va - UART0_BASE_V t))
      else if PGROUNDDOWN va = VEC_TBL then Some (v2p v + (va - VEC_TBL))
      else if PGROUNDDOWN va = VIC_BASE \<or> PGROUNDDOWN va = TIMER_BASE then Some va
      else None)"

definition pte_xlate :: "u32 \<Rightarrow> u32 \<Rightarrow> u32 option" where
  "pte_xlate va e = (if e AND 2 = 2 then Some ((e AND NOT 0xFFF) OR (va AND 0xFFF)) else None)"

lemma xlate_mapped:
  assumes "unat a mod 4096 = 0" and "unat pa mod 4096 = 0"
  shows "pte_xlate va (ptes_mapped a k pa f va) =
    (if unat a \<le> unat va \<and> unat va < unat a + 4096 * Suc k then Some (pa + (va - a))
     else pte_xlate va (f va))"
  using translate_mapped [OF assms, of va] by (auto simp: ptes_mapped_def pte_xlate_def Let_def)

lemma xlate_region:
  assumes "unat a mod 4096 = 0" "unat b mod 4096 = 0" "unat a < unat b"
    and "unat KERNBASE \<le> unat a" "unat b \<le> unat (p2v PHYSTOP)"
  shows "pte_xlate va (ptes_mapped (virt (region a b)) (npages a b - 1) (phys_start (region a b)) f va) =
    (if unat a \<le> unat va \<and> unat va < unat b then Some (v2p va) else pte_xlate va (f va))"
proof -
  have "unat (v2p a) mod 4096 = 0" unfolding v2p_def
    by (intro aligned_minus assms(1)) (simp add: KERNBASE_def)
  from xlate_mapped [OF assms(1) this, of va "npages a b - 1" f] show ?thesis
    unfolding fits_region(2) [OF assms] by (simp add: region_def v2p_def)
qed

lemma xlate_page:
  assumes "unat a mod 4096 = 0" and "unat pa mod 4096 = 0"
  shows "pte_xlate va (ptes_mapped a 0 pa f va) =
    (if PGROUNDDOWN va = a then Some (pa + (va - a)) else pte_xlate va (f va))"
  unfolding PGROUNDDOWN_eq_iff [OF assms(1)] xlate_mapped [OF assms] by simp

lemma not_kernel_page:
  assumes "unat a mod 4096 = 0" "unat a + 4096 \<le> unat KERNBASE \<or> unat (p2v PHYSTOP) \<le> unat a"
    and "unat KERNBASE \<le> unat va" "unat va < unat (p2v PHYSTOP)"
  shows "PGROUNDDOWN va \<noteq> a"
proof
  assume "PGROUNDDOWN va = a"
  then have "unat a \<le> unat va" "unat va < unat a + 4096"
    using PGROUNDDOWN_eq_iff [OF assms(1)] by auto
  with assms show False by linarith
qed

lemma kernel_regions_xlate:
  assumes lay: "kernel_layout kdata kend pd" and v: "low_page kend v"
  shows "pte_xlate va (ptes_of (kernel_regions t kdata kend v) (\<lambda>_. 0) va) = kernel_map t v va"
proof -
  have b: "unat kdata mod 4096 = 0" "unat kend mod 4096 = 0" "unat KERNLINK < unat kdata"
    "unat kdata < unat kend" "unat kend \<le> unat KERNBASE + 0x400000"
    using lay by (auto simp: kernel_layout_def pd_ok_def)
  have m: "unat KERNBASE mod 4096 = 0" "unat KERNLINK mod 4096 = 0" "unat (p2v PHYSTOP) mod 4096 = 0"
    by (simp_all add: KERN_unat)
  have al: "unat (UART0_BASE_V t) mod 4096 = 0" "unat (UART0_BASE_P t) mod 4096 = 0"
    "unat VEC_TBL mod 4096 = 0" "unat VIC_BASE mod 4096 = 0" "unat TIMER_BASE mod 4096 = 0"
    by (cases t; simp add: VEC_TBL_def VIC_BASE_def TIMER_BASE_def)+
  note al = al low_page_facts(2) [OF v]
  have r: "pte_xlate va (ptes_mapped (virt (region kend (p2v PHYSTOP))) (npages kend (p2v PHYSTOP) - 1)
        (phys_start (region kend (p2v PHYSTOP)))
      (ptes_mapped (virt (region kdata kend)) (npages kdata kend - 1) (phys_start (region kdata kend))
      (ptes_mapped (virt (region KERNLINK kdata)) (npages KERNLINK kdata - 1) (phys_start (region KERNLINK kdata))
      (ptes_mapped (virt (region KERNBASE KERNLINK)) (npages KERNBASE KERNLINK - 1)
        (phys_start (region KERNBASE KERNLINK)) (\<lambda>_. 0)))) va)
    = (if unat KERNBASE \<le> unat va \<and> unat va < unat (p2v PHYSTOP) then Some (v2p va) else None)"
  proof -
    note x = xlate_region [of KERNBASE KERNLINK, OF m(1,2)] xlate_region [of KERNLINK kdata, OF m(2) b(1)]
      xlate_region [of kdata kend, OF b(1,2)] xlate_region [of kend "p2v PHYSTOP", OF b(2) m(3)]
    have le: "unat KERNBASE \<le> unat KERNLINK" "unat KERNBASE < unat KERNLINK" "unat KERNBASE \<le> unat kdata" "unat KERNBASE \<le> unat kend"
      "unat kend < unat (p2v PHYSTOP)" "unat kend \<le> unat (p2v PHYSTOP)" "unat kdata \<le> unat (p2v PHYSTOP)" "unat KERNLINK \<le> unat (p2v PHYSTOP)"
      using b KERN_unat by linarith+
    show ?thesis
      unfolding x(4) [OF le(5,4) order_refl] x(3) [OF b(4) le(3,6)] x(2) [OF b(3) le(1,7)]
        x(1) [OF le(2) order_refl le(8)]
      using b(3,4) le by (auto simp: pte_xlate_def)
  qed
  have dis: "PGROUNDDOWN va \<noteq> UART0_BASE_V t" "PGROUNDDOWN va \<noteq> VEC_TBL"
      "PGROUNDDOWN va \<noteq> VIC_BASE" "PGROUNDDOWN va \<noteq> TIMER_BASE"
    if "unat KERNBASE \<le> unat va" "unat va < unat (p2v PHYSTOP)"
    using that
    by (intro not_kernel_page al(1,3,4,5);
        cases t; simp add: KERN_unat VEC_TBL_def VIC_BASE_def TIMER_BASE_def)+
  have ne: "UART0_BASE_V t \<noteq> VEC_TBL" "UART0_BASE_V t \<noteq> VIC_BASE" "UART0_BASE_V t \<noteq> TIMER_BASE"
    "VEC_TBL \<noteq> VIC_BASE" "VEC_TBL \<noteq> TIMER_BASE" "VIC_BASE \<noteq> TIMER_BASE"
    by (cases t; simp add: VEC_TBL_def VIC_BASE_def TIMER_BASE_def)+
  have f: "virt (one_page a p) = a" "phys_start (one_page a p) = p" for a p
    by (simp_all add: one_page_def)
  have g: "virt (vec_entry t v) = VEC_TBL" "phys_start (vec_entry t v) = v2p v"
    by (simp_all add: vec_entry_def)
  have k: "KERNBASE \<le> va \<and> va < p2v PHYSTOP \<longleftrightarrow> unat KERNBASE \<le> unat va \<and> unat va < unat (p2v PHYSTOP)"
    by (simp add: word_le_nat_alt word_less_nat_alt)
  show ?thesis
    unfolding kernel_regions_def ptes_of.simps f g kernel_map_def k
      xlate_page [OF al(5) al(5)] xlate_page [OF al(4) al(4)] xlate_page [OF al(3) al(6)]
      xlate_page [OF al(1) al(2)] r
    using dis ne by auto
qed

text \<open>The translation depends only on the directory and the table pages.\<close>

lemma translate_stable:
  assumes inv: "pt_inv tr kend pd s xs T"
    and same: "\<And>a. a \<in> words (v2p pd) 4096 \<or> p2v (PGROUNDDOWN a) \<in> ran T \<Longrightarrow> m a = pmem s a"
  shows "table_translate (v2p pd) m = table_translate (v2p pd) (pmem s)"
proof
  fix va
  have pde: "m (v2p pd + 4 * PDX va) = pmem s (v2p pd + 4 * PDX va)"
    using same pd_words [OF PDX_lt] by simp
  note d = pt_inv_pde [OF inv PDX_lt, of va]
  show "table_translate (v2p pd) m va = table_translate (v2p pd) (pmem s) va"
  proof (cases "T (PDX va)")
    case None
    with d pde show ?thesis by (simp add: table_translate_def mmu_walk_def Let_def)
  next
    case (Some x)
    then have x: "low_page kend x" "x \<in> ran T" using inv by (auto intro: pt_inv_low ranI)
    have "m (v2p x + 4 * PTX va) = pmem s (v2p x + 4 * PTX va)"
      using p2v_entry [OF x(1), of va] x(2) by (intro same) simp
    then show ?thesis
      using d pde Some coarse_desc [OF low_page_facts(2) [OF x(1)]]
      unfolding table_translate_def mmu_walk_def Let_def by simp
  qed
qed

lemma setupkvm_translates:
  assumes lay: "kernel_layout kdata kend pd" and inv: "kmem_inv (entry_translate t) kend s xs"
    and low: "\<forall>x \<in> set xs. low_page kend x" and len: "36 \<le> length xs"
  shows "\<exists>s' ys T. setupkvm t (entry_translate t) kdata kend pd s = Inr (pd, s')
    \<and> pt_inv (entry_translate t) kend pd s' ys T
    \<and> table_translate (v2p pd) (pmem s') = kernel_map t (hd xs)
    \<and> set ys \<subseteq> set (tl xs) \<and> set ys \<union> ran T = set (tl xs)
    \<and> vm_frame pd (set (tl xs)) (pmem s) (pmem s')"
proof -
  obtain v zs where xs: "xs = v # zs" using len by (cases xs) auto
  have "35 \<le> length zs" using len xs by simp
  from setupkvm_ok [OF lay inv [unfolded xs] low [unfolded xs] this] obtain s' ys T where r:
    "setupkvm t (entry_translate t) kdata kend pd s = Inr (pd, s')"
    "pt_inv (entry_translate t) kend pd s' ys T" "set ys \<subseteq> set zs" "set ys \<union> ran T = set zs"
    "vm_frame pd (set zs) (pmem s) (pmem s')"
    "\<forall>va. pte_at (pmem s') T va = ptes_of (kernel_regions t kdata kend v) (\<lambda>_. 0) va" by blast
  have "low_page kend v" using low xs by simp
  then have "table_translate (v2p pd) (pmem s') va = kernel_map t v va" for va
    using translate_pte [OF r(2), of va] r(6) kernel_regions_xlate [OF lay, of v va t]
    by (simp add: pte_xlate_def Let_def)
  with r xs show ?thesis
    by (intro exI [of _ s'] exI [of _ ys] exI [of _ T]) (simp add: fun_eq_iff)
qed


lemma boot_pages_low:
  assumes "unat kend mod 4096 = 0" and "unat KERNBASE \<le> unat kend" and "unat kend \<le> unat (p2v 0x400000)"
    and "x \<in> set (pages kend (npages kend (p2v 0x400000)))"
  shows "low_page kend x"
proof -
  have top: "unat (p2v 0x400000) = unat KERNBASE + 0x400000" "unat (p2v 0x400000) mod 4096 = 0"
    by (simp_all add: p2v_def KERNBASE_def)
  note e = npages_end [OF assms(1) top(2) assms(3)]
  have "unat kend + 4096 * npages kend (p2v 0x400000) \<le> 4294967296"
    using e top KERN_unat by simp
  note i = in_pages [OF this assms(1,4)]
  have "kpage kend x" using i e top assms(2) by (intro kpage_range) linarith+
  then show ?thesis using i e top by (simp add: low_page_def)
qed

text \<open>The allocator as the boot code leaves it on one layout.\<close>

lemma boot_allocator:
  obtains s xs where "kinit1 (entry_translate QEMU) 0xC0020000 0xC0020000 (p2v 0x400000) (bss_state (\<lambda>_. 0)) = Inr s"
    "kmem_inv (entry_translate QEMU) 0xC0020000 s xs" "kernel_layout 0xC0010000 0xC0020000 0xC0014000"
    "\<forall>x \<in> set xs. low_page 0xC0020000 x" "length xs = 992"
proof -
  let ?xs = "rev (pages 0xC0020000 (npages 0xC0020000 (p2v 0x400000)))"
  obtain s where "kinit1 (entry_translate QEMU) 0xC0020000 0xC0020000 (p2v 0x400000) (bss_state (\<lambda>_. 0)) = Inr s"
    "kmem_inv (entry_translate QEMU) 0xC0020000 s ?xs"
    using kinit1_pages [of "0xC0020000" "bss_state (\<lambda>_. 0)" "0xD3" 0 QEMU]
    by (auto simp: KERNBASE_def p2v_def cli_at_def bss_state_def)
  moreover have "kernel_layout 0xC0010000 0xC0020000 0xC0014000"
    by (simp add: kernel_layout_def pd_ok_def KERNBASE_def KERNLINK_def EXTMEM_def)
  moreover have "\<forall>x \<in> set ?xs. low_page 0xC0020000 x"
    using boot_pages_low [of "0xC0020000"] by (simp add: KERNBASE_def p2v_def)
  moreover have "length ?xs = 992" by (simp add: npages_def p2v_def KERNBASE_def)
  ultimately show thesis by (rule that)
qed


section \<open>kvmalloc\<close>

lemma kmem_inv_switch:
  assumes "kmem_inv tr kend s xs" and "\<forall>x \<in> set xs. direct tr' x"
  shows "kmem_inv tr' kend s xs"
proof -
  have "flist tr' m p ys"
    if "flist tr m p ys" "\<forall>x \<in> set ys. direct tr x" "\<forall>x \<in> set ys. direct tr' x" for m p ys
    using that by (induction ys arbitrary: p) (auto simp: direct_base)
  with assms show ?thesis by (auto simp: kmem_inv_def)
qed

lemma direct_kernel_map:
  assumes "unat x mod 4096 = 0" and "unat KERNBASE \<le> unat x" and "unat x + 4096 \<le> unat (p2v PHYSTOP)"
  shows "direct (kernel_map t v) x"
  unfolding direct_def mapped_def
proof (intro allI impI)
  fix k :: nat assume k: "k < 1024"
  then have "unat (x + 4 * word_of_nat k) = unat x + 4 * k" by (intro unat_word_offset assms(1))
  with assms k have "KERNBASE \<le> x + 4 * word_of_nat k" "x + 4 * word_of_nat k < p2v PHYSTOP"
    by (simp_all add: word_le_nat_alt word_less_nat_alt)
  then show "kernel_map t v (x + 4 * word_of_nat k) = Some (v2p x + 4 * word_of_nat k)"
    by (simp add: kernel_map_def v2p_def algebra_simps)
qed

lemma direct_kpage:
  assumes "kpage kend x"
  shows "direct (kernel_map t v) x"
proof -
  have k: "v2p x < PHYSTOP" using assms by (simp add: kpage_def)
  note a = kpage_aligned [OF assms]
  have "unat (v2p x) + 4096 \<le> 33554432"
  proof -
    have "unat (v2p x) div 4096 < 8192" using a(4) by (simp add: less_mult_imp_div_less)
    then have "(unat (v2p x) div 4096 + 1) * 4096 \<le> 8192 * 4096" by (intro mult_le_mono1) simp
    moreover have "unat (v2p x) div 4096 * 4096 = unat (v2p x)" using a(2) by auto
    ultimately show ?thesis by simp
  qed
  with unat_v2p_small [OF k] show ?thesis
    using KERN_unat a(1) by (intro direct_kernel_map) linarith+
qed

lemma kvmalloc_ok:
  assumes "kernel_layout kdata kend pd" and "kmem_inv (entry_translate t) kend s xs"
    and "\<forall>x \<in> set xs. low_page kend x" and "36 \<le> length xs"
  shows "\<exists>s' ys T. kvmalloc t (entry_translate t) kdata kend pd s = Inr (pd, v2p pd, s')
    \<and> pt_inv (entry_translate t) kend pd s' ys T
    \<and> table_translate (v2p pd) (pmem s') = kernel_map t (hd xs)
    \<and> kmem_inv (kernel_map t (hd xs)) kend s' ys \<and> set ys \<subseteq> set (tl xs) \<and> set ys \<union> ran T = set (tl xs)
    \<and> vm_frame pd (set (tl xs)) (pmem s) (pmem s')"
proof -
  from setupkvm_translates [OF assms] obtain s1 ys T where r:
    "setupkvm t (entry_translate t) kdata kend pd s = Inr (pd, s1)"
    "pt_inv (entry_translate t) kend pd s1 ys T"
    "table_translate (v2p pd) (pmem s1) = kernel_map t (hd xs)"
    "set ys \<subseteq> set (tl xs)" "set ys \<union> ran T = set (tl xs)"
    "vm_frame pd (set (tl xs)) (pmem s) (pmem s1)" by blast
  have "unat KERNBASE \<le> unat pd" using assms(1) by (auto simp: kernel_layout_def pd_ok_def)
  then have "pd \<noteq> 0" using KERN_unat by auto
  let ?s = "puts (''switchkvm done'' @ NL) s1"
  have "kvmalloc t (entry_translate t) kdata kend pd s = Inr (pd, v2p pd, ?s)"
    using r(1) \<open>pd \<noteq> 0\<close> by (simp add: kvmalloc_def switchkvm_def)
  moreover have i: "pt_inv (entry_translate t) kend pd ?s ys T" using r(2) by simp
  moreover have "kmem_inv (kernel_map t (hd xs)) kend ?s ys"
  proof (rule kmem_inv_switch)
    show "kmem_inv (entry_translate t) kend ?s ys" using i by (simp add: pt_inv_def)
    show "\<forall>x \<in> set ys. direct (kernel_map t (hd xs)) x"
    proof
      fix x assume "x \<in> set ys"
      then have "low_page kend x" using pt_inv_low [OF i] by simp
      then show "direct (kernel_map t (hd xs)) x" unfolding low_page_def by (elim conjE direct_kpage)
    qed
  qed
  moreover have "pmem ?s = pmem s1" by simp
  ultimately show ?thesis using r(3-6) by metis
qed



lemma mappages_no_table:
  assumes "walkpgdir tr pd (PGROUNDDOWN va) True s = Inr (0, s')"
  shows "mappages tr pd va sz pa prm s = Inr (- 1, s')"
proof -
  have "MAP_FUEL \<noteq> 0" by (simp add: MAP_FUEL_def)
  then obtain n where "MAP_FUEL = Suc n" using not0_implies_Suc by blast
  then have "mappages tr pd va sz pa prm s =
      mappages_loop (Suc n) tr pd (PGROUNDDOWN va) (PGROUNDDOWN (va + sz - 1)) pa s"
    by (simp only: mappages_def)
  with assms show ?thesis by simp
qed

text \<open>
  With no free page at all \<^verbatim>\<open>kvmalloc\<close> does not run on with a broken map: the failure of the
  first \<^verbatim>\<open>kalloc\<close> for a table reaches it as a null directory and it stops in its endless loop.
\<close>

lemma kvmalloc_no_memory:
  assumes pd: "pd_ok kend pd" and inv: "kmem_inv (entry_translate t) kend s []"
  shows "kvmalloc t (entry_translate t) kdata kend pd s = Inl Hang"
proof -
  from kalloc_empty [OF inv] obtain s1 where s1: "kalloc (entry_translate t) s = Inr (0, s1)"
    "kmem_inv (entry_translate t) kend s1 []" by blast
  let ?s2 = "s1\<lparr>pmem := filled (v2p pd) 4096 0 (pmem s1)\<rparr>"
  let ?s3 = "puts (''set new page directory entry!'' @ NL) (puts (''mappages'' @ NL) ?s2)"
  have p: "pt_inv (entry_translate t) kend pd ?s2 [] Map.empty"
    using pt_inv_fresh [OF s1(2) _ pd] by simp
  then have "kmem_inv (entry_translate t) kend ?s3 []"
    by (simp add: pt_inv_def kmem_inv_def puts_def)
  from kalloc_empty [OF this] obtain s4 where s4: "kalloc (entry_translate t) ?s3 = Inr (0, s4)" by blast
  have z: "pmem ?s2 (v2p pd + 4 * PDX KERNBASE) = 0" using pt_inv_pde [OF p PDX_lt] by simp
  have "walkpgdir (entry_translate t) pd (PGROUNDDOWN KERNBASE) True (puts (''mappages'' @ NL) ?s2) = Inr (0, s4)"
    using pd_entry(3) [OF pd PDX_lt, of t KERNBASE] z s4
    by (simp add: walkpgdir_def load_def Let_def PGROUNDDOWN_aligned KERN_unat)
  then have mp: "mappages (entry_translate t) pd KERNBASE sz pa prm (puts (''mappages'' @ NL) ?s2)
      = Inr (- 1, s4)" for sz pa prm
    by (rule mappages_no_table)
  obtain ks where ks: "map fst (kernel_regions t kdata kend 0) = region KERNBASE KERNLINK # ks"
    by (simp add: kernel_regions_def)
  have "setupkvm t (entry_translate t) kdata kend pd s
      = Inr (0, puts (''mappages return number < 0'' @ NL) s4)"
    unfolding setupkvm_run [OF s1(1) pd] ks kmap_loop.simps
    by (simp only: region_def kmap_entry.simps mp) simp
  then show ?thesis by (simp add: kvmalloc_def)
qed

end
