(* ===== verification/Irq.thy ===== *)
theory Irq
  imports Kvm Uart
begin

text \<open>
  Exceptions and interrupts: the handlers and the vector table of \<^verbatim>\<open>trap.c\<close>, the interrupt
  controller of \<^verbatim>\<open>picirq.c\<close> and the timer set-up of \<^verbatim>\<open>timer.c\<close>. Device registers are written through
  the translation in force, so an unmapped device page is an abort.
\<close>

section \<open>State\<close>

text \<open>The interrupt service routines the kernel registers; any other is known by its address.\<close>

datatype isr = Isr_null | Default_isr | Isr_timer | Isr_at u32

record isys =
  ks :: kstate
  sctlr :: u32
  vic_base :: u32
  isrs :: "isr list"
  devs :: dev
  timerlock :: spinlock

definition sys_puts :: "string \<Rightarrow> isys \<Rightarrow> isys" where
  "sys_puts str s = s\<lparr>ks := puts str (ks s)\<rparr>"

definition dev_store :: "trans \<Rightarrow> u32 \<Rightarrow> u32 \<Rightarrow> isys \<Rightarrow> isys res" where
  "dev_store tr va d s =
     (case tr va of None \<Rightarrow> Inl (Abort va) | Some pa \<Rightarrow> Inr (s\<lparr>devs := mmio_write pa d (devs s)\<rparr>))"

definition dev_load :: "trans \<Rightarrow> u32 \<Rightarrow> isys \<Rightarrow> (u32 \<times> isys) res" where
  "dev_load tr va s =
     (case tr va of None \<Rightarrow> Inl (Abort va)
      | Some pa \<Rightarrow> (case mmio_read pa (devs s) of (d, ds) \<Rightarrow> Inr (d, s\<lparr>devs := ds\<rparr>)))"

section \<open>trap.c\<close>

definition swi_handler :: "isys \<Rightarrow> isys" where
  "swi_handler s = sys_puts (''Exception: Software Interrupt'' @ NL) s"

definition irq_handler :: "isys \<Rightarrow> isys" where
  "irq_handler s = sys_puts (''Exception: IRQ'' @ NL) s"

definition reset_handler :: "isys \<Rightarrow> isys" where
  "reset_handler s = sys_puts (''Exception: Reset'' @ NL) s"

definition und_handler :: "isys \<Rightarrow> isys" where
  "und_handler s = sys_puts (''Exception: Undefined Instruction'' @ NL) s"

definition dabort_handler :: "isys \<Rightarrow> isys" where
  "dabort_handler s = sys_puts (''Exception: Data Abort'' @ NL) s"

definition pabort_handler :: "isys \<Rightarrow> isys" where
  "pabort_handler s = sys_puts (''Prefetch Abort!!'' @ NL) s"

definition reserved_handler :: "isys \<Rightarrow> isys" where
  "reserved_handler s = sys_puts (''Exception: Reserved'' @ NL) s"

definition fiq_handler :: "isys \<Rightarrow> isys" where
  "fiq_handler s = sys_puts ''Exception: FIQ'' s"

definition LDR_PCPC :: u32 where "LDR_PCPC = 0xe59ff00"

text \<open>\<open>labels\<close> are the addresses of the entry points in \<^verbatim>\<open>trap_asm.S\<close>, in the order of the table.\<close>

definition vec_words :: "u32 list \<Rightarrow> u32 list" where
  "vec_words labels = replicate 8 (LDR_PCPC OR 0x18) @ labels"

fun store_words :: "trans \<Rightarrow> u32 \<Rightarrow> u32 list \<Rightarrow> mem \<Rightarrow> mem res" where
  "store_words tr a [] m = Inr m"
| "store_words tr a (w # ws) m = bindR (store tr a w m) (\<lambda>m1. store_words tr (a + 4) ws m1)"

definition trap_init :: "trans \<Rightarrow> u32 list \<Rightarrow> isys \<Rightarrow> isys res" where
  "trap_init tr labels s =
     (let s1 = s\<lparr>sctlr := sctlr s OR 0x2000\<rparr>
      in bindR (store_words tr VEC_TBL (vec_words labels) (pmem (ks s1))) (\<lambda>m.
         Inr (sys_puts (''create the exception table done.'' @ NL) (s1\<lparr>ks := (ks s1)\<lparr>pmem := m\<rparr>\<rparr>))))"

section \<open>picirq.c\<close>

definition NUM_INTSRC :: int where "NUM_INTSRC = 32"
definition NUM_ISR :: nat where "NUM_ISR = 32"
definition VIC_IRQSTATUS :: u32 where "VIC_IRQSTATUS = 0"
definition VIC_INTENABLE :: u32 where "VIC_INTENABLE = 4"
definition VIC_INTENCLEAR :: u32 where "VIC_INTENCLEAR = 5"

definition default_isr :: "int \<Rightarrow> isys \<Rightarrow> isys" where
  "default_isr n s = sys_puts ''unhandled interrupt'' s"

definition pic_init :: "trans \<Rightarrow> isys \<Rightarrow> isys res" where
  "pic_init tr s =
     (let s1 = s\<lparr>sctlr := sctlr s OR 0x1000000, vic_base := VIC_BASE\<rparr>
      in bindR (dev_store tr (vic_base s1 + 4 * VIC_INTENCLEAR) 0xffffffff s1) (\<lambda>s2.
         Inr (s2\<lparr>isrs := replicate NUM_ISR Default_isr\<rparr>)))"

definition pic_enable :: "trans \<Rightarrow> int \<Rightarrow> isr \<Rightarrow> isys \<Rightarrow> isys res" where
  "pic_enable tr n h s =
     (if n < 0 \<or> n \<ge> NUM_INTSRC then Inl (Panic ''invalid interrupt source'')
      else dev_store tr (vic_base s + 4 * VIC_INTENABLE) (push_bit (nat n) 1)
             (s\<lparr>isrs := (isrs s)[nat n := h]\<rparr>))"

definition pic_disable :: "trans \<Rightarrow> int \<Rightarrow> isys \<Rightarrow> isys res" where
  "pic_disable tr n s =
     (if n < 0 \<or> n \<ge> NUM_INTSRC then Inl (Panic ''invalid interrupt source'')
      else bindR (dev_store tr (vic_base s + 4 * VIC_INTENCLEAR) (push_bit (nat n) 1) s) (\<lambda>s1.
           Inr (s1\<lparr>isrs := (isrs s1)[nat n := Default_isr]\<rparr>)))"

text \<open>\<^verbatim>\<open>isr_timer\<close> of \<^verbatim>\<open>timer.c\<close>: its body is commented out.\<close>

definition isr_timer :: "int \<Rightarrow> isys \<Rightarrow> isys" where
  "isr_timer irq_idx s = s"

text \<open>Calling through the table; \<open>ext\<close> is what a routine elsewhere does, a null pointer aborts.\<close>

fun call_isr :: "(u32 \<Rightarrow> int \<Rightarrow> isys \<Rightarrow> isys) \<Rightarrow> isr \<Rightarrow> int \<Rightarrow> isys \<Rightarrow> isys res" where
  "call_isr ext Isr_null n s = Inl (Abort 0)"
| "call_isr ext Default_isr n s = Inr (default_isr n s)"
| "call_isr ext Isr_timer n s = Inr (isr_timer n s)"
| "call_isr ext (Isr_at a) n s = Inr (ext a n s)"

fun dispatch_loop :: "(u32 \<Rightarrow> int \<Rightarrow> isys \<Rightarrow> isys) \<Rightarrow> u32 \<Rightarrow> nat list \<Rightarrow> isys \<Rightarrow> isys res" where
  "dispatch_loop ext status [] s = Inr s"
| "dispatch_loop ext status (i # is) s =
     bindR (if status AND push_bit i 1 \<noteq> 0 then call_isr ext (isrs s ! i) (int i) s else Inr s)
       (dispatch_loop ext status is)"

definition pic_dispatch :: "trans \<Rightarrow> (u32 \<Rightarrow> int \<Rightarrow> isys \<Rightarrow> isys) \<Rightarrow> isys \<Rightarrow> isys res" where
  "pic_dispatch tr ext s =
     bindR (dev_load tr (vic_base s + 4 * VIC_IRQSTATUS) s) (\<lambda>r. case r of (intstatus, s1) \<Rightarrow>
     bindR (dispatch_loop ext intstatus [0..<nat NUM_INTSRC] s1) (\<lambda>s2.
     bindR (dev_load tr (vic_base s2 + 4 * VIC_IRQSTATUS) s2) (\<lambda>r. Inr (snd r))))"

section \<open>timer.c\<close>

definition TIMER_LOAD :: u32 where "TIMER_LOAD = 0"
definition TIMER_CONTROL :: u32 where "TIMER_CONTROL = 2"
definition TIMER_32BIT :: u32 where "TIMER_32BIT = 2"
definition TIMER_INTEN :: u32 where "TIMER_INTEN = 0x20"
definition TIMER_PERIODIC :: u32 where "TIMER_PERIODIC = 0x40"
definition TIMER_EN :: u32 where "TIMER_EN = 0x80"
definition CLK_HZ :: u32 where "CLK_HZ = 1000000"
definition PIC_TIMER01 :: int where "PIC_TIMER01 = 4"

definition timer_init :: "trans \<Rightarrow> isys \<Rightarrow> isys res" where
  "timer_init tr s =
     (let s1 = s\<lparr>timerlock := init_lock (timerlock s) ''time''\<rparr>
      in bindR (dev_store tr (TIMER_BASE + 4 * 0) 1 s1) (\<lambda>s2.
         bindR (dev_store tr (TIMER_BASE + 4 * TIMER_LOAD) CLK_HZ s2) (\<lambda>s3.
         bindR (dev_store tr (TIMER_BASE + 4 * TIMER_CONTROL)
                  (TIMER_EN OR TIMER_PERIODIC OR TIMER_32BIT OR TIMER_INTEN) s3) (\<lambda>s4.
         pic_enable tr PIC_TIMER01 Isr_timer s4))))"

section \<open>The vector table\<close>

lemma words_start:
  assumes "n < 1024"
  shows "p \<notin> words (p + 4) n"
proof
  assume "p \<in> words (p + 4) n"
  then obtain k where k: "k < n" "p = p + 4 + 4 * word_of_nat k" by (auto simp: words_def)
  then have "0 = 4 + 4 * (word_of_nat k :: u32)" by (metis add.assoc add_cancel_left_right)
  then have "unat (4 + 4 * word_of_nat k :: u32) = 0" by simp
  moreover have "unat (4 + 4 * word_of_nat k :: u32) = 4 + 4 * k"
    using k(1) assms by (simp add: unat_word_ariths unat_of_nat)
  ultimately show False by simp
qed

lemma store_words_mapped:
  assumes "mapped tr a p (length ws)" and "length ws < 1024"
  shows "\<exists>m'. store_words tr a ws m = Inr m'
    \<and> (\<forall>k < length ws. m' (p + 4 * word_of_nat k) = ws ! k)
    \<and> (\<forall>x. x \<notin> words p (length ws) \<longrightarrow> m' x = m x)"
  using assms
proof (induction ws arbitrary: a p m)
  case Nil
  then show ?case by simp
next
  case (Cons w ws)
  then have "tr a = Some p" "mapped tr (a + 4) (p + 4) (length ws)" by (simp_all add: mapped_Suc)
  with Cons.IH [OF this(2)] Cons.prems(2) obtain m' where m':
    "store_words tr a (w # ws) m = Inr m'"
    "\<forall>k < length ws. m' (p + 4 + 4 * word_of_nat k) = ws ! k"
    "\<forall>x. x \<notin> words (p + 4) (length ws) \<longrightarrow> m' x = (m(p := w)) x"
    by (fastforce simp: store_def)
  have p: "p \<notin> words (p + 4) (length ws)" using Cons.prems(2) by (intro words_start) simp
  have "m' (p + 4 * word_of_nat k) = (w # ws) ! k" if "k < length (w # ws)" for k
    using that m'(2,3) p by (cases k) (auto simp: algebra_simps)
  then show ?case using m'(1,3) by (auto simp: words_Suc)
qed

lemma trap_init_writes:
  assumes "mapped tr VEC_TBL p 16" and "length labels = 8"
  shows "\<exists>m. trap_init tr labels s = Inr (sys_puts (''create the exception table done.'' @ NL)
      (s\<lparr>sctlr := sctlr s OR 0x2000, ks := (ks s)\<lparr>pmem := m\<rparr>\<rparr>))
    \<and> (\<forall>k < 16. m (p + 4 * word_of_nat k) = vec_words labels ! k)
    \<and> (\<forall>x. x \<notin> words p 16 \<longrightarrow> m x = pmem (ks s) x)"
proof -
  have "length (vec_words labels) = 16" by (simp add: vec_words_def assms(2))
  with store_words_mapped [of tr VEC_TBL p "vec_words labels" "pmem (ks s)"] assms(1) obtain m where
    m: "store_words tr VEC_TBL (vec_words labels) (pmem (ks s)) = Inr m"
      "\<forall>k < 16. m (p + 4 * word_of_nat k) = vec_words labels ! k"
      "\<forall>x. x \<notin> words p 16 \<longrightarrow> m x = pmem (ks s) x" by auto
  have "trap_init tr labels s = Inr (sys_puts (''create the exception table done.'' @ NL)
      (s\<lparr>sctlr := sctlr s OR 0x2000, ks := (ks s)\<lparr>pmem := m\<rparr>\<rparr>))"
    using m(1) by (simp add: trap_init_def Let_def)
  with m show ?thesis by blast
qed

text \<open>
  C21: with the vector page mapped, \<^verbatim>\<open>trap_init\<close> selects the high vectors, writes sixteen words and
  nothing else. The eight handler addresses follow the eight branch slots, but each branch slot
  holds \<^verbatim>\<open>0x0e59ff18\<close>, not the load of the program counter \<^verbatim>\<open>0xe59ff018\<close> the slots are meant to hold:
  the constant in the code lacks a digit.
\<close>

theorem trap_init_vectors:
  assumes "mapped tr VEC_TBL p 16" and "length labels = 8"
  shows "\<exists>s'. trap_init tr labels s = Inr s' \<and> bit (sctlr s') 13
    \<and> (\<forall>k. k < 8 \<longrightarrow> pmem (ks s') (p + 4 * word_of_nat k) = 0x0e59ff18
          \<and> pmem (ks s') (p + 4 * word_of_nat k) \<noteq> 0xe59ff018
          \<and> pmem (ks s') (p + 4 * word_of_nat (k + 8)) = labels ! k)
    \<and> (\<forall>x. x \<notin> words p 16 \<longrightarrow> pmem (ks s') x = pmem (ks s) x)"
proof -
  from trap_init_writes [OF assms, of s] obtain m where m:
    "trap_init tr labels s = Inr (sys_puts (''create the exception table done.'' @ NL)
      (s\<lparr>sctlr := sctlr s OR 0x2000, ks := (ks s)\<lparr>pmem := m\<rparr>\<rparr>))" (is "_ = Inr ?s'")
    "\<forall>k < 16. m (p + 4 * word_of_nat k) = vec_words labels ! k"
    "\<forall>x. x \<notin> words p 16 \<longrightarrow> m x = pmem (ks s) x" by blast
  have "pmem (ks ?s') = m" by (simp add: sys_puts_def)
  moreover have "(0x2000 :: u32) = push_bit 13 1" by simp
  then have "bit (sctlr ?s') 13" by (simp only: sys_puts_def) (simp add: bit_or_iff)
  moreover have "m (p + 4 * word_of_nat k) = 0x0e59ff18" "m (p + 4 * word_of_nat (k + 8)) = labels ! k"
    if "k < 8" for k
    using m(2) [rule_format, of k] m(2) [rule_format, of "k + 8"] that
    by (simp_all add: vec_words_def LDR_PCPC_def nth_append)
  ultimately show ?thesis using m(1,3) by (intro exI [of _ ?s']) simp
qed

text \<open>The variables as the boot loader leaves them; the device answers zero to every read.\<close>

definition bss_isys :: "mem \<Rightarrow> isys" where
  "bss_isys m =
     \<lparr>ks = bss_state m, sctlr = 0, vic_base = 0, isrs = replicate NUM_ISR Isr_null,
      devs = \<lparr>wlog = [], reads = 0, answer = (\<lambda>_ _. 0)\<rparr>,
      timerlock = \<lparr>locked = 0, name = [], lk_cpu = 0, pcs = replicate 10 0\<rparr>\<rparr>"

theorem trap_init_vectors_witness:
  "\<exists>s'. trap_init (\<lambda>va. Some (va - VEC_TBL + 0x6000)) [0, 1, 2, 3, 4, 5, 6, 7] (bss_isys (\<lambda>_. 0)) = Inr s'
    \<and> pmem (ks s') 0x6000 = 0x0e59ff18 \<and> pmem (ks s') 0x6038 = 6"
proof -
  let ?tr = "\<lambda>va. Some (va - VEC_TBL + 0x6000)"
  have "mapped ?tr VEC_TBL 0x6000 16" by (simp add: mapped_def)
  from trap_init_vectors [OF this, of "[0, 1, 2, 3, 4, 5, 6, 7]" "bss_isys (\<lambda>_. 0)"] obtain s' where
    s': "trap_init ?tr [0, 1, 2, 3, 4, 5, 6, 7] (bss_isys (\<lambda>_. 0)) = Inr s'"
    "\<And>k. k < 8 \<Longrightarrow> pmem (ks s') (0x6000 + 4 * word_of_nat k) = 0x0e59ff18"
    "\<And>k. k < 8 \<Longrightarrow> pmem (ks s') (0x6000 + 4 * word_of_nat (k + 8)) = [0, 1, 2, 3, 4, 5, 6, 7] ! k" by auto
  show ?thesis using s'(1) s'(2) [of 0] s'(3) [of 6] by auto
qed

section \<open>The interrupt controller as a table of handlers\<close>

text \<open>
  What the controller does with the register writes of the driver (PL190: a write to the enable
  register sets mask bits, a write to the clear register clears them), and the driver's contract:
  a partial map from sources to their handlers.
\<close>

definition vic_step :: "u32 \<times> u32 \<Rightarrow> u32 \<Rightarrow> u32" where
  "vic_step w msk =
     (if fst w = VIC_BASE + 0x10 then msk OR snd w
      else if fst w = VIC_BASE + 0x14 then msk AND NOT (snd w) else msk)"

definition vic_mask :: "u32 \<Rightarrow> (u32 \<times> u32) list \<Rightarrow> u32" where
  "vic_mask m0 log = fold vic_step log m0"

datatype pic_op = Enable int isr | Disable int

fun pic_run :: "trans \<Rightarrow> pic_op list \<Rightarrow> isys \<Rightarrow> isys res" where
  "pic_run tr [] s = Inr s"
| "pic_run tr (Enable n h # ops) s = bindR (pic_enable tr n h s) (pic_run tr ops)"
| "pic_run tr (Disable n # ops) s = bindR (pic_disable tr n s) (pic_run tr ops)"

fun pic_spec :: "pic_op list \<Rightarrow> (nat \<rightharpoonup> isr) \<Rightarrow> (nat \<rightharpoonup> isr) option" where
  "pic_spec [] f = Some f"
| "pic_spec (Enable n h # ops) f =
     (if 0 \<le> n \<and> n < 32 then pic_spec ops (f(nat n \<mapsto> h)) else None)"
| "pic_spec (Disable n # ops) f =
     (if 0 \<le> n \<and> n < 32 then pic_spec ops (f(nat n := None)) else None)"

definition pic_abs :: "u32 \<Rightarrow> isys \<Rightarrow> (nat \<rightharpoonup> isr) \<Rightarrow> bool" where
  "pic_abs m0 s f \<longleftrightarrow> vic_base s = VIC_BASE \<and> length (isrs s) = 32 \<and>
     (\<forall>i < 32. isrs s ! i = (case f i of None \<Rightarrow> Default_isr | Some h \<Rightarrow> h) \<and>
       (bit (vic_mask m0 (wlog (devs s))) i \<longleftrightarrow> f i \<noteq> None))"

definition vic_mapped :: "trans \<Rightarrow> bool" where
  "vic_mapped tr \<longleftrightarrow> (\<forall>r < 1024. tr (VIC_BASE + 4 * r) = Some (VIC_BASE + 4 * r))"

lemma vic_mappedD: "vic_mapped tr \<Longrightarrow> r < 1024 \<Longrightarrow> tr (VIC_BASE + 4 * r) = Some (VIC_BASE + 4 * r)"
  by (simp add: vic_mapped_def)

lemma vic_mask_snoc: "vic_mask m0 (log @ [w]) = vic_step w (vic_mask m0 log)"
  by (simp add: vic_mask_def)

lemma pic_init_abs:
  assumes "vic_mapped tr"
  shows "\<exists>s'. pic_init tr s = Inr s' \<and> pic_abs m0 s' Map.empty \<and> ks s' = ks s \<and> timerlock s' = timerlock s"
proof -
  have "tr (VIC_BASE + 4 * 5) = Some (VIC_BASE + 4 * 5)" using vic_mappedD [OF assms, of 5] by simp
  moreover have "(0xffffffff :: u32) = - 1" by simp
  ultimately show ?thesis
    unfolding pic_init_def
    by (simp only:) (simp add: dev_store_def VIC_INTENCLEAR_def pic_abs_def NUM_ISR_def mmio_write_def
        vic_mask_snoc vic_step_def bit_simps)
qed

lemma pic_enable_abs:
  assumes "vic_mapped tr" and abs: "pic_abs m0 s f" and n: "0 \<le> n" "n < 32"
  shows "\<exists>s'. pic_enable tr n h s = Inr s' \<and> pic_abs m0 s' (f(nat n \<mapsto> h))
    \<and> ks s' = ks s \<and> timerlock s' = timerlock s"
proof -
  have t: "tr (VIC_BASE + 4 * 4) = Some (VIC_BASE + 4 * 4)"
    using vic_mappedD [OF assms(1), of 4] by simp
  let ?s' = "s\<lparr>isrs := (isrs s)[nat n := h], devs := mmio_write (VIC_BASE + 0x10) (push_bit (nat n) 1) (devs s)\<rparr>"
  have "pic_enable tr n h s = Inr ?s'"
    using t abs n by (simp add: pic_enable_def dev_store_def VIC_INTENABLE_def NUM_INTSRC_def pic_abs_def)
  moreover have "pic_abs m0 ?s' (f(nat n \<mapsto> h))"
    using abs n
    by (auto simp: pic_abs_def mmio_write_def vic_mask_snoc vic_step_def bit_simps nth_list_update)
  ultimately show ?thesis by (intro exI [of _ ?s']) simp
qed

lemma pic_disable_abs:
  assumes "vic_mapped tr" and abs: "pic_abs m0 s f" and n: "0 \<le> n" "n < 32"
  shows "\<exists>s'. pic_disable tr n s = Inr s' \<and> pic_abs m0 s' (f(nat n := None))"
proof -
  have t: "tr (VIC_BASE + 4 * 5) = Some (VIC_BASE + 4 * 5)"
    using vic_mappedD [OF assms(1), of 5] by simp
  let ?s' = "s\<lparr>isrs := (isrs s)[nat n := Default_isr],
    devs := mmio_write (VIC_BASE + 0x14) (push_bit (nat n) 1) (devs s)\<rparr>"
  have "pic_disable tr n s = Inr ?s'"
    using t abs n by (simp add: pic_disable_def dev_store_def VIC_INTENCLEAR_def NUM_INTSRC_def pic_abs_def)
  moreover have "pic_abs m0 ?s' (f(nat n := None))"
    using abs n
    by (auto simp: pic_abs_def mmio_write_def vic_mask_snoc vic_step_def bit_simps nth_list_update)
  ultimately show ?thesis by (intro exI [of _ ?s']) simp
qed

text \<open>
  C18: after \<^verbatim>\<open>pic_init\<close>, every trace of \<^verbatim>\<open>pic_enable\<close> and \<^verbatim>\<open>pic_disable\<close> calls on sources 0 to 31 returns, and
  the controller's mask and the handler table agree: a source is unmasked exactly when a handler is
  registered for it, the handler is the one registered last, and every masked source has the
  default handler. A call on any other source panics.
\<close>

theorem pic_refines_table:
  assumes vic: "vic_mapped tr"
  shows "case pic_spec ops Map.empty of
      None \<Rightarrow> bindR (pic_init tr s) (pic_run tr ops) = Inl (Panic ''invalid interrupt source'')
    | Some f \<Rightarrow> \<exists>s'. bindR (pic_init tr s) (pic_run tr ops) = Inr s' \<and> pic_abs m0 s' f"
proof -
  have run: "case pic_spec ops f of
      None \<Rightarrow> pic_run tr ops s = Inl (Panic ''invalid interrupt source'')
    | Some g \<Rightarrow> \<exists>s'. pic_run tr ops s = Inr s' \<and> pic_abs m0 s' g" if "pic_abs m0 s f" for s f
    using that
  proof (induction ops arbitrary: s f)
    case Nil
    then show ?case by simp
  next
    case (Cons a ops)
    show ?case
    proof (cases a)
      case (Enable n h)
      show ?thesis
      proof (cases "0 \<le> n \<and> n < 32")
        case True
        with pic_enable_abs [OF vic Cons.prems] obtain s1 where
          "pic_enable tr n h s = Inr s1" "pic_abs m0 s1 (f(nat n \<mapsto> h))" by blast
        with Cons.IH [OF this(2)] True show ?thesis unfolding Enable
          by (cases "pic_spec ops (f(nat n \<mapsto> h))") (simp_all del: fun_upd_apply)
      qed (auto simp: Enable pic_enable_def NUM_INTSRC_def)
    next
      case (Disable n)
      show ?thesis
      proof (cases "0 \<le> n \<and> n < 32")
        case True
        with pic_disable_abs [OF vic Cons.prems] obtain s1 where
          "pic_disable tr n s = Inr s1" "pic_abs m0 s1 (f(nat n := None))" by blast
        with Cons.IH [OF this(2)] True show ?thesis unfolding Disable
          by (cases "pic_spec ops (f(nat n := None))") (simp_all del: fun_upd_apply)
      qed (auto simp: Disable pic_disable_def NUM_INTSRC_def)
    qed
  qed
  from pic_init_abs [OF vic, of s m0] obtain s1 where
    "pic_init tr s = Inr s1" "pic_abs m0 s1 Map.empty" by blast
  with run [of s1 Map.empty] show ?thesis by (cases "pic_spec ops Map.empty") simp_all
qed

theorem pic_refines_table_witness:
  "\<exists>s'. bindR (pic_init Some (bss_isys (\<lambda>_. 0))) (pic_run Some [Enable 4 Isr_timer, Enable 7 (Isr_at 9), Disable 4]) = Inr s'
    \<and> pic_abs 0xFFFFFFFF s' [7 \<mapsto> Isr_at 9]"
  using pic_refines_table [of Some "bss_isys (\<lambda>_. 0)" "[Enable 4 Isr_timer, Enable 7 (Isr_at 9), Disable 4]" "0xFFFFFFFF"]
  by (simp add: vic_mapped_def fun_upd_twist)

end
