(* ===== verification/Numerals.thy ===== *)
theory Numerals
  imports Prelude
begin

text \<open>
  Positional numerals: the digit loop that the kernel's and the user library's \<^verbatim>\<open>printint\<close> share,
  with its 16-byte buffer, and the reference notions it is compared with.
\<close>

section \<open>The digit loop\<close>

text \<open>
  \<^verbatim>\<open>do buf[i++] = digits[x % base]; while((x /= base) != 0)\<close>, with \<open>room\<close> bytes of \<^verbatim>\<open>buf\<close> left. Going
  past the buffer or past the digit string, and a base of zero, are undefined.
\<close>

fun itoa_loop :: "nat \<Rightarrow> string \<Rightarrow> u32 \<Rightarrow> u32 \<Rightarrow> string \<Rightarrow> string res" where
  "itoa_loop 0 digits x base buf = Inl Undefined"
| "itoa_loop (Suc room) digits x base buf =
     (if base = 0 \<or> length digits \<le> unat (x mod base) then Inl Undefined
      else let buf1 = buf @ [digits ! unat (x mod base)]; x1 = x div base
           in if x1 \<noteq> 0 then itoa_loop room digits x1 base buf1 else Inr buf1)"

section \<open>Reference numerals\<close>

text \<open>The digits of \<open>n\<close>, least significant first, without leading zeros.\<close>

fun digits_rev :: "nat \<Rightarrow> nat \<Rightarrow> nat list" where
  "digits_rev base n = (if base < 2 \<or> n < base then [n] else n mod base # digits_rev base (n div base))"

declare digits_rev.simps [simp del]

definition num_val :: "nat \<Rightarrow> nat list \<Rightarrow> nat" where
  "num_val base ds = fold (\<lambda>d acc. acc * base + d) ds 0"

definition num_str :: "string \<Rightarrow> nat \<Rightarrow> nat \<Rightarrow> string" where
  "num_str digits base n = map (\<lambda>d. digits ! d) (rev (digits_rev base n))"

lemma num_val_snoc: "num_val base (ds @ [d]) = num_val base ds * base + d"
  by (simp add: num_val_def)

lemma num_val_digits: "2 \<le> base \<Longrightarrow> num_val base (rev (digits_rev base n)) = n"
proof (induction base n rule: digits_rev.induct)
  case (1 base n)
  show ?case
  proof (cases "n < base")
    case True
    then show ?thesis by (subst digits_rev.simps) (simp add: num_val_def)
  next
    case False
    with 1 have "num_val base (rev (digits_rev base (n div base))) = n div base" by simp
    with False 1 show ?thesis by (subst digits_rev.simps) (simp add: num_val_snoc)
  qed
qed

lemma digits_rev_lt: "2 \<le> base \<Longrightarrow> \<forall>d \<in> set (digits_rev base n). d < base"
proof (induction base n rule: digits_rev.induct)
  case (1 base n)
  then show ?case by (subst digits_rev.simps) simp
qed

lemma digits_rev_length:
  "2 \<le> base \<Longrightarrow> n < base ^ Suc r \<Longrightarrow> length (digits_rev base n) \<le> Suc r"
proof (induction r arbitrary: n)
  case 0
  then show ?case by (subst digits_rev.simps) simp
next
  case (Suc r)
  then have "n div base < base ^ Suc r" by (simp add: less_mult_imp_div_less mult.commute)
  with Suc show ?case by (subst digits_rev.simps) simp
qed

lemma digits_rev_nonempty [simp]: "digits_rev base n \<noteq> []"
  by (subst digits_rev.simps) simp

text \<open>No leading zero, except in the numeral of zero itself.\<close>

lemma digits_rev_last: "2 \<le> base \<Longrightarrow> last (digits_rev base n) = 0 \<Longrightarrow> n = 0"
proof (induction base n rule: digits_rev.induct)
  case (1 base n)
  show ?case
  proof (cases "n < base")
    case True
    then show ?thesis using 1(3) by (simp add: digits_rev.simps [of base n])
  next
    case False
    then have "digits_rev base n = n mod base # digits_rev base (n div base)"
      using 1(2) by (subst digits_rev.simps) simp
    with 1 False have "n div base = 0" by simp
    then show ?thesis using 1(2) False by (simp add: div_eq_0_iff)
  qed
qed

lemma itoa_loop_correct:
  "2 \<le> unat base \<Longrightarrow> unat base \<le> length digs \<Longrightarrow> length (digits_rev (unat base) (unat x)) \<le> room \<Longrightarrow>
     itoa_loop room digs x base buf = Inr (buf @ map (\<lambda>d. digs ! d) (digits_rev (unat base) (unat x)))"
proof (induction room arbitrary: x buf)
  case 0
  then show ?case by simp
next
  case (Suc room)
  let ?b = "unat base" and ?n = "unat x"
  have b0: "base \<noteq> 0" using Suc.prems(1) by auto
  have md: "unat (x mod base) = ?n mod ?b" "unat (x div base) = ?n div ?b"
    by (simp_all add: unat_mod unat_div)
  have lt: "unat (x mod base) < length digs"
    unfolding md using Suc.prems(1,2) mod_less_divisor [of ?b ?n] by linarith
  show ?case
  proof (cases "?n < ?b")
    case True
    then have "x div base = 0" using md(2) by (simp add: word32_eq_iff)
    then show ?thesis using b0 lt True by (simp add: digits_rev.simps [of ?b ?n] md(1) Let_def)
  next
    case False
    then have d: "digits_rev ?b ?n = ?n mod ?b # digits_rev ?b (?n div ?b)"
      using Suc.prems(1) by (subst digits_rev.simps) simp
    have "?n div ?b \<noteq> 0" using False Suc.prems(1) by (simp add: div_eq_0_iff)
    then have "x div base \<noteq> 0" using md(2) by (metis unat_0)
    moreover have "itoa_loop room digs (x div base) base (buf @ [digs ! (?n mod ?b)])
        = Inr ((buf @ [digs ! (?n mod ?b)]) @ map (\<lambda>d. digs ! d) (digits_rev ?b (?n div ?b)))"
      using Suc.IH [of "x div base"] Suc.prems d by (simp add: md(2))
    ultimately show ?thesis using b0 lt by (simp add: d md(1) Let_def)
  qed
qed

text \<open>The numerals of every 32-bit value fit: ten decimal digits, eight hexadecimal ones.\<close>

lemma digits_rev_u32:
  "length (digits_rev 10 (unat (x :: u32))) \<le> 10" "length (digits_rev 16 (unat x)) \<le> 8"
proof -
  have "unat x < 10 ^ Suc 9" using unat_lt32 [of x] by (simp del: unat_lt32)
  then show "length (digits_rev 10 (unat x)) \<le> 10" using digits_rev_length [of 10 "unat x" 9] by simp
  have "unat x < 16 ^ Suc 7" using unat_lt32 [of x] by (simp del: unat_lt32)
  then show "length (digits_rev 16 (unat x)) \<le> 8" using digits_rev_length [of 16 "unat x" 7] by simp
qed

end
