(* ===== verification/Console.thy ===== *)
theory Console
  imports Arm Numerals
begin

text \<open>
  The console of \<^verbatim>\<open>console.c\<close>: \<^verbatim>\<open>printint\<close>, \<^verbatim>\<open>cprintf\<close>, \<^verbatim>\<open>panic\<close>, \<^verbatim>\<open>cons_putc\<close>, the device routines
  \<^verbatim>\<open>console_read\<close> and \<^verbatim>\<open>console_write\<close>, and \<^verbatim>\<open>console_init\<close>. Output is the list of bytes handed to the
  UART.
\<close>

section \<open>State\<close>

definition INPUT_BUF :: nat where "INPUT_BUF = 512"
definition BACKSPACE :: int where "BACKSPACE = 0x100"

record cons_state =
  panicked :: bool
  cons_lock :: spinlock
  cons_locking :: bool
  cons_cpu :: cpu
  outp :: string
  input_lock :: spinlock
  ibuf :: "nat \<Rightarrow> char"
  inr :: u32
  inw :: u32
  ine :: u32

section \<open>Output\<close>

definition cons_putc :: "int \<Rightarrow> cons_state \<Rightarrow> cons_state res" where
  "cons_putc c s =
     (if panicked s then Inl Hang
      else if c = BACKSPACE then Inr (s\<lparr>outp := outp s @ [CHR 0x08, CHR '' '', CHR 0x08]\<rparr>)
      else Inr (s\<lparr>outp := outp s @ [char_of (nat (c mod 256))]\<rparr>))"

fun cons_puts :: "string \<Rightarrow> cons_state \<Rightarrow> cons_state res" where
  "cons_puts [] s = Inr s"
| "cons_puts (c # cs) s = bindR (cons_putc (of_char c) s) (cons_puts cs)"

definition cons_digits :: string where "cons_digits = ''0123456789abcdef''"

text \<open>
  \<^verbatim>\<open>xx\<close> is the 32-bit argument; a negative one has its top bit set. After the digits a sign needs
  one more byte of the buffer.
\<close>

definition printint :: "u32 \<Rightarrow> u32 \<Rightarrow> bool \<Rightarrow> cons_state \<Rightarrow> cons_state res" where
  "printint xx base sign s =
     (let sgn = (sign \<and> bit xx 31);
          x = (if sgn then - xx else xx)
      in bindR (itoa_loop 16 cons_digits x base []) (\<lambda>buf.
         if sgn then (if length buf < 16 then cons_puts (rev (buf @ ''-'')) s else Inl Undefined)
         else cons_puts (rev buf) s))"

text \<open>
  The loop of \<^verbatim>\<open>cprintf\<close> over the rest of the format; \<open>args\<close> are the words after the format on the
  stack, \<open>rdstr\<close> the string at an address. Taking an argument that was not passed is undefined.
\<close>

fun cprintf_loop :: "(u32 \<Rightarrow> string) \<Rightarrow> string \<Rightarrow> u32 list \<Rightarrow> cons_state \<Rightarrow> cons_state res" where
  "cprintf_loop rdstr [] args s = Inr s"
| "cprintf_loop rdstr (c # fmt) args s =
     (if c \<noteq> CHR ''%'' then bindR (cons_putc (of_char c) s) (cprintf_loop rdstr fmt args)
      else case fmt of
        [] \<Rightarrow> Inr s
      | d # rest \<Rightarrow>
          (if d = CHR ''d'' then
             (case args of [] \<Rightarrow> Inl Undefined
              | a # as \<Rightarrow> bindR (printint a 10 True s) (cprintf_loop rdstr rest as))
           else if d = CHR ''x'' \<or> d = CHR ''p'' then
             (case args of [] \<Rightarrow> Inl Undefined
              | a # as \<Rightarrow> bindR (printint a 16 False s) (cprintf_loop rdstr rest as))
           else if d = CHR ''s'' then
             (case args of [] \<Rightarrow> Inl Undefined
              | a # as \<Rightarrow> bindR (cons_puts (if a = 0 then ''(null)'' else rdstr a) s)
                            (cprintf_loop rdstr rest as))
           else if d = CHR ''%'' then bindR (cons_putc (of_char d) s) (cprintf_loop rdstr rest args)
           else bindR (cons_putc (of_char c) s) (\<lambda>s1.
                bindR (cons_putc (of_char d) s1) (cprintf_loop rdstr rest args))))"

definition cprintf :: "(u32 \<Rightarrow> string) \<Rightarrow> string option \<Rightarrow> u32 list \<Rightarrow> cons_state \<Rightarrow> cons_state res" where
  "cprintf rdstr fmt args s =
     (let locking = cons_locking s;
          s1 = (if locking then (case acquire (cons_cpu s, cons_lock s) of (c, l) \<Rightarrow>
                  s\<lparr>cons_cpu := c, cons_lock := l\<rparr>) else s)
      in case fmt of None \<Rightarrow> Inl (Panic ''null fmt'')
         | Some f \<Rightarrow> bindR (cprintf_loop rdstr f args s1) (\<lambda>s2.
             if locking then bindR (release (cons_cpu s2, cons_lock s2)) (\<lambda>r.
               case r of (c, l) \<Rightarrow> Inr (s2\<lparr>cons_cpu := c, cons_lock := l\<rparr>))
             else Inr s2))"

text \<open>
  \<^verbatim>\<open>panic\<close> up to its endless loop: the state it freezes the console in. \<^verbatim>\<open>show_callstk\<close>, which it also
  calls, has an empty body.
\<close>

definition panic :: "(u32 \<Rightarrow> string) \<Rightarrow> u32 \<Rightarrow> string \<Rightarrow> cons_state \<Rightarrow> cons_state res" where
  "panic rdstr cpu_id str s =
     (let s1 = s\<lparr>cons_cpu := cli (cons_cpu s), cons_locking := False\<rparr>
      in bindR (cprintf rdstr (Some ''cpu%d: panic: '') [cpu_id] s1) (\<lambda>s2.
         Inr (s2\<lparr>panicked := True\<rparr>)))"

section \<open>The device routines\<close>

text \<open>
  \<^verbatim>\<open>console_read\<close> with \<open>n\<close> bytes wanted: the bytes stored at \<^verbatim>\<open>dst\<close>. The wait for input is a loop that
  nothing ends once it is entered, because the routine that fills the buffer is not compiled.
\<close>

fun console_read_loop :: "nat \<Rightarrow> cons_state \<Rightarrow> (string \<times> cons_state) res" where
  "console_read_loop 0 s = Inr ([], s)"
| "console_read_loop (Suc n) s =
     (if inr s = inw s then Inl Hang
      else let c = ibuf s (unat (inr s) mod INPUT_BUF); s1 = s\<lparr>inr := inr s + 1\<rparr>
           in if c = CHR 0x0A then Inr ([c], s1)
              else bindR (console_read_loop n s1) (\<lambda>r. Inr (c # fst r, snd r)))"

definition console_read :: "int \<Rightarrow> cons_state \<Rightarrow> (int \<times> string \<times> cons_state) res" where
  "console_read n s =
     bindR (console_read_loop (nat n) s) (\<lambda>r. Inr (int (length (fst r)), r))"

text \<open>The body of the loop of \<^verbatim>\<open>console_write\<close> is commented out.\<close>

definition console_write :: "string \<Rightarrow> int \<Rightarrow> cons_state \<Rightarrow> int \<times> cons_state" where
  "console_write buf n s = (n, s)"

definition console_init :: "cons_state \<Rightarrow> cons_state" where
  "console_init s =
     s\<lparr>cons_lock := init_lock (cons_lock s) ''console'', input_lock := init_lock (input_lock s) ''input''\<rparr>"

text \<open>The variables before \<^verbatim>\<open>console_init\<close>: zeroed, on a processor in supervisor mode.\<close>

definition bss_cons :: cons_state where
  "bss_cons =
     (let l = \<lparr>locked = 0, name = [], lk_cpu = 0, pcs = replicate 10 0\<rparr>
      in \<lparr>panicked = False, cons_lock = l, cons_locking = False,
          cons_cpu = \<lparr>cpsr = 0xD3, ncli = 0, intena = False\<rparr>, outp = [], input_lock = l,
          ibuf = (\<lambda>_. CHR 0x00), inr = 0, inw = 0, ine = 0\<rparr>)"

lemma bss_cons_fields [simp]:
  "\<not> panicked bss_cons" "outp bss_cons = []" "\<not> cons_locking bss_cons"
  "cons_cpu bss_cons = \<lparr>cpsr = 0xD3, ncli = 0, intena = False\<rparr>"
  by (simp_all add: bss_cons_def Let_def)

section \<open>Printing numbers\<close>

text \<open>The numeral of an integer, with a sign.\<close>

definition num_int :: "string \<Rightarrow> nat \<Rightarrow> int \<Rightarrow> string" where
  "num_int digits base i =
     (if i < 0 then ''-'' @ num_str digits base (nat (- i)) else num_str digits base (nat i))"

lemma cons_puts_out:
  "\<not> panicked s \<Longrightarrow> cons_puts str s = Inr (s\<lparr>outp := outp s @ str\<rparr>)"
proof (induction str arbitrary: s)
  case Nil
  then show ?case by simp
next
  case (Cons c str)
  have "(of_char c :: int) = int (of_char c)" by (simp add: of_nat_of_char)
  then have "(of_char c :: int) \<noteq> 256" using nat_of_char_less_256 [of c] by linarith
  moreover have "char_of (nat ((of_char c :: int) mod 256)) = c"
    by (simp add: of_char_mod_256 nat_of_char)
  ultimately have "cons_putc (of_char c) s = Inr (s\<lparr>outp := outp s @ [c]\<rparr>)"
    using Cons.prems by (simp add: cons_putc_def BACKSPACE_def)
  with Cons show ?case by simp
qed

lemma sint_sign: "sint (xx :: u32) < 0 \<longleftrightarrow> bit xx 31"
  using bit_last_iff [of xx] by simp

lemma unat_neg:
  assumes "bit (xx :: u32) 31"
  shows "unat (- xx) = nat (- sint xx)"
proof -
  have b: "sint xx < 0" "- 2147483648 \<le> sint xx"
    using assms sint_sign [of xx] sint_ge [of xx] by simp_all
  have eq: "- xx = word_of_int (- sint xx)" by simp
  have "uint (- xx) = (- sint xx) mod 4294967296"
    unfolding eq uint_word_of_int by simp
  also have "\<dots> = - sint xx" using b by (intro mod_pos_pos_trivial) linarith+
  finally show ?thesis by (metis unat_eq_nat_uint)
qed

lemma unat_nonneg:
  assumes "\<not> bit (xx :: u32) 31"
  shows "nat (sint xx) = unat xx"
proof -
  have "0 \<le> sint xx" using assms sint_sign [of xx] by simp
  moreover have "sint xx < 2147483648" using sint_lt [of xx] by simp
  ultimately have "uint xx = sint xx"
    using uint_sint [of xx] take_bit_int_eq_self [of "sint xx" 32] by simp
  then show ?thesis by (metis nat_uint_eq)
qed

lemma printint_text:
  assumes "\<not> panicked s" and "unat base = 10 \<or> unat base = 16"
  shows "printint xx base sign s = Inr (s\<lparr>outp := outp s @
     num_int cons_digits (unat base) (if sign then sint xx else int (unat xx))\<rparr>)"
proof -
  have it: "itoa_loop 16 cons_digits x base [] = Inr (map (\<lambda>d. cons_digits ! d) (digits_rev (unat base) (unat x)))"
    and len: "length (digits_rev (unat base) (unat x)) < 16" for x
    using itoa_loop_correct [of base cons_digits x 16 "[]"] digits_rev_u32 [of x] assms(2)
    by (auto simp: cons_digits_def)
  show ?thesis
  proof (cases "sign \<and> bit xx 31")
    case True
    then have "sint xx < 0" by (simp add: sint_sign)
    with True show ?thesis
      using it [of "- xx"] len [of "- xx"] cons_puts_out [OF assms(1)] unat_neg [of xx]
      by (simp add: printint_def Let_def num_int_def num_str_def rev_map)
  next
    case False
    then have "sign \<Longrightarrow> nat (sint xx) = unat xx \<and> \<not> sint xx < 0"
      using unat_nonneg [of xx] by (simp add: sint_sign)
    with False show ?thesis
      using it [of xx] cons_puts_out [OF assms(1)]
      by (auto simp: printint_def Let_def num_int_def num_str_def rev_map)
  qed
qed

text \<open>
  \<^verbatim>\<open>printint\<close>, called as \<^verbatim>\<open>cprintf\<close> calls it, stays inside its 16-byte buffer for every argument and
  prints the numeral of the value: signed decimal, the most negative integer included, or unsigned
  hexadecimal. The numeral has the value it stands for and no leading zero.
\<close>

lemma printint_numeral:
  assumes "\<not> panicked s"
  shows "printint xx 10 True s = Inr (s\<lparr>outp := outp s @ num_int cons_digits 10 (sint xx)\<rparr>)
    \<and> printint xx 16 False s = Inr (s\<lparr>outp := outp s @ num_str cons_digits 16 (unat xx)\<rparr>)
    \<and> num_val 16 (rev (digits_rev 16 (unat xx))) = unat xx
    \<and> (hd (rev (digits_rev 16 (unat xx))) = 0 \<longrightarrow> xx = 0)"
  using printint_text [OF assms, of 10 xx True] printint_text [OF assms, of 16 xx False]
    num_val_digits [of 16 "unat xx"] digits_rev_last [of 16 "unat xx"]
  by (auto simp: num_int_def hd_rev unat_eq_0)

section \<open>cprintf\<close>

text \<open>The text a format stands for; undefined when an argument is missing.\<close>

fun fmt_text :: "(u32 \<Rightarrow> string) \<Rightarrow> string \<Rightarrow> u32 list \<Rightarrow> string option" where
  "fmt_text rdstr [] args = Some []"
| "fmt_text rdstr [c] args = Some (if c = CHR ''%'' then [] else [c])"
| "fmt_text rdstr (c # d # fmt) args =
     (if c \<noteq> CHR ''%'' then map_option ((@) [c]) (fmt_text rdstr (d # fmt) args)
      else if d \<in> {CHR ''d'', CHR ''x'', CHR ''p'', CHR ''s''} then
        (case args of [] \<Rightarrow> None
         | a # as \<Rightarrow> map_option
             ((@) (if d = CHR ''d'' then num_int cons_digits 10 (sint a)
                   else if d = CHR ''s'' then (if a = 0 then ''(null)'' else rdstr a)
                   else num_str cons_digits 16 (unat a))) (fmt_text rdstr fmt as))
      else map_option ((@) (if d = CHR ''%'' then [d] else [c, d])) (fmt_text rdstr fmt args))"

lemma cons_putc_out:
  assumes "\<not> panicked s"
  shows "cons_putc (of_char c) s = Inr (s\<lparr>outp := outp s @ [c]\<rparr>)"
  using cons_puts_out [OF assms, of "[c]"] by (simp add: bindR_def split: sum.splits)

lemma cons_putc_percent:
  "\<not> panicked s \<Longrightarrow> cons_putc 37 s = Inr (s\<lparr>outp := outp s @ ''%''\<rparr>)"
  using cons_putc_out [of s "CHR ''%''"] by simp

lemma printint_x:
  assumes "\<not> panicked s"
  shows "printint a 16 False s = Inr (s\<lparr>outp := outp s @ num_str cons_digits 16 (unat a)\<rparr>)"
  using printint_text [OF assms, of 16 a False] by (simp add: num_int_def)

lemma cprintf_loop_text:
  "\<not> panicked s \<Longrightarrow> cprintf_loop rdstr fmt args s =
     (case fmt_text rdstr fmt args of None \<Rightarrow> Inl Undefined | Some t \<Rightarrow> Inr (s\<lparr>outp := outp s @ t\<rparr>))"
proof (induction rdstr fmt args arbitrary: s rule: fmt_text.induct)
  case (1 rdstr args)
  then show ?case by simp
next
  case (2 rdstr c args)
  then show ?case by (simp add: cons_putc_out)
next
  case (3 rdstr c d fmt args)
  note np = 3(4)
  note out = cons_putc_out cons_putc_percent cons_puts_out printint_x printint_text [of _ 10 _ True, simplified]
  show ?case
  proof (cases "c = CHR ''%''")
    case False
    then show ?thesis
      using np 3(1) [OF False, of "s\<lparr>outp := outp s @ [c]\<rparr>"]
      by (simp add: out split: option.splits)
  next
    case c: True
    show ?thesis
    proof (cases "d \<in> {CHR ''d'', CHR ''x'', CHR ''p'', CHR ''s''}")
      case d: True
      show ?thesis
      proof (cases args)
        case Nil
        then show ?thesis using c d by auto
      next
        case (Cons a as)
        define t where "t = (if d = CHR ''d'' then num_int cons_digits 10 (sint a)
           else if d = CHR ''s'' then (if a = 0 then ''(null)'' else rdstr a)
           else num_str cons_digits 16 (unat a))"
        have "cprintf_loop rdstr (c # d # fmt) args s = cprintf_loop rdstr fmt as (s\<lparr>outp := outp s @ t\<rparr>)"
        proof -
          consider "d = CHR ''d''" | "d = CHR ''x''" | "d = CHR ''p''" | "d = CHR ''s''" using d by auto
          then show ?thesis by cases (use c np in \<open>simp_all add: Cons out t_def\<close>)
        qed
        moreover have "fmt_text rdstr (c # d # fmt) args = map_option ((@) t) (fmt_text rdstr fmt as)"
          using c d by (simp add: Cons t_def)
        ultimately show ?thesis
          using 3(2) [of a as "s\<lparr>outp := outp s @ t\<rparr>"] c d Cons np by (simp split: option.splits)
      qed
    next
      case d: False
      define t where "t = (if d = CHR ''%'' then [d] else [c, d])"
      have "cprintf_loop rdstr (c # d # fmt) args s = cprintf_loop rdstr fmt args (s\<lparr>outp := outp s @ t\<rparr>)"
        using c d np by (cases "d = CHR ''%''") (simp_all add: out t_def)
      moreover have "fmt_text rdstr (c # d # fmt) args = map_option ((@) t) (fmt_text rdstr fmt args)"
        using c d by (simp add: t_def)
      ultimately show ?thesis
        using 3(3) [of "s\<lparr>outp := outp s @ t\<rparr>"] c d np by (simp split: option.splits)
    qed
  qed
qed

text \<open>
  C22: \<^verbatim>\<open>cprintf\<close> on a console that has not panicked prints exactly the text its format and arguments
  stand for, with or without the console lock, and leaves the interrupt nesting as it found it; it
  never overruns the number buffer, and reads past its arguments only when the format asks for more
  than were passed.
\<close>

theorem cprintf_prints:
  assumes "\<not> panicked s" and "cli_at p d (cons_cpu s)" and "fmt_text rdstr fmt args = Some t"
  shows "\<exists>c l. cprintf rdstr (Some fmt) args s
      = Inr (s\<lparr>outp := outp s @ t, cons_cpu := c, cons_lock := l\<rparr>) \<and> cli_at p d c"
proof (cases "cons_locking s")
  case True
  let ?s1 = "s\<lparr>cons_cpu := pushcli (cons_cpu s), cons_lock := (cons_lock s)\<lparr>locked := 1\<rparr>\<rparr>"
  have loop: "cprintf_loop rdstr fmt args ?s1 = Inr (?s1\<lparr>outp := outp s @ t\<rparr>)"
    using cprintf_loop_text [of ?s1 rdstr fmt args] assms(1,3) by simp
  have "cli_at p (Suc d) (pushcli (cons_cpu s))" by (rule pushcli_at [OF assms(2)])
  with popcli_at obtain c where c: "popcli (pushcli (cons_cpu s)) = Inr c" "cli_at p d c" by blast
  have "cprintf rdstr (Some fmt) args s
      = Inr (s\<lparr>outp := outp s @ t, cons_cpu := c, cons_lock := (cons_lock s)\<lparr>locked := 0\<rparr>\<rparr>)"
    using True loop c(1) by (simp add: cprintf_def acquire_def release_def Let_def)
  with c(2) show ?thesis by blast
next
  case False
  have "cprintf rdstr (Some fmt) args s = Inr (s\<lparr>outp := outp s @ t\<rparr>)"
    using False cprintf_loop_text [OF assms(1), of rdstr fmt args] assms(3) by (simp add: cprintf_def)
  moreover have "s\<lparr>outp := outp s @ t\<rparr> = s\<lparr>outp := outp s @ t, cons_cpu := cons_cpu s, cons_lock := cons_lock s\<rparr>"
    by simp
  ultimately show ?thesis using assms(2) by metis
qed

theorem cprintf_prints_witness:
  "\<exists>c l. cprintf (\<lambda>_. ''init'') (Some ''%d %s: %x%%%q'') [0xFFFFFFF9, 0x1000, 255] bss_cons
      = Inr (bss_cons\<lparr>outp := ''-7 init: ff%%q'', cons_cpu := c, cons_lock := l\<rparr>)"
proof -
  have "fmt_text (\<lambda>_. ''init'') ''%d %s: %x%%%q'' [0xFFFFFFF9, 0x1000, 255] = Some ''-7 init: ff%%q''"
    by (simp add: num_int_def num_str_def cons_digits_def digits_rev.simps)
  then show ?thesis
    using cprintf_prints [of bss_cons "0xD3" 0 "\<lambda>_. ''init''" "''%d %s: %x%%%q''"
        "[0xFFFFFFF9, 0x1000, 255]" "''-7 init: ff%%q''"]
    by (simp add: cli_at_def) blast
qed

section \<open>panic\<close>

text \<open>
  C24: \<^verbatim>\<open>panic\<close> masks interrupts, prints the processor's number, and freezes the console for good: every
  later attempt to print a byte spins for ever. The message it was given is not printed: the routine
  that used to print it has an empty body.
\<close>

theorem panic_freezes_console:
  assumes "\<not> panicked s"
  shows "\<exists>s'. panic rdstr cpu_id str s = Inr s'
    \<and> outp s' = outp s @ ''cpu'' @ num_int cons_digits 10 (sint cpu_id) @ '': panic: ''
    \<and> \<not> int_enabled (cons_cpu s') \<and> (\<forall>c. cons_putc c s' = Inl Hang)"
proof -
  let ?s1 = "s\<lparr>cons_cpu := cli (cons_cpu s), cons_locking := False\<rparr>"
  let ?t = "''cpu'' @ num_int cons_digits 10 (sint cpu_id) @ '': panic: ''"
  have "fmt_text rdstr ''cpu%d: panic: '' [cpu_id] = Some ?t" by simp
  then have "cprintf rdstr (Some ''cpu%d: panic: '') [cpu_id] ?s1 = Inr (?s1\<lparr>outp := outp s @ ?t\<rparr>)"
    using cprintf_loop_text [of ?s1 rdstr "''cpu%d: panic: ''" "[cpu_id]"] assms
    by (simp add: cprintf_def del: fmt_text.simps cprintf_loop.simps)
  then have "panic rdstr cpu_id str s = Inr (?s1\<lparr>outp := outp s @ ?t, panicked := True\<rparr>)"
    by (simp add: panic_def del: append.simps)
  then show ?thesis by (auto simp: cons_putc_def)
qed

theorem panic_freezes_console_witness:
  "\<exists>s'. panic (\<lambda>_. []) 0 ''kfree'' bss_cons = Inr s' \<and> outp s' = ''cpu0: panic: ''
    \<and> cons_putc 65 s' = Inl Hang"
  using panic_freezes_console [of bss_cons "\<lambda>_. []" 0 "''kfree''"]
  by (auto simp: num_int_def num_str_def cons_digits_def digits_rev.simps)

section \<open>console_read as a queue of lines\<close>

text \<open>The bytes waiting in the input ring, oldest first; the indices wrap at \<open>2 ^ 32\<close>.\<close>

definition pending :: "cons_state \<Rightarrow> string" where
  "pending s = map (\<lambda>k. ibuf s ((unat (inr s) + k) mod INPUT_BUF)) [0..<unat (inw s - inr s)]"

text \<open>A line of at most \<open>n\<close> bytes from a queue; None when the reader would have to wait.\<close>

fun read_line :: "nat \<Rightarrow> string \<Rightarrow> string option" where
  "read_line 0 q = Some []"
| "read_line (Suc n) [] = None"
| "read_line (Suc n) (c # q) = (if c = CHR 0x0A then Some [c] else map_option ((#) c) (read_line n q))"

lemma pending_step:
  assumes "inr s \<noteq> inw s"
  shows "pending s = ibuf s (unat (inr s) mod INPUT_BUF) # pending (s\<lparr>inr := inr s + 1\<rparr>)"
proof -
  have nz: "inw s - inr s \<noteq> 0" using assms by simp
  have e: "inw s - (inr s + 1) = inw s - inr s - 1" by (simp add: algebra_simps)
  have "0 < unat (inw s - inr s)" using nz by (simp add: unat_gt_0)
  then have n: "unat (inw s - inr s) = Suc (unat (inw s - (inr s + 1)))"
    unfolding e unat_minus_one [OF nz] by linarith
  have wrap: "(unat (inr s + 1) + k) mod INPUT_BUF = (unat (inr s) + Suc k) mod INPUT_BUF" for k
  proof -
    have "unat (inr s + 1) mod 512 = (unat (inr s) + 1) mod 4294967296 mod 512"
      by (simp add: unat_add32)
    also have "\<dots> = (unat (inr s) + 1) mod 512" by (rule mod_mod_cancel) simp
    finally have e: "unat (inr s + 1) mod 512 = (unat (inr s) + 1) mod 512" .
    have "(unat (inr s + 1) + k) mod 512 = ((unat (inr s) + 1) mod 512 + k) mod 512"
      unfolding e [symmetric] by (rule mod_add_left_eq [symmetric])
    also have "\<dots> = (unat (inr s) + Suc k) mod 512" by (simp add: mod_add_left_eq)
    finally show ?thesis unfolding INPUT_BUF_def .
  qed
  show ?thesis
    by (simp add: pending_def n wrap upt_conv_Cons map_Suc_upt [symmetric] comp_def del: upt_Suc)
qed

text \<open>
  C23: \<^verbatim>\<open>console_read\<close> refines a queue of lines: it takes the next line, or the part of it that fits,
  from the bytes waiting in the input ring, in order and each once, whatever the position of the
  indices in the ring and across their wrap-around; if the bytes waiting hold neither a newline nor
  as many bytes as asked for, it never returns.
\<close>

theorem console_read_line:
  "(case read_line (nat n) (pending s) of
      None \<Rightarrow> console_read n s = Inl Hang
    | Some l \<Rightarrow> \<exists>s'. console_read n s = Inr (int (length l), l, s') \<and> pending s = l @ pending s')"
proof -
  have "(case read_line k (pending s) of
      None \<Rightarrow> console_read_loop k s = Inl Hang
    | Some l \<Rightarrow> \<exists>s'. console_read_loop k s = Inr (l, s') \<and> pending s = l @ pending s')" for k
  proof (induction k arbitrary: s)
    case 0
    then show ?case by simp
  next
    case (Suc k)
    show ?case
    proof (cases "inr s = inw s")
      case True
      then show ?thesis by (simp add: pending_def)
    next
      case False
      let ?s1 = "s\<lparr>inr := inr s + 1\<rparr>"
      from False Suc [of ?s1] show ?thesis
        by (auto simp: pending_step Let_def split: option.splits)
    qed
  qed
  from this [of "nat n"] show ?thesis
    by (auto simp: console_read_def split: option.splits)
qed

end
