(* ===== verification/Bio.thy ===== *)
theory Bio
  imports Arm
begin

text \<open>
  Disk buffers (\<^verbatim>\<open>buf.h\<close>) and the ring of buffers that \<^verbatim>\<open>b_init\<close> of \<^verbatim>\<open>bio.c\<close> builds; the rest of that
  file is commented out. Buffers are numbered, the list head is number \<^verbatim>\<open>NBUF\<close>.
\<close>

section \<open>buf.h\<close>

definition B_BUSY :: u32 where "B_BUSY = 1"
definition B_VALID :: u32 where "B_VALID = 2"
definition B_DIRTY :: u32 where "B_DIRTY = 4"

record buf =
  bflags :: u32
  bdev :: u32
  bsector :: u32
  bprev :: nat
  bnext :: nat
  bqnext :: "nat option"
  bdata :: "u8 list"

section \<open>bio.c\<close>

definition NBUF :: nat where "NBUF = 10"

record bcache =
  bc_lock :: spinlock
  bufs :: "nat \<Rightarrow> buf"

definition bc_head :: nat where "bc_head = NBUF"

definition set_prev :: "nat \<Rightarrow> nat \<Rightarrow> bcache \<Rightarrow> bcache" where
  "set_prev i v bc = bc\<lparr>bufs := (bufs bc)(i := (bufs bc i)\<lparr>bprev := v\<rparr>)\<rparr>"

definition set_next :: "nat \<Rightarrow> nat \<Rightarrow> bcache \<Rightarrow> bcache" where
  "set_next i v bc = bc\<lparr>bufs := (bufs bc)(i := (bufs bc i)\<lparr>bnext := v\<rparr>)\<rparr>"

definition set_dev :: "nat \<Rightarrow> u32 \<Rightarrow> bcache \<Rightarrow> bcache" where
  "set_dev i v bc = bc\<lparr>bufs := (bufs bc)(i := (bufs bc i)\<lparr>bdev := v\<rparr>)\<rparr>"

text \<open>The body of the loop: put buffer \<open>b\<close> behind the head.\<close>

definition b_init_step :: "nat \<Rightarrow> bcache \<Rightarrow> bcache" where
  "b_init_step b bc =
     (let bc = set_next b (bnext (bufs bc bc_head)) bc;
          bc = set_prev b bc_head bc;
          bc = set_dev b (- 1) bc;
          bc = set_prev (bnext (bufs bc bc_head)) b bc
      in set_next bc_head b bc)"

definition b_init :: "bcache \<Rightarrow> bcache" where
  "b_init bc =
     (let bc = bc\<lparr>bc_lock := init_lock (bc_lock bc) ''bcache''\<rparr>;
          bc = set_prev bc_head bc_head bc;
          bc = set_next bc_head bc_head bc
      in fold b_init_step [0..<NBUF] bc)"

section \<open>The ring\<close>

text \<open>From the head, following \<^verbatim>\<open>next\<close> visits \<open>xs\<close> and returns to the head; \<^verbatim>\<open>prev\<close> goes back.\<close>

definition linked :: "bcache \<Rightarrow> nat list \<Rightarrow> bool" where
  "linked bc l \<longleftrightarrow> (\<forall>i. Suc i < length l \<longrightarrow>
     bnext (bufs bc (l ! i)) = l ! Suc i \<and> bprev (bufs bc (l ! Suc i)) = l ! i)"

definition bring :: "bcache \<Rightarrow> nat list \<Rightarrow> bool" where
  "bring bc xs \<longleftrightarrow> distinct xs \<and> bc_head \<notin> set xs \<and> linked bc (bc_head # xs @ [bc_head])"

lemma linked_Cons:
  "linked bc (a # b # l) \<longleftrightarrow> bnext (bufs bc a) = b \<and> bprev (bufs bc b) = a \<and> linked bc (b # l)"
  by (auto simp: linked_def less_Suc_eq_0_disj nth_Cons split: nat.splits)

lemma linked_cong:
  assumes "linked bc l"
    and "\<And>i. Suc i < length l \<Longrightarrow> bnext (bufs bc' (l ! i)) = bnext (bufs bc (l ! i))"
    and "\<And>i. Suc i < length l \<Longrightarrow> bprev (bufs bc' (l ! Suc i)) = bprev (bufs bc (l ! Suc i))"
  shows "linked bc' l"
  using assms by (simp add: linked_def)

lemma bring_insert:
  assumes "bring bc xs" and "b \<notin> set xs" and "b \<noteq> bc_head"
  shows "bring (b_init_step b bc) (b # xs)"
proof -
  obtain y ys where l: "xs @ [bc_head] = y # ys" by (cases xs) auto
  have y: "bnext (bufs bc bc_head) = y" "linked bc (y # ys)"
    using assms(1) l by (auto simp: bring_def linked_Cons)
  have yb: "y \<noteq> b" using l assms(2,3) by (cases xs) auto
  let ?bc = "b_init_step b bc"
  have head: "bnext (bufs ?bc bc_head) = b" "bprev (bufs ?bc b) = bc_head" "bnext (bufs ?bc b) = y"
    "bprev (bufs ?bc y) = b"
    using assms(3) yb y(1)
    by (auto simp: b_init_step_def Let_def set_prev_def set_next_def set_dev_def)
  have nx: "bnext (bufs ?bc z) = bnext (bufs bc z)" if "z \<noteq> b" "z \<noteq> bc_head" for z
    using that by (auto simp: b_init_step_def Let_def set_prev_def set_next_def set_dev_def)
  have pv: "bprev (bufs ?bc z) = bprev (bufs bc z)" if "z \<noteq> b" "z \<noteq> y" for z
    using that y(1) assms(3)
    by (auto simp: b_init_step_def Let_def set_prev_def set_next_def set_dev_def)
  have dist: "distinct (y # ys)" "b \<notin> set (y # ys)"
    using assms unfolding l [symmetric] by (auto simp: bring_def)
  have "linked ?bc (y # ys)"
  proof (rule linked_cong [OF y(2)])
    fix i assume i: "Suc i < length (y # ys)"
    have "last (y # ys) = bc_head" using l by (metis last_snoc)
    then have "(y # ys) ! (length (y # ys) - 1) = bc_head" by (metis last_conv_nth list.discI)
    moreover have "(y # ys) ! i \<noteq> (y # ys) ! (length (y # ys) - 1)"
      using i nth_eq_iff_index_eq [OF dist(1), of i "length (y # ys) - 1"] by simp
    ultimately have "(y # ys) ! i \<noteq> bc_head" by simp
    moreover have "(y # ys) ! i \<noteq> b" using dist(2) i nth_mem [of i "y # ys"] by auto
    ultimately show "bnext (bufs ?bc ((y # ys) ! i)) = bnext (bufs bc ((y # ys) ! i))" by (intro nx)
    have "(y # ys) ! Suc i \<noteq> b" using dist(2) i nth_mem [of "Suc i" "y # ys"] by auto
    moreover have "(y # ys) ! Suc i \<noteq> y"
      using i nth_eq_iff_index_eq [OF dist(1), of "Suc i" 0] by simp
    ultimately show "bprev (bufs ?bc ((y # ys) ! Suc i)) = bprev (bufs bc ((y # ys) ! Suc i))" by (intro pv)
  qed
  then have "linked ?bc (bc_head # (b # xs) @ [bc_head])" using head l by (simp add: linked_Cons)
  then show ?thesis using assms by (simp add: bring_def)
qed

lemma b_init_step_dev: "bdev (bufs (b_init_step b bc) i) = (if i = b then - 1 else bdev (bufs bc i))"
  by (simp add: b_init_step_def Let_def set_prev_def set_next_def set_dev_def)

lemma fold_b_init:
  assumes "bring bc []" and "n \<le> NBUF"
  shows "bring (fold b_init_step [0..<n] bc) (rev [0..<n])
    \<and> (\<forall>i < n. bdev (bufs (fold b_init_step [0..<n] bc) i) = - 1)"
  using assms(2)
proof (induction n)
  case 0
  then show ?case using assms(1) by simp
next
  case (Suc n)
  let ?bc = "fold b_init_step [0..<n] bc"
  have "bring (b_init_step n ?bc) (n # rev [0..<n])"
    using Suc by (intro bring_insert) (simp_all add: bc_head_def)
  moreover have "bdev (bufs (b_init_step n ?bc) i) = - 1" if "i < Suc n" for i
    using Suc that by (auto simp: b_init_step_dev less_Suc_eq)
  ultimately show ?case by simp
qed

lemma b_init_bring:
  "bring (b_init bc) (rev [0..<NBUF]) \<and> (\<forall>i. i < NBUF \<longrightarrow> bdev (bufs (b_init bc) i) = - 1)
   \<and> locked (bc_lock (b_init bc)) = 0"
proof -
  let ?bc = "set_next bc_head bc_head (set_prev bc_head bc_head (bc\<lparr>bc_lock := init_lock (bc_lock bc) ''bcache''\<rparr>))"
  have "bring ?bc []" by (simp add: bring_def linked_def set_next_def set_prev_def less_Suc_eq)
  from fold_b_init [OF this order_refl]
  have r: "bring (b_init bc) (rev [0..<NBUF])" "\<forall>i < NBUF. bdev (bufs (b_init bc) i) = - 1"
    by (simp_all add: b_init_def Let_def)
  have "bc_lock (fold b_init_step is c) = bc_lock c" for "is" c
    by (induction "is" arbitrary: c) (simp_all add: b_init_step_def Let_def set_prev_def set_next_def set_dev_def)
  then have "locked (bc_lock (b_init bc)) = 0"
    by (simp add: b_init_def Let_def init_lock_def set_prev_def set_next_def)
  with r show ?thesis by simp
qed

text \<open>
  \<^verbatim>\<open>b_init\<close> builds a proper ring: from the head, \<^verbatim>\<open>next\<close> visits every buffer exactly once, the last
  one first, and returns to the head, \<^verbatim>\<open>prev\<close> is its inverse, and no buffer is assigned to a device.
\<close>

lemma b_init_ring:
  "bring (b_init bc) (rev [0..<NBUF]) \<and> (\<forall>i. i < NBUF \<longrightarrow> bdev (bufs (b_init bc) i) = - 1)
   \<and> locked (bc_lock (b_init bc)) = 0"
  by (rule b_init_bring)

end
