(* ===== verification/Boot.thy ===== *)
theory Boot
  imports Irq Console Bio
begin

text \<open>
  The boot sequence: \<^verbatim>\<open>main\<close> of \<^verbatim>\<open>main.c\<close> and the remaining one-line initialisers it calls
  (\<^verbatim>\<open>p_init\<close>, \<^verbatim>\<open>file_init\<close>, \<^verbatim>\<open>i_init\<close>, \<^verbatim>\<open>ide_init\<close>), composed in the order of the code. Each step runs on
  the translation that is in force when it starts.
\<close>

section \<open>State\<close>

record machine =
  msys :: isys
  mcons :: cons_state
  mbc :: bcache
  ptable_lock :: spinlock
  ftable_lock :: spinlock
  icache_lock :: spinlock
  ide_lock :: spinlock
  kpgdir :: u32
  ttbr :: u32

definition p_init :: "machine \<Rightarrow> machine" where
  "p_init m = m\<lparr>ptable_lock := init_lock (ptable_lock m) ''ptable''\<rparr>"

definition file_init :: "machine \<Rightarrow> machine" where
  "file_init m = m\<lparr>ftable_lock := init_lock (ftable_lock m) ''ftable''\<rparr>"

definition i_init :: "machine \<Rightarrow> machine" where
  "i_init m = m\<lparr>icache_lock := init_lock (icache_lock m) ''icache''\<rparr>"

text \<open>The loop that sets \<^verbatim>\<open>r\<close> is commented out, so that \<^verbatim>\<open>idewait\<close> reads it unset unless \<^verbatim>\<open>checkerr\<close> is 0.\<close>

definition idewait :: "int \<Rightarrow> int res" where
  "idewait checkerr = (if checkerr \<noteq> 0 then Inl Undefined else Inr 0)"

definition ide_init :: "machine \<Rightarrow> machine" where
  "ide_init m = m\<lparr>ide_lock := init_lock (ide_lock m) ''ide''\<rparr>"

section \<open>main\<close>

definition upd_ks :: "(kstate \<Rightarrow> kstate) \<Rightarrow> machine \<Rightarrow> machine" where
  "upd_ks f m = m\<lparr>msys := (msys m)\<lparr>ks := f (ks (msys m))\<rparr>\<rparr>"

definition mputs :: "string \<Rightarrow> machine \<Rightarrow> machine" where
  "mputs str m = upd_ks (puts str) m"

text \<open>The kernel's translation once the table base register is set.\<close>

definition mtrans :: "machine \<Rightarrow> trans" where
  "mtrans m = table_translate (ttbr m) (pmem (ks (msys m)))"

definition on_ks :: "(kstate \<Rightarrow> kstate res) \<Rightarrow> machine \<Rightarrow> machine res" where
  "on_ks f m = bindR (f (ks (msys m))) (\<lambda>k. Inr (upd_ks (\<lambda>_. k) m))"

definition on_sys :: "(isys \<Rightarrow> isys res) \<Rightarrow> machine \<Rightarrow> machine res" where
  "on_sys f m = bindR (f (msys m)) (\<lambda>s. Inr (m\<lparr>msys := s\<rparr>))"

definition run_kvmalloc :: "target \<Rightarrow> u32 \<Rightarrow> u32 \<Rightarrow> u32 \<Rightarrow> machine \<Rightarrow> machine res" where
  "run_kvmalloc t kdata kend pgdir m =
     bindR (kvmalloc t (entry_translate t) kdata kend pgdir (ks (msys m))) (\<lambda>r.
       case r of (kp, tb, k) \<Rightarrow> Inr (upd_ks (\<lambda>_. k) (m\<lparr>kpgdir := kp, ttbr := tb\<rparr>)))"

text \<open>The stretch of \<^verbatim>\<open>main\<close> from \<^verbatim>\<open>console_init\<close> to \<^verbatim>\<open>ide_init\<close>, which touches no page table.\<close>

definition main_tables :: "machine \<Rightarrow> machine" where
  "main_tables m =
     (let m = mputs (NL @ ''console_init OK'' @ NL) (m\<lparr>mcons := console_init (mcons m)\<rparr>);
          m = mputs (''pinit OK'' @ NL @ NL) (p_init m);
          m = mputs (''binit OK'' @ NL) (m\<lparr>mbc := b_init (mbc m)\<rparr>);
          m = mputs (''file init OK'' @ NL @ NL) (file_init m);
          m = mputs (''inode init OK'' @ NL @ NL) (i_init m)
      in mputs (''IDE disk unit Ok '' @ NL @ NL) (ide_init m))"

text \<open>
  \<^verbatim>\<open>main\<close> up to its endless loop. \<open>labels\<close> are the trap entry points of the assembly file. The
  assignment of \<^verbatim>\<open>cpu\<close> to itself, which opens the routine, changes nothing.
\<close>

definition main :: "target \<Rightarrow> u32 \<Rightarrow> u32 \<Rightarrow> u32 \<Rightarrow> u32 list \<Rightarrow> machine \<Rightarrow> machine res" where
  "main t kdata kend pgdir labels m =
     bindR (on_ks (kinit1 (entry_translate t) kend kend (p2v (4 * 1024 * 1024))) m) (\<lambda>m.
     let m = mputs (NL @ ''kinit1 OK'' @ NL) m in
     bindR (run_kvmalloc t kdata kend pgdir m) (\<lambda>m.
     let m = mputs (NL @ ''kvmalloc OK'' @ NL) m in
     bindR (on_sys (trap_init (mtrans m) labels) m) (\<lambda>m.
     let m = mputs (NL @ ''trap_init OK'' @ NL) m in
     bindR (on_sys (pic_init (mtrans m)) m) (\<lambda>m.
     let m = main_tables (mputs (NL @ ''pic_init OK'' @ NL) m) in
     bindR (on_sys (timer_init (mtrans m)) m) (\<lambda>m.
     let m = mputs (''timer init OK'' @ NL @ NL) m in
     bindR (on_ks (kinit2 (mtrans m) kend (p2v (4 * 1024 * 1024)) (p2v PHYSTOP)) m) (\<lambda>m.
     Inr (mputs (''kinit2 OK'' @ NL @ NL) m)))))))"

section \<open>Device pages of the kernel map\<close>

lemma kernel_map_device:
  assumes "k < 1024" and "unat a mod 4096 = 0" and "unat a + 4096 \<le> unat KERNBASE \<or> unat (p2v PHYSTOP) \<le> unat a"
  shows "kernel_map t v (a + 4 * word_of_nat k) =
    (if a = UART0_BASE_V t then Some (UART0_BASE_P t + 4 * word_of_nat k)
     else if a = VEC_TBL then Some (v2p v + 4 * word_of_nat k)
     else if a = VIC_BASE \<or> a = TIMER_BASE then Some (a + 4 * word_of_nat k) else None)"
proof -
  let ?va = "a + 4 * word_of_nat k"
  have p: "PGROUNDDOWN ?va = a" by (rule PGROUNDDOWN_offset [OF assms(2,1)])
  then have "\<not> (KERNBASE \<le> ?va \<and> ?va < p2v PHYSTOP)"
    using not_kernel_page [OF assms(2,3), of ?va] by (auto simp: word_le_nat_alt word_less_nat_alt)
  then have "kernel_map t v ?va =
     (if a = UART0_BASE_V t then Some (UART0_BASE_P t + (?va - UART0_BASE_V t))
      else if a = VEC_TBL then Some (v2p v + (?va - VEC_TBL))
      else if a = VIC_BASE \<or> a = TIMER_BASE then Some ?va else None)"
    unfolding kernel_map_def p by (simp only: if_False)
  moreover have "?va - a = 4 * word_of_nat k" by (rule add_diff_cancel_left')
  ultimately show ?thesis by presburger
qed

lemma vec_mapped: "mapped (kernel_map t v) VEC_TBL (v2p v) 16"
  unfolding mapped_def
proof (intro allI impI)
  fix k :: nat assume "k < 16"
  then have "k < 1024" by simp
  moreover have "VEC_TBL \<noteq> UART0_BASE_V t" by (cases t) (simp_all add: VEC_TBL_def)
  ultimately show "kernel_map t v (VEC_TBL + 4 * word_of_nat k) = Some (v2p v + 4 * word_of_nat k)"
    using KERN_unat by (subst kernel_map_device) (simp_all add: VEC_TBL_def)
qed

lemma device_identity:
  assumes "r < 1024" and "a = VIC_BASE \<or> a = TIMER_BASE"
  shows "kernel_map t v (a + 4 * r) = Some (a + 4 * r)"
proof -
  have "unat r < 1024" using assms(1) by (simp add: word_less_nat_alt)
  moreover have "a \<noteq> UART0_BASE_V t" "a \<noteq> VEC_TBL"
    using assms(2) by (cases t; auto simp: VEC_TBL_def VIC_BASE_def TIMER_BASE_def)+
  moreover have "unat a mod 4096 = 0" "unat a + 4096 \<le> unat KERNBASE \<or> unat (p2v PHYSTOP) \<le> unat a"
    using assms(2) KERN_unat by (auto simp: VIC_BASE_def TIMER_BASE_def)
  ultimately show ?thesis
    using kernel_map_device [of "unat r" a t v] assms(2) by simp
qed

lemma vic_mapped_kernel: "vic_mapped (kernel_map t v)"
  using device_identity unfolding vic_mapped_def by blast

section \<open>The steps\<close>

text \<open>What holds of the kernel's memory once \<^verbatim>\<open>kvmalloc\<close> has run.\<close>

definition kvm_inv :: "target \<Rightarrow> u32 \<Rightarrow> u32 \<Rightarrow> u32 \<Rightarrow> u32 list \<Rightarrow> (u32 \<rightharpoonup> u32) \<Rightarrow> kstate \<Rightarrow> bool" where
  "kvm_inv t kend pd v ys T k \<longleftrightarrow>
     pt_inv (entry_translate t) kend pd k ys T \<and> low_page kend v \<and> v \<notin> set ys \<union> ran T \<and>
     table_translate (v2p pd) (pmem k) = kernel_map t v"

lemma kvm_inv_puts [simp]: "kvm_inv t kend pd v ys T (puts str k) = kvm_inv t kend pd v ys T k"
  by (simp add: kvm_inv_def)

lemma kvm_inv_kmem: "kvm_inv t kend pd v ys T k \<Longrightarrow> kmem_inv (kernel_map t v) kend k ys"
proof -
  assume k: "kvm_inv t kend pd v ys T k"
  then have i: "pt_inv (entry_translate t) kend pd k ys T" by (simp add: kvm_inv_def)
  show ?thesis
  proof (rule kmem_inv_switch)
    show "kmem_inv (entry_translate t) kend k ys" using i by (simp add: pt_inv_def)
    show "\<forall>x \<in> set ys. direct (kernel_map t v) x"
    proof
      fix x assume "x \<in> set ys"
      then have "kpage kend x" using pt_inv_low [OF i, of x] by (simp add: low_page_def)
      then show "direct (kernel_map t v) x" by (rule direct_kpage)
    qed
  qed
qed

lemma kvm_inv_frame:
  assumes k: "kvm_inv t kend pd v ys T k" and pd: "pd_ok kend pd"
    and m: "\<And>a. p2v (PGROUNDDOWN a) \<noteq> v \<Longrightarrow> m a = pmem k a"
  shows "kvm_inv t kend pd v ys T (k\<lparr>pmem := m\<rparr>)"
proof -
  have i: "pt_inv (entry_translate t) kend pd k ys T" and v: "low_page kend v" "v \<notin> set ys \<union> ran T"
    using k by (auto simp: kvm_inv_def)
  have pde: "m (v2p pd + 4 * j) = pmem k (v2p pd + 4 * j)" if "unat j < 4096" for j
    by (rule m [OF pd_page_disjoint [OF pd v(1) that]])
  have "m (v2p y) = pmem k (v2p y)" if "y \<in> set ys" for y
  proof (rule m)
    have "low_page kend y" using pt_inv_low [OF i] that by simp
    then have "p2v (PGROUNDDOWN (v2p y)) = y"
      using PGROUNDDOWN_aligned [OF low_page_facts(2)] by (simp add: p2v_def v2p_def)
    then show "p2v (PGROUNDDOWN (v2p y)) \<noteq> v" using v(2) that by auto
  qed
  then have "kmem_inv (entry_translate t) kend (k\<lparr>pmem := m\<rparr>) ys"
    using i by (intro kmem_inv_frame) (simp_all add: pt_inv_def)
  then have "pt_inv (entry_translate t) kend pd (k\<lparr>pmem := m\<rparr>) ys T"
    using i pde by (simp add: pt_inv_def)
  moreover have "table_translate (v2p pd) m = table_translate (v2p pd) (pmem k)"
  proof (rule translate_stable [OF i])
    fix a assume "a \<in> words (v2p pd) 4096 \<or> p2v (PGROUNDDOWN a) \<in> ran T"
    then show "m a = pmem k a" using pd_word_entry [of a pd] pde m [of a] v(2) by auto
  qed
  ultimately show ?thesis using k by (simp add: kvm_inv_def)
qed

lemma trap_init_step:
  assumes k: "kvm_inv t kend pd v ys T (ks s)" and pd: "pd_ok kend pd" and l: "length labels = 8"
  shows "\<exists>s'. trap_init (kernel_map t v) labels s = Inr s' \<and> kvm_inv t kend pd v ys T (ks s')
    \<and> use_lock (ks s') = use_lock (ks s)"
proof -
  from trap_init_writes [OF vec_mapped l, of t v s] obtain m where m:
    "trap_init (kernel_map t v) labels s = Inr (sys_puts (''create the exception table done.'' @ NL)
      (s\<lparr>sctlr := sctlr s OR 0x2000, ks := (ks s)\<lparr>pmem := m\<rparr>\<rparr>))" (is "_ = Inr ?s'")
    "\<forall>x. x \<notin> words (v2p v) 16 \<longrightarrow> m x = pmem (ks s) x" by blast
  have v: "unat (v2p v) mod 4096 = 0" using k low_page_facts(2) by (auto simp: kvm_inv_def)
  have "kvm_inv t kend pd v ys T ((ks s)\<lparr>pmem := m\<rparr>)"
  proof (rule kvm_inv_frame [OF k pd])
    fix a assume a: "p2v (PGROUNDDOWN a) \<noteq> v"
    have "words (v2p v) 16 \<subseteq> words (v2p v) 1024" unfolding words_def by (rule image_mono) auto
    then have "a \<notin> words (v2p v) 16"
      using a words_page [OF v, of a] by (auto simp: p2v_def v2p_def)
    then show "m a = pmem (ks s) a" using m(2) by simp
  qed
  then have "kvm_inv t kend pd v ys T (ks ?s')" by (simp add: sys_puts_def)
  moreover have "use_lock (ks ?s') = use_lock (ks s)" by (simp add: sys_puts_def puts_def)
  ultimately show ?thesis using m(1) by blast
qed

lemma pic_abs_timer:
  assumes "pic_abs m0 s f" and "fst w = TIMER_BASE + 4 * 0 \<or> fst w = TIMER_BASE + 4 * 2"
  shows "pic_abs m0 (s\<lparr>devs := mmio_write (fst w) (snd w) (devs s)\<rparr>) f"
proof -
  have "vic_step (fst w, snd w) m = m" for m
    using assms(2) by (auto simp: vic_step_def TIMER_BASE_def VIC_BASE_def)
  then show ?thesis using assms(1) by (simp add: pic_abs_def mmio_write_def vic_mask_snoc)
qed

lemma timer_init_step:
  assumes "pic_abs m0 s f"
  shows "\<exists>s'. timer_init (kernel_map t v) s = Inr s' \<and> pic_abs m0 s' (f(4 \<mapsto> Isr_timer)) \<and> ks s' = ks s"
proof -
  let ?tr = "kernel_map t v"
  let ?w = "TIMER_EN OR TIMER_PERIODIC OR TIMER_32BIT OR TIMER_INTEN"
  let ?s1 = "s\<lparr>timerlock := init_lock (timerlock s) ''time''\<rparr>"
  let ?s2 = "?s1\<lparr>devs := mmio_write (TIMER_BASE + 4 * 0) 1 (devs ?s1)\<rparr>"
  let ?s3 = "?s2\<lparr>devs := mmio_write (TIMER_BASE + 4 * 0) CLK_HZ (devs ?s2)\<rparr>"
  let ?s4 = "?s3\<lparr>devs := mmio_write (TIMER_BASE + 4 * 2) ?w (devs ?s3)\<rparr>"
  have "?tr (TIMER_BASE + 4 * 0) = Some (TIMER_BASE + 4 * 0)" "?tr (TIMER_BASE + 4 * 2) = Some (TIMER_BASE + 4 * 2)"
    by (rule device_identity; simp)+
  then have run: "timer_init ?tr s = pic_enable ?tr PIC_TIMER01 Isr_timer ?s4"
    unfolding timer_init_def dev_store_def TIMER_LOAD_def TIMER_CONTROL_def Let_def
    by (simp only: option.case bindR_simps)
  have "pic_abs m0 ?s1 f" using assms by (simp add: pic_abs_def)
  from pic_abs_timer [OF this, of "(TIMER_BASE + 4 * 0, 1)"]
  have "pic_abs m0 ?s2 f" by simp
  from pic_abs_timer [OF this, of "(TIMER_BASE + 4 * 0, CLK_HZ)"]
  have "pic_abs m0 ?s3 f" by simp
  from pic_abs_timer [OF this, of "(TIMER_BASE + 4 * 2, ?w)"]
  have "pic_abs m0 ?s4 f" by simp
  from pic_enable_abs [OF vic_mapped_kernel this, of 4 t v Isr_timer]
  show ?thesis unfolding run PIC_TIMER01_def by auto
qed

lemma high_pages:
  assumes "x \<in> set (pages (p2v 0x400000) (npages (p2v 0x400000) (p2v PHYSTOP)))"
  shows "unat (p2v 0x400000) \<le> unat x" and "v2p x < PHYSTOP"
proof -
  have u: "unat (p2v 0x400000) = 3225419776" by (simp add: p2v_def KERNBASE_def)
  then have e: "unat (p2v 0x400000) + 4096 * npages (p2v 0x400000) (p2v PHYSTOP) = unat (p2v PHYSTOP)"
    by (intro npages_end) (simp_all add: KERN_unat)
  have "unat (p2v 0x400000) + 4096 * npages (p2v 0x400000) (p2v PHYSTOP) \<le> 4294967296"
    "unat (p2v 0x400000) mod 4096 = 0"
    using e u KERN_unat by simp_all
  note i = in_pages [OF this assms]
  show "unat (p2v 0x400000) \<le> unat x" by (rule i)
  have "kpage (p2v 0x400000) x" using i e u KERN_unat by (intro kpage_range) linarith+
  then show "v2p x < PHYSTOP" by (simp add: kpage_def)
qed

lemma kinit2_step:
  assumes k: "kvm_inv t kend pd v ys T k" and pd: "pd_ok kend pd"
  shows "\<exists>k'. kinit2 (kernel_map t v) kend (p2v 0x400000) (p2v PHYSTOP) k = Inr k' \<and> use_lock k'
    \<and> kmem_inv (kernel_map t v) kend k' (rev (pages (p2v 0x400000) (npages (p2v 0x400000) (p2v PHYSTOP))) @ ys)
    \<and> table_translate (v2p pd) (pmem k') = kernel_map t v"
proof -
  let ?tr = "kernel_map t v" and ?P = "pages (p2v 0x400000) (npages (p2v 0x400000) (p2v PHYSTOP))"
  let ?k = "puts (''kinit2'' @ NL) k"
  have u: "unat (p2v 0x400000) = unat KERNBASE + 0x400000" by (simp add: p2v_def KERNBASE_def)
  have i: "pt_inv (entry_translate t) kend pd k ys T" using k by (simp add: kvm_inv_def)
  have below: "unat x < unat (p2v 0x400000)" if "x \<in> set ys \<union> ran T" for x
    using pt_inv_low [OF i that] u unfolding low_page_def by linarith
  have "\<exists>k'. freerange ?tr kend (p2v 0x400000) (p2v PHYSTOP) ?k = Inr k'
    \<and> kmem_inv ?tr kend k' (rev ?P @ ys)
    \<and> con k' = con ?k @ ''freerange'' @ NL \<and> use_lock k' = use_lock ?k
    \<and> (\<forall>a. p2v (PGROUNDDOWN a) \<notin> set ?P \<longrightarrow> pmem k' a = pmem ?k a)"
  proof (rule freerange_range)
    show "kmem_inv ?tr kend ?k ys" using kvm_inv_kmem [of t kend pd v ys T ?k] k by simp
    show "unat (p2v 0x400000) mod 4096 = 0" "unat (p2v PHYSTOP) mod 4096 = 0"
      "unat KERNBASE \<le> unat (p2v 0x400000)" "unat (p2v 0x400000) \<le> unat (p2v PHYSTOP)"
      "unat (p2v PHYSTOP) \<le> unat KERNBASE + 0x2000000"
      unfolding u by (simp_all add: KERN_unat)
    show "unat kend \<le> unat (p2v 0x400000)" using pd u by (simp add: pd_ok_def)
    show "direct ?tr x" if "unat x mod 4096 = 0" "unat (p2v 0x400000) \<le> unat x"
      "unat x + 4096 \<le> unat (p2v PHYSTOP)" for x
      using that u by (intro direct_kernel_map) linarith+
  qed (use below in simp)
  then obtain k1 where k1: "freerange ?tr kend (p2v 0x400000) (p2v PHYSTOP) ?k = Inr k1"
    "kmem_inv ?tr kend k1 (rev ?P @ ys)" "\<forall>a. p2v (PGROUNDDOWN a) \<notin> set ?P \<longrightarrow> pmem k1 a = pmem k a"
    by auto
  have "table_translate (v2p pd) (pmem k1) = table_translate (v2p pd) (pmem k)"
  proof (rule translate_stable [OF i])
    fix a assume a: "a \<in> words (v2p pd) 4096 \<or> p2v (PGROUNDDOWN a) \<in> ran T"
    have "p2v (PGROUNDDOWN a) \<notin> set ?P"
    proof
      assume p: "p2v (PGROUNDDOWN a) \<in> set ?P"
      note h = high_pages [OF p]
      with below have "p2v (PGROUNDDOWN a) \<notin> ran T" by force
      with a obtain j where j: "unat j < 4096" "a = v2p pd + 4 * j" using pd_word_entry by blast
      have "v2p (p2v (PGROUNDDOWN a)) = PGROUNDDOWN a" by (simp add: v2p_def p2v_def)
      then have "0x400000 \<le> unat (PGROUNDDOWN a)"
        using unat_v2p_small(1) [OF h(2)] h(1) u KERN_unat by simp
      moreover have "unat (PGROUNDDOWN a) \<le> unat a" by (simp add: unat_PGROUNDDOWN)
      moreover have "unat a < unat (v2p kend)" using pd_entry(4) [OF pd j(1)] j(2) by simp
      moreover have "unat (v2p kend) \<le> 0x400000"
        using pd unat_sub32 [of kend KERNBASE] by (simp add: v2p_def pd_ok_def) linarith
      ultimately show False by linarith
    qed
    then show "pmem k1 a = pmem k a" using k1(3) by simp
  qed
  moreover have "kmem_inv ?tr kend (k1\<lparr>use_lock := True\<rparr>) (rev ?P @ ys)"
    using k1(2) by (simp add: kmem_inv_def)
  ultimately show ?thesis using k1(1) k by (simp add: kinit2_def kvm_inv_def)
qed

section \<open>The boot theorem\<close>

text \<open>The machine as the assembly entry hands it to \<^verbatim>\<open>main\<close>: zeroed variables, any memory.\<close>

definition boot_ready :: "machine \<Rightarrow> bool" where
  "boot_ready m \<longleftrightarrow> freelist (ks (msys m)) = 0 \<and> (\<exists>p d. cli_at p d (kcpu (ks (msys m))))"

text \<open>What the boot sequence leaves behind.\<close>

definition booted :: "target \<Rightarrow> u32 \<Rightarrow> u32 \<Rightarrow> u32 \<Rightarrow> machine \<Rightarrow> bool" where
  "booted t kend pd m0 m \<longleftrightarrow>
     kpgdir m = pd \<and> ttbr m = v2p pd \<and>
     (\<exists>v ys. low_page kend v \<and> (\<forall>va. mtrans m va = kernel_map t v va) \<and>
       kmem_inv (mtrans m) kend (ks (msys m)) (rev (pages (p2v 0x400000) 7168) @ ys) \<and> v \<notin> set ys) \<and>
     use_lock (ks (msys m)) \<and> pic_abs m0 (msys m) [4 \<mapsto> Isr_timer] \<and> bring (mbc m) (rev [0..<NBUF])"

lemma upd_ks_simps [simp]:
  "ks (msys (upd_ks f m)) = f (ks (msys m))" "ttbr (upd_ks f m) = ttbr m" "kpgdir (upd_ks f m) = kpgdir m"
  "mbc (upd_ks f m) = mbc m" "mcons (upd_ks f m) = mcons m"
  "pic_abs m0 (msys (upd_ks f m)) g = pic_abs m0 (msys m) g"
  by (simp_all add: upd_ks_def pic_abs_def)

lemma mputs_simps [simp]:
  "ks (msys (mputs str m)) = puts str (ks (msys m))" "ttbr (mputs str m) = ttbr m"
  "kpgdir (mputs str m) = kpgdir m" "mbc (mputs str m) = mbc m" "mcons (mputs str m) = mcons m"
  "pic_abs m0 (msys (mputs str m)) g = pic_abs m0 (msys m) g" "mtrans (mputs str m) = mtrans m"
  by (simp_all add: mputs_def mtrans_def)

lemma init_locks_simps [simp]:
  "msys (p_init m) = msys m" "ttbr (p_init m) = ttbr m" "kpgdir (p_init m) = kpgdir m" "mbc (p_init m) = mbc m"
  "msys (file_init m) = msys m" "ttbr (file_init m) = ttbr m" "kpgdir (file_init m) = kpgdir m" "mbc (file_init m) = mbc m"
  "msys (i_init m) = msys m" "ttbr (i_init m) = ttbr m" "kpgdir (i_init m) = kpgdir m" "mbc (i_init m) = mbc m"
  "msys (ide_init m) = msys m" "ttbr (ide_init m) = ttbr m" "kpgdir (ide_init m) = kpgdir m" "mbc (ide_init m) = mbc m"
  by (simp_all add: p_init_def file_init_def i_init_def ide_init_def)

text \<open>The invariant of a machine whose memory satisfies \<open>kvm_inv\<close>.\<close>

definition minv :: "target \<Rightarrow> u32 \<Rightarrow> u32 \<Rightarrow> u32 \<Rightarrow> u32 list \<Rightarrow> (u32 \<rightharpoonup> u32) \<Rightarrow> machine \<Rightarrow> bool" where
  "minv t kend pd v ys T m \<longleftrightarrow>
     kvm_inv t kend pd v ys T (ks (msys m)) \<and> ttbr m = v2p pd \<and> kpgdir m = pd"

lemma minv_trans: "minv t kend pd v ys T m \<Longrightarrow> mtrans m = kernel_map t v"
  by (simp add: minv_def kvm_inv_def mtrans_def)

lemma minv_puts [simp]: "minv t kend pd v ys T (mputs str m) = minv t kend pd v ys T m"
  by (simp add: minv_def)

lemma main_tables_simps:
  "minv t kend pd v ys T (main_tables m) = minv t kend pd v ys T m"
  "pic_abs m0 (msys (main_tables m)) g = pic_abs m0 (msys m) g"
  "bring (mbc (main_tables m)) (rev [0..<NBUF])"
  using b_init_bring by (simp_all add: main_tables_def Let_def minv_def)

lemma booted_puts [simp]: "booted t kend pd m0 (mputs str m) = booted t kend pd m0 m"
  by (simp add: booted_def kmem_inv_def puts_def)

lemma boot_kvm:
  assumes lay: "kernel_layout kdata kend pd" and room: "unat kend + 36 * 4096 \<le> unat (p2v 0x400000)"
    and rdy: "boot_ready m"
  shows "\<exists>m1 m2 v ys T. on_ks (kinit1 (entry_translate t) kend kend (p2v 0x400000)) m = Inr m1
    \<and> run_kvmalloc t kdata kend pd (mputs (NL @ ''kinit1 OK'' @ NL) m1) = Inr m2
    \<and> minv t kend pd v ys T m2"
proof -
  let ?xs = "rev (pages kend (npages kend (p2v 0x400000)))"
  have pd: "pd_ok kend pd" and al: "unat kend mod 4096 = 0" using lay by (simp_all add: kernel_layout_def)
  then have lo: "unat KERNBASE \<le> unat kend" by (simp add: pd_ok_def)
  have hi: "unat kend \<le> unat (p2v 0x400000)" using room by linarith
  obtain p d where "freelist (ks (msys m)) = 0" "cli_at p d (kcpu (ks (msys m)))"
    using rdy by (auto simp: boot_ready_def)
  from kinit1_pages [OF al lo hi this, of t] obtain k1 where
    k1: "kinit1 (entry_translate t) kend kend (p2v 0x400000) (ks (msys m)) = Inr k1"
    "kmem_inv (entry_translate t) kend k1 ?xs" by blast
  let ?k1 = "puts (NL @ ''kinit1 OK'' @ NL) k1"
  have inv: "kmem_inv (entry_translate t) kend ?k1 ?xs" using k1(2) by (simp add: kmem_inv_def puts_def)
  have low: "\<forall>x \<in> set ?xs. low_page kend x" using boot_pages_low [OF al lo hi] by simp
  have "unat kend + 4096 * npages kend (p2v 0x400000) = unat (p2v 0x400000)"
    by (rule npages_end [OF al _ hi]) (simp add: p2v_def KERNBASE_def)
  then have len: "36 \<le> length ?xs" using room by simp
  from kvmalloc_ok [OF lay inv low len] obtain k2 ys T where k2:
    "kvmalloc t (entry_translate t) kdata kend pd ?k1 = Inr (pd, v2p pd, k2)"
    "pt_inv (entry_translate t) kend pd k2 ys T"
    "table_translate (v2p pd) (pmem k2) = kernel_map t (hd ?xs)"
    "set ys \<union> ran T = set (tl ?xs)" by blast
  have "?xs \<noteq> []" using len by (intro notI) simp
  then have "hd ?xs \<in> set ?xs" "?xs = hd ?xs # tl ?xs" by (rule hd_in_set, simp)
  moreover have "distinct ?xs" using k1(2) by (simp add: kmem_inv_def)
  ultimately have "low_page kend (hd ?xs)" "hd ?xs \<notin> set (tl ?xs)" using low by (metis distinct.simps(2))+
  with k2 have kvm: "kvm_inv t kend pd (hd ?xs) ys T k2" unfolding kvm_inv_def by simp
  let ?m1 = "upd_ks (\<lambda>_. k1) m"
  let ?m2 = "upd_ks (\<lambda>_. k2) ((mputs (NL @ ''kinit1 OK'' @ NL) ?m1)\<lparr>kpgdir := pd, ttbr := v2p pd\<rparr>)"
  have "on_ks (kinit1 (entry_translate t) kend kend (p2v 0x400000)) m = Inr ?m1"
    using k1(1) by (simp add: on_ks_def)
  moreover have "run_kvmalloc t kdata kend pd (mputs (NL @ ''kinit1 OK'' @ NL) ?m1) = Inr ?m2"
    using k2(1) by (simp add: run_kvmalloc_def)
  moreover have "minv t kend pd (hd ?xs) ys T ?m2" using kvm by (simp add: minv_def)
  ultimately show ?thesis by blast
qed

lemma boot_traps:
  assumes m: "minv t kend pd v ys T m" and pd: "pd_ok kend pd" and l: "length labels = 8"
  shows "\<exists>m1 m2. on_sys (trap_init (mtrans m) labels) m = Inr m1 \<and> minv t kend pd v ys T m1
    \<and> on_sys (pic_init (mtrans (mputs str m1))) (mputs str m1) = Inr m2 \<and> minv t kend pd v ys T m2
    \<and> pic_abs m0 (msys m2) Map.empty"
proof -
  have k: "kvm_inv t kend pd v ys T (ks (msys m))" using m by (simp add: minv_def)
  from trap_init_step [OF k pd l] obtain s1 where s1:
    "trap_init (kernel_map t v) labels (msys m) = Inr s1" "kvm_inv t kend pd v ys T (ks s1)" by blast
  let ?m1 = "m\<lparr>msys := s1\<rparr>"
  have m1: "on_sys (trap_init (mtrans m) labels) m = Inr ?m1" "minv t kend pd v ys T ?m1"
    using s1 m by (simp_all add: on_sys_def minv_trans [OF m] minv_def)
  have m1': "minv t kend pd v ys T (mputs str ?m1)" using m1(2) by simp
  from pic_init_abs [OF vic_mapped_kernel, of t v "msys (mputs str ?m1)" m0] obtain s2 where s2:
    "pic_init (kernel_map t v) (msys (mputs str ?m1)) = Inr s2" "pic_abs m0 s2 Map.empty"
    "ks s2 = ks (msys (mputs str ?m1))" by blast
  let ?m2 = "(mputs str ?m1)\<lparr>msys := s2\<rparr>"
  have "on_sys (pic_init (mtrans (mputs str ?m1))) (mputs str ?m1) = Inr ?m2"
    using s2(1) unfolding on_sys_def minv_trans [OF m1'] by simp
  moreover have "minv t kend pd v ys T ?m2" using m1' s2(3) by (simp add: minv_def)
  ultimately show ?thesis using m1 s2(2)
    by (intro exI [of _ ?m1] exI [of _ ?m2]) simp
qed

lemma boot_timer:
  assumes m: "minv t kend pd v ys T m" and pd: "pd_ok kend pd" and a: "pic_abs m0 (msys m) Map.empty"
    and r: "bring (mbc m) (rev [0..<NBUF])"
  shows "\<exists>m1 m2. on_sys (timer_init (mtrans m)) m = Inr m1
    \<and> on_ks (kinit2 (mtrans (mputs str m1)) kend (p2v 0x400000) (p2v PHYSTOP)) (mputs str m1) = Inr m2
    \<and> booted t kend pd m0 m2"
proof -
  from timer_init_step [OF a, of t v] obtain s1 where s1:
    "timer_init (kernel_map t v) (msys m) = Inr s1" "pic_abs m0 s1 [4 \<mapsto> Isr_timer]" "ks s1 = ks (msys m)" by blast
  let ?m1 = "m\<lparr>msys := s1\<rparr>"
  have run1: "on_sys (timer_init (mtrans m)) m = Inr ?m1"
    using s1(1) by (simp add: on_sys_def minv_trans [OF m])
  have m1: "minv t kend pd v ys T (mputs str ?m1)" using m s1(3) by (simp add: minv_def)
  then have "kvm_inv t kend pd v ys T (ks (msys (mputs str ?m1)))" by (simp add: minv_def)
  from kinit2_step [OF this pd] obtain k2 where k2:
    "kinit2 (kernel_map t v) kend (p2v 0x400000) (p2v PHYSTOP) (ks (msys (mputs str ?m1))) = Inr k2"
    "use_lock k2"
    "kmem_inv (kernel_map t v) kend k2 (rev (pages (p2v 0x400000) (npages (p2v 0x400000) (p2v PHYSTOP))) @ ys)"
    "table_translate (v2p pd) (pmem k2) = kernel_map t v" by blast
  let ?m2 = "upd_ks (\<lambda>_. k2) (mputs str ?m1)"
  have run2: "on_ks (kinit2 (mtrans (mputs str ?m1)) kend (p2v 0x400000) (p2v PHYSTOP)) (mputs str ?m1) = Inr ?m2"
    using k2(1) unfolding on_ks_def minv_trans [OF m1] by simp
  have n: "npages (p2v 0x400000) (p2v PHYSTOP) = 7168"
    by (simp add: npages_def p2v_def KERNBASE_def PHYSTOP_def)
  have tr: "mtrans ?m2 = kernel_map t v" using k2(4) m by (simp add: mtrans_def minv_def)
  have "low_page kend v" "v \<notin> set ys" using m by (simp_all add: minv_def kvm_inv_def)
  then have "booted t kend pd m0 ?m2"
    unfolding booted_def tr using k2(2,3) n s1(2) m r by (auto simp: minv_def)
  with run1 run2 show ?thesis by blast
qed

text \<open>
  C11: the kernel boots. From the state in which the boot code calls \<^verbatim>\<open>main\<close>, on either build target
  and for every placement of the kernel image that leaves 36 pages below 4 MB, \<^verbatim>\<open>main\<close> runs to its
  final loop without a panic, an abort or a hang. It leaves the kernel map installed, every page
  from 4 MB to the end of memory on a well-formed free list that is read through that map, the
  allocator lock in use, the timer as the only enabled interrupt source, and the buffer ring built.
\<close>

theorem main_boots:
  assumes lay: "kernel_layout kdata kend pd" and room: "unat kend + 36 * 4096 \<le> unat (p2v 0x400000)"
    and rdy: "boot_ready m" and l: "length labels = 8"
  shows "\<exists>m'. main t kdata kend pd labels m = Inr m' \<and> booted t kend pd m0 m'"
proof -
  have pd: "pd_ok kend pd" using lay by (simp add: kernel_layout_def)
  have c: "(4 * 1024 * 1024 :: u32) = 0x400000" by simp
  from boot_kvm [OF lay room rdy, of t] obtain m1 m2 v ys T where 1:
    "on_ks (kinit1 (entry_translate t) kend kend (p2v 0x400000)) m = Inr m1"
    "run_kvmalloc t kdata kend pd (mputs (NL @ ''kinit1 OK'' @ NL) m1) = Inr m2"
    "minv t kend pd v ys T m2" by blast
  have "minv t kend pd v ys T (mputs (NL @ ''kvmalloc OK'' @ NL) m2)" using 1(3) by simp
  from boot_traps [OF this pd l, of "NL @ ''trap_init OK'' @ NL" m0] obtain m3 m4 where 2:
    "on_sys (trap_init (mtrans (mputs (NL @ ''kvmalloc OK'' @ NL) m2)) labels) (mputs (NL @ ''kvmalloc OK'' @ NL) m2) = Inr m3"
    "on_sys (pic_init (mtrans (mputs (NL @ ''trap_init OK'' @ NL) m3))) (mputs (NL @ ''trap_init OK'' @ NL) m3) = Inr m4"
    "minv t kend pd v ys T m4" "pic_abs m0 (msys m4) Map.empty" by blast
  let ?m5 = "main_tables (mputs (NL @ ''pic_init OK'' @ NL) m4)"
  have "minv t kend pd v ys T ?m5" "pic_abs m0 (msys ?m5) Map.empty" "bring (mbc ?m5) (rev [0..<NBUF])"
    using 2(3,4) by (simp_all only: main_tables_simps minv_puts mputs_simps)
  from boot_timer [OF this(1) pd this(2,3), of "''timer init OK'' @ NL @ NL"] obtain m6 m7 where 3:
    "on_sys (timer_init (mtrans ?m5)) ?m5 = Inr m6"
    "on_ks (kinit2 (mtrans (mputs (''timer init OK'' @ NL @ NL) m6)) kend (p2v 0x400000) (p2v PHYSTOP))
      (mputs (''timer init OK'' @ NL @ NL) m6) = Inr m7" "booted t kend pd m0 m7" by blast
  have "main t kdata kend pd labels m = Inr (mputs (''kinit2 OK'' @ NL @ NL) m7)"
    unfolding main_def Let_def c 1(1) bindR_simps 1(2) 2(1) 2(2) 3(1) 3(2) ..
  then show ?thesis using 3(3) booted_puts by blast
qed

text \<open>A zeroed machine.\<close>

definition bss_machine :: machine where
  "bss_machine =
     (let l = \<lparr>locked = 0, name = [], lk_cpu = 0, pcs = replicate 10 0\<rparr>
      in \<lparr>msys = bss_isys (\<lambda>_. 0), mcons = bss_cons,
          mbc = \<lparr>bc_lock = l, bufs = (\<lambda>_. \<lparr>bflags = 0, bdev = 0, bsector = 0, bprev = 0, bnext = 0,
            bqnext = None, bdata = []\<rparr>)\<rparr>,
          ptable_lock = l, ftable_lock = l, icache_lock = l, ide_lock = l, kpgdir = 0, ttbr = 0\<rparr>)"

theorem main_boots_witness:
  "\<exists>m'. main REAL 0xC0010000 0xC0020000 0xC0014000 [1, 2, 3, 4, 5, 6, 7, 8] bss_machine = Inr m'
    \<and> booted REAL 0xC0020000 0xC0014000 0 m'"
proof (rule main_boots)
  show "kernel_layout 0xC0010000 0xC0020000 0xC0014000"
    by (simp add: kernel_layout_def pd_ok_def KERNBASE_def KERNLINK_def EXTMEM_def)
  show "unat (0xC0020000 :: u32) + 36 * 4096 \<le> unat (p2v 0x400000)" by (simp add: p2v_def KERNBASE_def)
  show "boot_ready bss_machine"
    by (auto simp: boot_ready_def bss_machine_def bss_isys_def bss_state_def cli_at_def Let_def)
qed simp

end
