(* ===== verification/Pipe.thy ===== *)
theory Pipe
  imports Arm "HOL-Library.Sublist"
begin

text \<open>
  Pipes (\<^verbatim>\<open>pipe.c\<close>): a ring of 512 bytes with free-running 32-bit counters. A call of \<^verbatim>\<open>pipewrite\<close> or
  \<^verbatim>\<open>piperead\<close> runs under the pipe's lock until it returns or sleeps; \<^verbatim>\<open>sleep\<close> releases the lock, and the
  call goes on with the test of its loop when it is woken. Such a stretch is one step of the model,
  so an interleaving of any number of readers and writers is a sequence of steps.
\<close>

section \<open>The ring\<close>

definition PIPESIZE :: nat where "PIPESIZE = 512"

record pipe =
  plock :: spinlock
  pdata :: "nat \<Rightarrow> char"
  nread :: u32
  nwrite :: u32
  readopen :: bool
  writeopen :: bool

definition pipe_put :: "char \<Rightarrow> pipe \<Rightarrow> pipe" where
  "pipe_put c p = p\<lparr>pdata := (pdata p)(unat (nwrite p) mod PIPESIZE := c), nwrite := nwrite p + 1\<rparr>"

definition pipe_get :: "pipe \<Rightarrow> char \<times> pipe" where
  "pipe_get p = (pdata p (unat (nread p) mod PIPESIZE), p\<lparr>nread := nread p + 1\<rparr>)"

definition pipe_full :: "pipe \<Rightarrow> bool" where
  "pipe_full p \<longleftrightarrow> nwrite p = nread p + of_nat PIPESIZE"

definition pipe_empty :: "pipe \<Rightarrow> bool" where
  "pipe_empty p \<longleftrightarrow> nread p = nwrite p"

section \<open>pipe.c\<close>

text \<open>The two channels of a pipe that processes sleep on, and the calls of \<^verbatim>\<open>wakeup\<close> so far.\<close>

datatype pchan = Nread | Nwrite

record pstate =
  pcpu :: cpu
  ppipe :: pipe
  pwakes :: "pchan list"

definition pacquire :: "pstate \<Rightarrow> pstate" where
  "pacquire s = (case acquire (pcpu s, plock (ppipe s)) of (c, l) \<Rightarrow>
     s\<lparr>pcpu := c, ppipe := (ppipe s)\<lparr>plock := l\<rparr>\<rparr>)"

definition prelease :: "pstate \<Rightarrow> pstate res" where
  "prelease s = bindR (release (pcpu s, plock (ppipe s))) (\<lambda>r. case r of (c, l) \<Rightarrow>
     Inr (s\<lparr>pcpu := c, ppipe := (ppipe s)\<lparr>plock := l\<rparr>\<rparr>))"

definition pwakeup :: "pchan \<Rightarrow> pstate \<Rightarrow> pstate" where
  "pwakeup ch s = s\<lparr>pwakes := pwakes s @ [ch]\<rparr>"

text \<open>How a stretch ends: with a return value, or asleep with the bytes still to write.\<close>

datatype 'a pend = Ret 'a | Asleep string

fun pipewrite_loop :: "bool \<Rightarrow> int \<Rightarrow> string \<Rightarrow> pstate \<Rightarrow> (int pend \<times> pstate) res" where
  "pipewrite_loop killed n [] s = bindR (prelease (pwakeup Nread s)) (\<lambda>s1. Inr (Ret n, s1))"
| "pipewrite_loop killed n (c # cs) s =
     (if pipe_full (ppipe s) then
        (if \<not> readopen (ppipe s) \<or> killed then bindR (prelease s) (\<lambda>s1. Inr (Ret (- 1), s1))
         else bindR (prelease (pwakeup Nread s)) (\<lambda>s1. Inr (Asleep (c # cs), s1)))
      else pipewrite_loop killed n cs (s\<lparr>ppipe := pipe_put c (ppipe s)\<rparr>))"

text \<open>
  \<^verbatim>\<open>pipewrite\<close> of the first \<open>n\<close> bytes at \<open>addr\<close>, up to its return or its first sleep, and the stretch of
  a writer that wakes up with the bytes \<open>cs\<close> left; \<open>killed\<close> is \<^verbatim>\<open>proc->killed\<close>. Reading \<open>addr\<close> past its end
  is undefined.
\<close>

definition pipewrite :: "bool \<Rightarrow> string \<Rightarrow> int \<Rightarrow> pstate \<Rightarrow> (int pend \<times> pstate) res" where
  "pipewrite killed addr n s =
     (if length addr < nat n then Inl Undefined
      else pipewrite_loop killed n (take (nat n) addr) (pacquire s))"

definition pipewrite_wake :: "bool \<Rightarrow> string \<Rightarrow> int \<Rightarrow> pstate \<Rightarrow> (int pend \<times> pstate) res" where
  "pipewrite_wake killed cs n s = pipewrite_loop killed n cs (pacquire s)"

fun piperead_loop :: "nat \<Rightarrow> pipe \<Rightarrow> string \<times> pipe" where
  "piperead_loop 0 p = ([], p)"
| "piperead_loop (Suc n) p =
     (if pipe_empty p then ([], p)
      else case pipe_get p of (c, p1) \<Rightarrow> (case piperead_loop n p1 of (cs, p2) \<Rightarrow> (c # cs, p2)))"

text \<open>The result pairs the return value with the bytes stored at \<^verbatim>\<open>addr\<close>.\<close>

definition piperead :: "bool \<Rightarrow> int \<Rightarrow> pstate \<Rightarrow> ((int \<times> string) pend \<times> pstate) res" where
  "piperead killed n s0 =
     (let s = pacquire s0
      in if pipe_empty (ppipe s) \<and> writeopen (ppipe s) then
           (if killed then bindR (prelease s) (\<lambda>s1. Inr (Ret (- 1, []), s1))
            else bindR (prelease s) (\<lambda>s1. Inr (Asleep [], s1)))
         else (case piperead_loop (nat n) (ppipe s) of (cs, p) \<Rightarrow>
           bindR (prelease (pwakeup Nwrite (s\<lparr>ppipe := p\<rparr>))) (\<lambda>s1.
           Inr (Ret (int (length cs), cs), s1))))"

text \<open>\<^verbatim>\<open>pipeclose\<close>; the boolean says that the pipe's page was handed to \<^verbatim>\<open>kfree\<close>.\<close>

definition pipeclose :: "bool \<Rightarrow> pstate \<Rightarrow> (bool \<times> pstate) res" where
  "pipeclose writable s0 =
     (let s = pacquire s0;
          s = (if writable then pwakeup Nread (s\<lparr>ppipe := (ppipe s)\<lparr>writeopen := False\<rparr>\<rparr>)
               else pwakeup Nwrite (s\<lparr>ppipe := (ppipe s)\<lparr>readopen := False\<rparr>\<rparr>))
      in if \<not> readopen (ppipe s) \<and> \<not> writeopen (ppipe s) then bindR (prelease s) (\<lambda>s1. Inr (True, s1))
         else bindR (prelease s) (\<lambda>s1. Inr (False, s1)))"

text \<open>The fields of \<^verbatim>\<open>struct file\<close> that \<^verbatim>\<open>pipealloc\<close> sets.\<close>

record pfile =
  is_pipe :: bool
  readable :: bool
  writable :: bool
  fpipe :: u32

text \<open>
  \<^verbatim>\<open>pipealloc\<close> over a kernel state \<open>'s\<close>: \<open>filealloc\<close>, \<open>fileclose\<close>, \<open>kalloc\<close>, \<open>kfree\<close> are the routines it
  calls (0 is the null pointer), \<open>setp\<close> stores a pipe at an address and \<open>setf\<close> the file fields. The
  result is the return value with the two file pointers.
\<close>

definition pipealloc :: "('s \<Rightarrow> u32 \<times> 's) \<Rightarrow> (u32 \<Rightarrow> 's \<Rightarrow> 's) \<Rightarrow> ('s \<Rightarrow> u32 \<times> 's) \<Rightarrow> (u32 \<Rightarrow> 's \<Rightarrow> 's) \<Rightarrow>
    (u32 \<Rightarrow> (pipe \<Rightarrow> pipe) \<Rightarrow> 's \<Rightarrow> 's) \<Rightarrow> (u32 \<Rightarrow> pfile \<Rightarrow> 's \<Rightarrow> 's) \<Rightarrow> 's \<Rightarrow> (int \<times> u32 \<times> u32) \<times> 's" where
  "pipealloc filealloc fileclose kalloc kfree setp setf s =
     (let bad = (\<lambda>f0 f1 p s.
            let s = (if p \<noteq> 0 then kfree p s else s);
                s = (if f0 \<noteq> 0 then fileclose f0 s else s);
                s = (if f1 \<noteq> 0 then fileclose f1 s else s)
            in ((- 1, f0, f1), s))
      in case filealloc s of (f0, s) \<Rightarrow>
         if f0 = 0 then bad f0 0 0 s
         else case filealloc s of (f1, s) \<Rightarrow>
         if f1 = 0 then bad f0 f1 0 s
         else case kalloc s of (p, s) \<Rightarrow>
         if p = 0 then bad f0 f1 p s
         else let s = setp p (\<lambda>q. q\<lparr>readopen := True, writeopen := True, nwrite := 0, nread := 0,
                        plock := init_lock (plock q) ''pipe''\<rparr>) s;
                  s = setf f0 \<lparr>is_pipe = True, readable = True, writable = False, fpipe = p\<rparr> s;
                  s = setf f1 \<lparr>is_pipe = True, readable = False, writable = True, fpipe = p\<rparr> s
              in ((0, f0, f1), s))"

section \<open>The ring as a queue\<close>

text \<open>
  The contract of a bounded byte queue, and its clients: appending and removing many bytes.
\<close>

locale byte_queue =
  fixes cap :: nat
    and good :: "'q \<Rightarrow> bool"
    and cont :: "'q \<Rightarrow> string"
    and put :: "char \<Rightarrow> 'q \<Rightarrow> 'q"
    and get :: "'q \<Rightarrow> char \<times> 'q"
  assumes cont_cap: "good q \<Longrightarrow> length (cont q) \<le> cap"
    and put_law: "good q \<Longrightarrow> length (cont q) < cap \<Longrightarrow> good (put c q) \<and> cont (put c q) = cont q @ [c]"
    and get_law: "good q \<Longrightarrow> cont q \<noteq> [] \<Longrightarrow>
      good (snd (get q)) \<and> cont q = fst (get q) # cont (snd (get q))"
begin

lemma put_many:
  "good q \<Longrightarrow> length (cont q) + length cs \<le> cap \<Longrightarrow>
     good (fold put cs q) \<and> cont (fold put cs q) = cont q @ cs"
proof (induction cs arbitrary: q)
  case Nil
  then show ?case by simp
next
  case (Cons c cs)
  then have "good (put c q) \<and> cont (put c q) = cont q @ [c]" by (intro put_law) simp_all
  with Cons show ?case by simp
qed

end

definition pipe_q :: "pipe \<Rightarrow> string" where
  "pipe_q p = map (\<lambda>k. pdata p ((unat (nread p) + k) mod PIPESIZE)) [0..<unat (nwrite p - nread p)]"

definition pipe_good :: "pipe \<Rightarrow> bool" where
  "pipe_good p \<longleftrightarrow> unat (nwrite p - nread p) \<le> PIPESIZE"

lemma length_pipe_q [simp]: "length (pipe_q p) = unat (nwrite p - nread p)"
  by (simp add: pipe_q_def)

text \<open>The counters wrap at \<open>2 ^ 32\<close>, a multiple of the size of the ring.\<close>

lemma counter_wrap: "(unat (x + 1 :: u32) + k) mod PIPESIZE = (unat x + Suc k) mod PIPESIZE"
proof -
  have "unat (x + 1) mod 512 = (unat x + 1) mod 4294967296 mod 512"
    by (simp add: unat_add32)
  also have "\<dots> = (unat x + 1) mod 512" by (rule mod_mod_cancel) simp
  finally have e: "unat (x + 1) mod 512 = (unat x + 1) mod 512" .
  have "(unat (x + 1) + k) mod 512 = ((unat x + 1) mod 512 + k) mod 512"
    unfolding e [symmetric] by (rule mod_add_left_eq [symmetric])
  also have "\<dots> = (unat x + Suc k) mod 512" by (simp add: mod_add_left_eq)
  finally show ?thesis unfolding PIPESIZE_def .
qed

lemma slots_distinct:
  assumes "k < n" and "n < PIPESIZE"
  shows "(a + k) mod PIPESIZE \<noteq> (a + n) mod PIPESIZE"
proof
  assume "(a + k) mod PIPESIZE = (a + n) mod PIPESIZE"
  then have "PIPESIZE dvd (a + n) - (a + k)"
    using assms(1) mod_eq_dvd_iff_nat [of "a + k" "a + n" PIPESIZE] by simp
  then show False using assms by (auto dest: dvd_imp_le)
qed

lemma pipe_put_law:
  assumes "pipe_good p" and "length (pipe_q p) < PIPESIZE"
  shows "pipe_good (pipe_put c p) \<and> pipe_q (pipe_put c p) = pipe_q p @ [c]"
proof -
  let ?n = "unat (nwrite p - nread p)"
  have lt: "?n < 512" using assms(2) by (simp add: PIPESIZE_def)
  have d: "unat (nwrite p + 1 - nread p) = Suc ?n"
    using unat_add32_small [of "nwrite p - nread p" 1] lt by (simp add: algebra_simps)
  have w: "unat (nwrite p) mod PIPESIZE = (unat (nread p) + ?n) mod PIPESIZE"
  proof -
    have "unat (nwrite p) = unat (nread p + (nwrite p - nread p))" by simp
    also have "\<dots> mod 512 = (unat (nread p) + ?n) mod 4294967296 mod 512"
      unfolding unat_add32 by simp
    also have "\<dots> = (unat (nread p) + ?n) mod 512" by (rule mod_mod_cancel) simp
    finally show ?thesis unfolding PIPESIZE_def .
  qed
  have ne: "(unat (nread p) + k) mod PIPESIZE \<noteq> (unat (nread p) + ?n) mod PIPESIZE" if "k < ?n" for k
    by (rule slots_distinct [OF that assms(2) [unfolded length_pipe_q]])
  have "pipe_good (pipe_put c p)" using lt d by (simp add: pipe_good_def pipe_put_def PIPESIZE_def)
  moreover have "pipe_q (pipe_put c p) = pipe_q p @ [c]"
    unfolding pipe_q_def pipe_put_def by (simp add: d w ne)
  ultimately show ?thesis ..
qed

lemma pipe_get_law:
  assumes "pipe_good p" and "pipe_q p \<noteq> []"
  shows "pipe_good (snd (pipe_get p)) \<and> pipe_q p = fst (pipe_get p) # pipe_q (snd (pipe_get p))"
proof -
  let ?n = "unat (nwrite p - nread p)"
  from assms(2) obtain m where m: "?n = Suc m"
    by (metis length_0_conv length_pipe_q not0_implies_Suc)
  have d: "unat (nwrite p - (nread p + 1)) = m"
  proof -
    have "unat (nwrite p - nread p) = unat ((nwrite p - (nread p + 1)) + 1)" by simp
    then show ?thesis using m by (metis unatSuc add.commute diff_add_cancel nat.inject unat_0 nat.distinct(1) unat_eq_zero)
  qed
  have "pipe_q p = pdata p (unat (nread p) mod PIPESIZE) #
      map (\<lambda>k. pdata p ((unat (nread p) + Suc k) mod PIPESIZE)) [0..<m]"
    unfolding pipe_q_def m upt_conv_Cons [OF zero_less_Suc] map_Suc_upt [symmetric] by simp
  then show ?thesis
    using assms(1) m by (simp add: pipe_get_def pipe_q_def pipe_good_def d counter_wrap)
qed

interpretation ring: byte_queue PIPESIZE pipe_good pipe_q pipe_put pipe_get
proof unfold_locales
  show "pipe_good q \<Longrightarrow> length (pipe_q q) \<le> PIPESIZE" for q by (simp add: pipe_good_def)
qed (rule pipe_put_law pipe_get_law, assumption, assumption)+

lemma pipe_empty_iff: "pipe_empty p \<longleftrightarrow> pipe_q p = []"
  by (auto simp: pipe_empty_def pipe_q_def unat_eq_0)

lemma pipe_full_iff: "pipe_full p \<longleftrightarrow> length (pipe_q p) = PIPESIZE"
proof -
  have "nwrite p = nread p + of_nat PIPESIZE \<longleftrightarrow> nwrite p - nread p = 512"
    by (auto simp: PIPESIZE_def algebra_simps)
  also have "\<dots> \<longleftrightarrow> unat (nwrite p - nread p) = 512"
    by (simp add: word32_eq_iff)
  finally show ?thesis by (simp add: pipe_full_def PIPESIZE_def)
qed

section \<open>The operations on the queue\<close>

lemma plock_simps [simp]:
  "pipe_q (p\<lparr>plock := l\<rparr>) = pipe_q p" "pipe_good (p\<lparr>plock := l\<rparr>) = pipe_good p"
  "pipe_full (p\<lparr>plock := l\<rparr>) = pipe_full p" "pipe_empty (p\<lparr>plock := l\<rparr>) = pipe_empty p"
  by (simp_all add: pipe_q_def pipe_good_def pipe_full_def pipe_empty_def)

lemma open_simps [simp]:
  "pipe_q (p\<lparr>readopen := b\<rparr>) = pipe_q p" "pipe_q (p\<lparr>writeopen := b\<rparr>) = pipe_q p"
  "pipe_good (p\<lparr>readopen := b\<rparr>) = pipe_good p" "pipe_good (p\<lparr>writeopen := b\<rparr>) = pipe_good p"
  "readopen (pipe_put c p) = readopen p" "writeopen (pipe_put c p) = writeopen p"
  by (simp_all add: pipe_q_def pipe_good_def pipe_put_def)

lemma pwakeup_simps [simp]:
  "pcpu (pwakeup ch s) = pcpu s" "ppipe (pwakeup ch s) = ppipe s" "pwakes (pwakeup ch s) = pwakes s @ [ch]"
  by (simp_all add: pwakeup_def)

text \<open>A pipe that holds \<open>q\<close>, with its ends open or closed, seen from outside its lock.\<close>

definition pipe_at :: "u32 \<Rightarrow> nat \<Rightarrow> string \<Rightarrow> bool \<Rightarrow> bool \<Rightarrow> pstate \<Rightarrow> bool" where
  "pipe_at f d q ro wo s \<longleftrightarrow> cli_at f d (pcpu s) \<and> pipe_good (ppipe s) \<and> pipe_q (ppipe s) = q
     \<and> readopen (ppipe s) = ro \<and> writeopen (ppipe s) = wo"

lemma pacquire_at:
  assumes "pipe_at f d q ro wo s"
  shows "pipe_at f (Suc d) q ro wo (pacquire s)"
  using assms lock.push_at [of f d "(pcpu s, plock (ppipe s))"]
  by (auto simp: pipe_at_def pacquire_def split: prod.splits)

lemma prelease_at:
  assumes "pipe_at f (Suc d) q ro wo s"
  obtains s' where "prelease s = Inr s'" "pipe_at f d q ro wo s'" "pwakes s' = pwakes s"
proof -
  from assms have "cli_at f (Suc d) (fst (pcpu s, plock (ppipe s)))" by (simp add: pipe_at_def)
  from lock.pop_at [OF this] obtain c l where "release (pcpu s, plock (ppipe s)) = Inr (c, l)" "cli_at f d c"
    by auto
  then show thesis using assms
    by (intro that [of "s\<lparr>pcpu := c, ppipe := (ppipe s)\<lparr>plock := l\<rparr>\<rparr>"]) (simp_all add: prelease_def pipe_at_def)
qed

text \<open>How many of the bytes fit, and how the writer's stretch ends.\<close>

definition pipe_room :: "string \<Rightarrow> string \<Rightarrow> nat" where
  "pipe_room q cs = min (length cs) (PIPESIZE - length q)"

definition write_end :: "bool \<Rightarrow> bool \<Rightarrow> int \<Rightarrow> string \<Rightarrow> string \<Rightarrow> int pend" where
  "write_end killed ro n q cs =
     (if length q + length cs \<le> PIPESIZE then Ret n
      else if \<not> ro \<or> killed then Ret (- 1) else Asleep (drop (pipe_room q cs) cs))"

lemma pipe_at_length: "pipe_at f d q ro wo s \<Longrightarrow> length q \<le> PIPESIZE"
  using ring.cont_cap by (auto simp: pipe_at_def)

lemma pipewrite_loop_at:
  assumes "pipe_at f (Suc d) q ro wo s"
  shows "\<exists>s'. pipewrite_loop killed n cs s = Inr (write_end killed ro n q cs, s') \<and>
    pipe_at f d (q @ take (pipe_room q cs) cs) ro wo s' \<and>
    (write_end killed ro n q cs \<noteq> Ret (- 1) \<longrightarrow> pwakes s' = pwakes s @ [Nread])"
  using assms
proof (induction cs arbitrary: q s)
  case Nil
  then have "pipe_at f (Suc d) q ro wo (pwakeup Nread s)" by (simp add: pipe_at_def)
  then obtain s' where "prelease (pwakeup Nread s) = Inr s'" "pipe_at f d q ro wo s'"
      "pwakes s' = pwakes (pwakeup Nread s)"
    by (rule prelease_at)
  moreover have "length q \<le> PIPESIZE" using Nil by (rule pipe_at_length)
  ultimately show ?case by (simp add: write_end_def)
next
  case (Cons c cs)
  note at = Cons.prems
  have le: "length q \<le> PIPESIZE" using at by (rule pipe_at_length)
  have q: "pipe_q (ppipe s) = q" "readopen (ppipe s) = ro" "pipe_good (ppipe s)" using at by (simp_all add: pipe_at_def)
  show ?case
  proof (cases "length q = PIPESIZE")
    case True
    have full: "pipe_full (ppipe s)" using True q by (simp add: pipe_full_iff del: length_pipe_q)
    from at obtain s1 where s1: "prelease s = Inr s1" "pipe_at f d q ro wo s1"
      by (rule prelease_at)
    from at have "pipe_at f (Suc d) q ro wo (pwakeup Nread s)" by (simp add: pipe_at_def)
    then obtain s2 where s2: "prelease (pwakeup Nread s) = Inr s2" "pipe_at f d q ro wo s2"
        "pwakes s2 = pwakes (pwakeup Nread s)"
      by (rule prelease_at)
    show ?thesis using full True s1 s2 q by (cases ro) (simp_all add: write_end_def pipe_room_def)
  next
    case False
    with le have lt: "length q < PIPESIZE" by simp
    have "\<not> pipe_full (ppipe s)" using False q by (simp add: pipe_full_iff del: length_pipe_q)
    moreover have "pipe_at f (Suc d) (q @ [c]) ro wo (s\<lparr>ppipe := pipe_put c (ppipe s)\<rparr>)"
      using at lt ring.put_law [of "ppipe s" c] by (simp add: pipe_at_def del: length_pipe_q)
    moreover have room: "pipe_room q (c # cs) = Suc (pipe_room (q @ [c]) cs)"
      using lt by (auto simp: pipe_room_def min_def)
    moreover have "write_end killed ro n (q @ [c]) cs = write_end killed ro n q (c # cs)"
      by (simp add: write_end_def room)
    ultimately show ?thesis using Cons.IH [of "q @ [c]" "s\<lparr>ppipe := pipe_put c (ppipe s)\<rparr>"] by simp
  qed
qed

lemma piperead_loop_take:
  "pipe_good p \<Longrightarrow> \<exists>p'. piperead_loop n p = (take n (pipe_q p), p') \<and> pipe_good p' \<and> pipe_q p' = drop n (pipe_q p)
     \<and> readopen p' = readopen p \<and> writeopen p' = writeopen p"
proof (induction n arbitrary: p)
  case 0
  then show ?case by simp
next
  case (Suc n)
  show ?case
  proof (cases "pipe_q p = []")
    case True
    with Suc.prems show ?thesis by (simp add: pipe_empty_iff)
  next
    case False
    obtain c p1 where g: "pipe_get p = (c, p1)" by force
    with ring.get_law [OF Suc.prems False] have q: "pipe_good p1" "pipe_q p = c # pipe_q p1" by simp_all
    have "readopen p1 = readopen p" "writeopen p1 = writeopen p" using g by (auto simp: pipe_get_def)
    moreover from Suc.IH [OF q(1)] obtain p' where "piperead_loop n p1 = (take n (pipe_q p1), p')"
      "pipe_good p'" "pipe_q p' = drop n (pipe_q p1)" "readopen p' = readopen p1" "writeopen p' = writeopen p1"
      by blast
    ultimately show ?thesis using g q False by (simp add: pipe_empty_iff)
  qed
qed

definition read_end :: "bool \<Rightarrow> bool \<Rightarrow> int \<Rightarrow> string \<Rightarrow> (int \<times> string) pend" where
  "read_end killed wo n q =
     (if q = [] \<and> wo then (if killed then Ret (- 1, []) else Asleep [])
      else Ret (int (length (take (nat n) q)), take (nat n) q))"

lemma piperead_at:
  assumes "pipe_at f d q ro wo s"
  shows "\<exists>s'. piperead killed n s = Inr (read_end killed wo n q, s') \<and> pipe_at f d (drop (nat n) q) ro wo s' \<and>
    (q \<noteq> [] \<longrightarrow> pwakes s' = pwakes s @ [Nwrite])"
proof -
  let ?s = "pacquire s"
  have at: "pipe_at f (Suc d) q ro wo ?s" using assms by (rule pacquire_at)
  then have q: "pipe_good (ppipe ?s)" "pipe_q (ppipe ?s) = q" "readopen (ppipe ?s) = ro" "writeopen (ppipe ?s) = wo"
    by (simp_all add: pipe_at_def)
  have wk: "pwakes ?s = pwakes s" by (simp add: pacquire_def split: prod.splits)
  from at obtain s1 where s1: "prelease ?s = Inr s1" "pipe_at f d q ro wo s1" by (rule prelease_at)
  from piperead_loop_take [OF q(1), of "nat n"] obtain p where p: "piperead_loop (nat n) (ppipe ?s) = (take (nat n) q, p)"
    "pipe_good p" "pipe_q p = drop (nat n) q" "readopen p = ro" "writeopen p = wo" using q by auto
  have "pipe_at f (Suc d) (drop (nat n) q) ro wo (pwakeup Nwrite (?s\<lparr>ppipe := p\<rparr>))"
    using at p by (simp add: pipe_at_def)
  then obtain s2 where s2: "prelease (pwakeup Nwrite (?s\<lparr>ppipe := p\<rparr>)) = Inr s2" "pipe_at f d (drop (nat n) q) ro wo s2"
    "pwakes s2 = pwakes (pwakeup Nwrite (?s\<lparr>ppipe := p\<rparr>))" by (rule prelease_at)
  show ?thesis using s1 s2 p q wk
    by (auto simp: piperead_def read_end_def Let_def pipe_empty_iff)
qed

lemma pipewrite_wake_at:
  assumes "pipe_at f d q ro wo s"
  shows "\<exists>s'. pipewrite_wake killed cs n s = Inr (write_end killed ro n q cs, s') \<and>
    pipe_at f d (q @ take (pipe_room q cs) cs) ro wo s' \<and>
    (write_end killed ro n q cs \<noteq> Ret (- 1) \<longrightarrow> pwakes s' = pwakes s @ [Nread])"
proof -
  have "pwakes (pacquire s) = pwakes s" by (simp add: pacquire_def split: prod.splits)
  with pipewrite_loop_at [OF pacquire_at [OF assms]] show ?thesis by (simp add: pipewrite_wake_def)
qed

lemma pipewrite_eq:
  "nat n \<le> length addr \<Longrightarrow> pipewrite killed addr n s = pipewrite_wake killed (take (nat n) addr) n s"
  by (simp add: pipewrite_def pipewrite_wake_def)

lemma pipeclose_at:
  assumes "pipe_at f d q ro wo s"
  shows "\<exists>s'. pipeclose w s = Inr (\<not> (ro \<and> w) \<and> \<not> (wo \<and> \<not> w), s') \<and>
    pipe_at f d q (ro \<and> w) (wo \<and> \<not> w) s' \<and> pwakes s' = pwakes s @ [if w then Nread else Nwrite]"
proof -
  let ?s = "if w then pwakeup Nread ((pacquire s)\<lparr>ppipe := (ppipe (pacquire s))\<lparr>writeopen := False\<rparr>\<rparr>)
    else pwakeup Nwrite ((pacquire s)\<lparr>ppipe := (ppipe (pacquire s))\<lparr>readopen := False\<rparr>\<rparr>)"
  have "pipe_at f (Suc d) q (ro \<and> w) (wo \<and> \<not> w) ?s"
    using pacquire_at [OF assms] by (auto simp: pipe_at_def)
  then obtain s' where "prelease ?s = Inr s'" "pipe_at f d q (ro \<and> w) (wo \<and> \<not> w) s'" "pwakes s' = pwakes ?s"
    by (rule prelease_at)
  moreover have "pwakes (pacquire s) = pwakes s" by (simp add: pacquire_def split: prod.splits)
  moreover have "readopen (ppipe ?s) = (ro \<and> w)" "writeopen (ppipe ?s) = (wo \<and> \<not> w)"
    using pacquire_at [OF assms] by (auto simp: pipe_at_def)
  ultimately show ?thesis unfolding pipeclose_def Let_def
    by (cases w; cases ro; cases wo) simp_all
qed

section \<open>Interleaved readers and writers\<close>

text \<open>The stretches of any number of processes that share the pipe.\<close>

datatype pipe_op = Write bool string int | Wake bool string int | Read bool int | Close bool

fun pipe_step :: "pipe_op \<Rightarrow> pstate \<Rightarrow> (string \<times> pstate) res" where
  "pipe_step (Write killed addr n) s = bindR (pipewrite killed addr n s) (\<lambda>r. Inr ([], snd r))"
| "pipe_step (Wake killed cs n) s = bindR (pipewrite_wake killed cs n s) (\<lambda>r. Inr ([], snd r))"
| "pipe_step (Read killed n) s = bindR (piperead killed n s) (\<lambda>r. case r of
     (Ret (v, bs), s1) \<Rightarrow> Inr (bs, s1) | (Asleep _, s1) \<Rightarrow> Inr ([], s1))"
| "pipe_step (Close w) s = bindR (pipeclose w s) (\<lambda>r. case r of (freed, s1) \<Rightarrow>
     if freed then Inl Undefined else Inr ([], s1))"

fun pipe_run :: "pipe_op list \<Rightarrow> pstate \<Rightarrow> (string \<times> pstate) res" where
  "pipe_run [] s = Inr ([], s)"
| "pipe_run (op # ops) s = bindR (pipe_step op s) (\<lambda>r. case r of (bs, s1) \<Rightarrow>
     bindR (pipe_run ops s1) (\<lambda>r2. case r2 of (cs, s2) \<Rightarrow> Inr (bs @ cs, s2)))"

text \<open>The bytes a stretch offers to the pipe.\<close>

fun op_bytes :: "pipe_op \<Rightarrow> string" where
  "op_bytes (Write killed addr n) = take (nat n) addr"
| "op_bytes (Wake killed cs n) = cs"
| "op_bytes (Read killed n) = []"
| "op_bytes (Close w) = []"

text \<open>No writer reads past its buffer, and the pipe is not used once both ends are closed.\<close>

fun pipe_calls :: "bool \<Rightarrow> bool \<Rightarrow> pipe_op list \<Rightarrow> bool" where
  "pipe_calls ro wo [] = True"
| "pipe_calls ro wo (Write killed addr n # ops) = (nat n \<le> length addr \<and> pipe_calls ro wo ops)"
| "pipe_calls ro wo (Close w # ops) =
     (let ro1 = (ro \<and> w); wo1 = (wo \<and> \<not> w) in (ro1 \<or> wo1) \<and> pipe_calls ro1 wo1 ops)"
| "pipe_calls ro wo (_ # ops) = pipe_calls ro wo ops"

lemma pipe_run_fifo:
  "pipe_at f d q ro wo s \<Longrightarrow> pipe_calls ro wo ops \<Longrightarrow>
   \<exists>rd s' ws q' ro' wo'. pipe_run ops s = Inr (rd, s') \<and> pipe_at f d q' ro' wo' s' \<and>
     list_all2 (\<lambda>op w. prefix w (op_bytes op)) ops ws \<and> q @ concat ws = rd @ q'"
proof (induction ops arbitrary: q ro wo s)
  case Nil
  then show ?case by auto
next
  case (Cons op ops)
  have step: "\<exists>bs s1 w q1 ro1 wo1. pipe_step op s = Inr (bs, s1) \<and> pipe_at f d q1 ro1 wo1 s1 \<and>
     prefix w (op_bytes op) \<and> q @ w = bs @ q1 \<and> pipe_calls ro1 wo1 ops"
  proof (cases op)
    case (Write killed addr n)
    let ?cs = "take (nat n) addr"
    from pipewrite_wake_at [OF Cons.prems(1), of killed ?cs n] obtain s1 where
      "pipewrite_wake killed ?cs n s = Inr (write_end killed ro n q ?cs, s1)"
      "pipe_at f d (q @ take (pipe_room q ?cs) ?cs) ro wo s1" by blast
    with Write Cons.prems show ?thesis
      by (intro exI [of _ "[]"] exI [of _ s1] exI [of _ "take (pipe_room q ?cs) ?cs"] exI conjI)
        (auto simp: pipewrite_eq take_is_prefix simp del: take_take)
  next
    case (Wake killed cs n)
    from pipewrite_wake_at [OF Cons.prems(1), of killed cs n] obtain s1 where
      "pipewrite_wake killed cs n s = Inr (write_end killed ro n q cs, s1)"
      "pipe_at f d (q @ take (pipe_room q cs) cs) ro wo s1" by blast
    with Wake Cons.prems show ?thesis
      by (intro exI [of _ "[]"] exI [of _ s1] exI [of _ "take (pipe_room q cs) cs"] exI conjI)
        (auto simp: take_is_prefix)
  next
    case (Read killed n)
    from piperead_at [OF Cons.prems(1), of killed n] obtain s1 where
      "piperead killed n s = Inr (read_end killed wo n q, s1)" "pipe_at f d (drop (nat n) q) ro wo s1"
      by blast
    with Read Cons.prems show ?thesis
      by (intro exI [of _ "take (nat n) q"] exI [of _ s1] exI [of _ "[]"] exI conjI)
        (auto simp: read_end_def)
  next
    case (Close w)
    from pipeclose_at [OF Cons.prems(1), of w] obtain s1 where
      "pipeclose w s = Inr (\<not> (ro \<and> w) \<and> \<not> (wo \<and> \<not> w), s1)" "pipe_at f d q (ro \<and> w) (wo \<and> \<not> w) s1"
      by blast
    with Close Cons.prems show ?thesis
      by (intro exI [of _ "[]"] exI [of _ s1] exI [of _ "[]"] exI [of _ q] exI [of _ "ro \<and> w"] exI [of _ "wo \<and> \<not> w"])
        (auto simp: Let_def)
  qed
  then obtain bs s1 w q1 ro1 wo1 where 1: "pipe_step op s = Inr (bs, s1)" "pipe_at f d q1 ro1 wo1 s1"
     "prefix w (op_bytes op)" "q @ w = bs @ q1" "pipe_calls ro1 wo1 ops" by blast
  from Cons.IH [OF 1(2,5)] obtain rd s' ws q' ro' wo' where 2: "pipe_run ops s1 = Inr (rd, s')"
     "pipe_at f d q' ro' wo' s'" "list_all2 (\<lambda>op w. prefix w (op_bytes op)) ops ws" "q1 @ concat ws = rd @ q'"
    by blast
  have "q @ concat (w # ws) = (bs @ rd) @ q'" using 1(4) 2(4) by (metis append_assoc concat.simps(2))
  moreover have "pipe_run (op # ops) s = Inr (bs @ rd, s')" using 1 2 by simp
  ultimately show ?case using 1(3) 2(2,3) by (metis list.rel_intros(2))
qed

text \<open>
  A writer and a reader that take turns: the writer's stretch, then, if it sleeps, a read of \<open>m\<close> bytes.
\<close>

fun pipe_pump :: "nat \<Rightarrow> int \<Rightarrow> string \<Rightarrow> int \<Rightarrow> pstate \<Rightarrow> (int \<times> string \<times> pstate) option res" where
  "pipe_pump 0 m cs n s = Inr None"
| "pipe_pump (Suc fuel) m cs n s = bindR (pipewrite_wake False cs n s) (\<lambda>r. case r of
     (Ret v, s1) \<Rightarrow> Inr (Some (v, [], s1))
   | (Asleep rest, s1) \<Rightarrow> bindR (piperead False m s1) (\<lambda>r1. case r1 of
       (Asleep _, s2) \<Rightarrow> Inr None
     | (Ret (v, bs), s2) \<Rightarrow> bindR (pipe_pump fuel m rest n s2) (\<lambda>r2. case r2 of
         None \<Rightarrow> Inr None | Some (v2, bs2, s3) \<Rightarrow> Inr (Some (v2, bs @ bs2, s3)))))"

lemma pipe_pump_completes:
  "pipe_at f d q True wo s \<Longrightarrow> 0 < m \<Longrightarrow> length cs + (if length q = PIPESIZE then 1 else 0) < fuel \<Longrightarrow>
   \<exists>rd s' q'. pipe_pump fuel m cs n s = Inr (Some (n, rd, s')) \<and> pipe_at f d q' True wo s' \<and> q @ cs = rd @ q'"
proof (induction fuel arbitrary: q cs s)
  case 0
  then show ?case by simp
next
  case (Suc fuel)
  let ?k = "pipe_room q cs"
  from pipewrite_wake_at [OF Suc.prems(1), of False cs n] obtain s1 where
    w: "pipewrite_wake False cs n s = Inr (write_end False True n q cs, s1)"
    and at1: "pipe_at f d (q @ take ?k cs) True wo s1" by blast
  have le: "length q \<le> PIPESIZE" using Suc.prems(1) by (rule pipe_at_length)
  show ?case
  proof (cases "length q + length cs \<le> PIPESIZE")
    case True
    then have "?k = length cs" by (simp add: pipe_room_def)
    with w at1 True show ?thesis by (simp add: write_end_def)
  next
    case False
    then have k: "?k = PIPESIZE - length q" "?k \<le> length cs" by (simp_all add: pipe_room_def)
    let ?q1 = "q @ take ?k cs"
    have len: "length ?q1 = PIPESIZE" using k le by simp
    from piperead_at [OF at1, of False m] obtain s2 where
      r: "piperead False m s1 = Inr (read_end False wo m ?q1, s2)"
      and at2: "pipe_at f d (drop (nat m) ?q1) True wo s2" by blast
    have ne: "?q1 \<noteq> []" using len by (auto simp: PIPESIZE_def)
    have "length (drop (nat m) ?q1) < PIPESIZE"
      using Suc.prems(2) len by (simp only: length_drop) (simp add: PIPESIZE_def)
    moreover have "length (drop ?k cs) < fuel" using Suc.prems(3) k le by (auto split: if_splits)
    ultimately obtain rd s' q' where p: "pipe_pump fuel m (drop ?k cs) n s2 = Inr (Some (n, rd, s'))"
      "pipe_at f d q' True wo s'" "drop (nat m) ?q1 @ drop ?k cs = rd @ q'"
      using Suc.IH [OF at2 Suc.prems(2), of "drop ?k cs"] by auto
    have "q @ cs = (take (nat m) ?q1 @ rd) @ q'"
      using p(3) by (metis append_assoc append_take_drop_id)
    moreover have "pipe_pump (Suc fuel) m cs n s = Inr (Some (n, take (nat m) ?q1 @ rd, s'))"
      using False w r ne p(1) by (simp add: write_end_def read_end_def del: take_append drop_append append_is_Nil_conv)
    ultimately show ?thesis using p(2) by blast
  qed
qed

section \<open>Properties\<close>

text \<open>
  C4: a pipe is a first-in first-out channel. Whatever readers, writers, woken writers and closes are
  interleaved on it (none past its buffer, none after the last end closed), no call panics, and the
  bytes delivered so far followed by the bytes still in the ring are the bytes the ring held at first
  followed by what each writer put in: a prefix of what it offered. This holds across the wrap of the
  32-bit counters.
\<close>

theorem pipe_fifo:
  assumes "cli_at f d (pcpu s)" and "pipe_good (ppipe s)"
    and "pipe_calls (readopen (ppipe s)) (writeopen (ppipe s)) ops"
  shows "\<exists>rd s' ws. pipe_run ops s = Inr (rd, s') \<and> cli_at f d (pcpu s') \<and> pipe_good (ppipe s') \<and>
     list_all2 (\<lambda>op w. prefix w (op_bytes op)) ops ws \<and>
     pipe_q (ppipe s) @ concat ws = rd @ pipe_q (ppipe s')"
proof -
  have "pipe_at f d (pipe_q (ppipe s)) (readopen (ppipe s)) (writeopen (ppipe s)) s"
    using assms by (simp add: pipe_at_def)
  from pipe_run_fifo [OF this assms(3)] show ?thesis by (auto simp: pipe_at_def)
qed

definition pipe_start :: pstate where
  "pipe_start = \<lparr>pcpu = \<lparr>cpsr = 0, ncli = 0, intena = False\<rparr>,
     ppipe = \<lparr>plock = \<lparr>locked = 0, name = ''pipe'', lk_cpu = 0, pcs = []\<rparr>, pdata = (\<lambda>_. CHR 0x00),
       nread = 4294967295, nwrite = 4294967295, readopen = True, writeopen = True\<rparr>, pwakes = []\<rparr>"

theorem pipe_fifo_witness:
  "\<exists>rd s' ws. pipe_run [Write False ''abc'' 3, Read False 2, Close True, Read False 5] pipe_start = Inr (rd, s')
     \<and> cli_at 0 0 (pcpu s') \<and> pipe_good (ppipe s') \<and>
     list_all2 (\<lambda>op w. prefix w (op_bytes op)) [Write False ''abc'' 3, Read False 2, Close True, Read False 5] ws \<and>
     pipe_q (ppipe pipe_start) @ concat ws = rd @ pipe_q (ppipe s')"
  by (rule pipe_fifo) (simp_all add: pipe_start_def cli_at_def pipe_good_def PIPESIZE_def Let_def)



text \<open>
  What the allocators that \<^verbatim>\<open>pipealloc\<close> calls promise: \<open>free\<close> is the set of objects they have left, a null
  result means that there are none, and handing an object back makes it free again; \<open>oth\<close>, the objects
  of the other allocator, are left alone.
\<close>

definition pool_laws :: "('s \<Rightarrow> u32 set) \<Rightarrow> ('s \<Rightarrow> u32 set) \<Rightarrow> ('s \<Rightarrow> u32 \<times> 's) \<Rightarrow> (u32 \<Rightarrow> 's \<Rightarrow> 's) \<Rightarrow> bool" where
  "pool_laws free oth get back \<longleftrightarrow>
     (\<forall>s. 0 \<notin> free s \<and> (case get s of (x, s') \<Rightarrow> oth s' = oth s \<and>
        (if x = 0 then free s = {} \<and> free s' = {} else x \<in> free s \<and> free s' = free s - {x}))) \<and>
     (\<forall>x s. x \<noteq> 0 \<longrightarrow> oth (back x s) = oth s \<and> free (back x s) = insert x (free s))"

lemma pool_get:
  assumes "pool_laws free oth get back" and "get t = (x, t')"
  shows "0 \<notin> free t \<and> oth t' = oth t \<and>
    (if x = 0 then free t = {} \<and> free t' = {} else x \<in> free t \<and> free t' = free t - {x})"
  using assms(1) [unfolded pool_laws_def, THEN conjunct1, THEN spec, of t] unfolding assms(2) by simp

text \<open>
  \<^verbatim>\<open>pipealloc\<close> is all or nothing. It returns 0 with two distinct files and takes exactly one page, or
  it returns \<open>-1\<close> and every file and page it took on the way is free again.
\<close>

lemma pipealloc_all_or_nothing:
  assumes "pool_laws files pages filealloc fileclose" and "pool_laws pages files kalloc kfree"
    and "\<And>p g s. files (setp p g s) = files s \<and> pages (setp p g s) = pages s"
    and "\<And>f g s. files (setf f g s) = files s \<and> pages (setf f g s) = pages s"
    and "pipealloc filealloc fileclose kalloc kfree setp setf s = ((r, f0, f1), s')"
  shows "(r = 0 \<and> f0 \<noteq> f1 \<and> f0 \<in> files s \<and> f1 \<in> files s \<and> files s' = files s - {f0, f1} \<and>
            (\<exists>p\<in>pages s. pages s' = pages s - {p}))
       \<or> (r = - 1 \<and> files s' = files s \<and> pages s' = pages s \<and>
            (pages s = {} \<or> (\<exists>x. files s \<subseteq> {x})))"
proof -
  note fa = pool_get [OF assms(1)] and ka = pool_get [OF assms(2)]
  have fc: "files (fileclose x t) = insert x (files t)" "pages (fileclose x t) = pages t" if "x \<noteq> 0" for x t
    using assms(1) that by (simp_all add: pool_laws_def)
  obtain a s1 where 1: "filealloc s = (a, s1)" by force
  obtain b s2 where 2: "filealloc s1 = (b, s2)" by force
  obtain p s3 where 3: "kalloc s2 = (p, s3)" by force
  consider "a = 0" | "a \<noteq> 0" "b = 0" | "a \<noteq> 0" "b \<noteq> 0" "p = 0" | "a \<noteq> 0" "b \<noteq> 0" "p \<noteq> 0" by blast
  then show ?thesis
  proof cases
    case A: 1
    with assms(5) 1 fa [OF 1] show ?thesis by (auto simp: pipealloc_def)
  next
    case B: 2
    with assms(5) 1 2 fa [OF 1] fa [OF 2] show ?thesis by (auto simp: pipealloc_def fc)
  next
    case C: 3
    with assms(5) 1 2 3 fa [OF 1] fa [OF 2] ka [OF 3] show ?thesis by (auto simp: pipealloc_def fc)
  next
    case 4
    with assms(5) 1 2 3 fa [OF 1] fa [OF 2] ka [OF 3] show ?thesis
      by (auto simp: pipealloc_def Let_def assms(3,4))
  qed
qed

text \<open>Two pools kept as lists, for the witness.\<close>

type_synonym two_pools = "u32 list \<times> u32 list"

definition list_get :: "u32 list \<Rightarrow> u32 \<times> u32 list" where
  "list_get xs = (case removeAll 0 xs of [] \<Rightarrow> (0, []) | x # ys \<Rightarrow> (x, removeAll x ys))"

definition pool_set :: "u32 list \<Rightarrow> u32 set" where
  "pool_set xs = set xs - {0}"

definition get_fst :: "two_pools \<Rightarrow> u32 \<times> two_pools" where
  "get_fst s = (fst (list_get (fst s)), (snd (list_get (fst s)), snd s))"

definition get_snd :: "two_pools \<Rightarrow> u32 \<times> two_pools" where
  "get_snd s = (fst (list_get (snd s)), (fst s, snd (list_get (snd s))))"

definition back_fst :: "u32 \<Rightarrow> two_pools \<Rightarrow> two_pools" where
  "back_fst x s = (x # fst s, snd s)"

definition back_snd :: "u32 \<Rightarrow> two_pools \<Rightarrow> two_pools" where
  "back_snd x s = (fst s, x # snd s)"

lemma list_get_set:
  "let x = fst (list_get xs); ys = snd (list_get xs) in
     if x = 0 then pool_set xs = {} \<and> pool_set ys = {} else x \<in> pool_set xs \<and> pool_set ys = pool_set xs - {x}"
proof (cases "removeAll 0 xs")
  case Nil
  then have "pool_set xs = {}" unfolding pool_set_def by (metis empty_set set_removeAll)
  with Nil show ?thesis by (simp add: list_get_def pool_set_def)
next
  case (Cons y zs)
  then have s: "pool_set xs = insert y (set zs)"
    unfolding pool_set_def by (metis list.simps(15) set_removeAll)
  moreover from s have "y \<noteq> 0" "0 \<notin> set zs" unfolding pool_set_def by blast+
  ultimately show ?thesis unfolding list_get_def Cons Let_def pool_set_def by auto
qed

lemma list_pools:
  "pool_laws (\<lambda>s. pool_set (fst s)) (\<lambda>s. pool_set (snd s)) get_fst back_fst"
  "pool_laws (\<lambda>s. pool_set (snd s)) (\<lambda>s. pool_set (fst s)) get_snd back_snd"
proof -
  have z: "0 \<notin> pool_set xs" "x \<noteq> 0 \<Longrightarrow> pool_set (x # xs) = insert x (pool_set xs)" for x xs
    by (auto simp: pool_set_def)
  show "pool_laws (\<lambda>s. pool_set (fst s)) (\<lambda>s. pool_set (snd s)) get_fst back_fst"
    using list_get_set z unfolding pool_laws_def get_fst_def back_fst_def by (simp add: Let_def)
  show "pool_laws (\<lambda>s. pool_set (snd s)) (\<lambda>s. pool_set (fst s)) get_snd back_snd"
    using list_get_set z unfolding pool_laws_def get_snd_def back_snd_def by (simp add: Let_def)
qed

end
