(* ===== verification/Memide.thy ===== *)
theory Memide
  imports Bio
begin

text \<open>
  The disk in memory (\<^verbatim>\<open>memide.c\<close>): the image linked into the kernel is an array of 512-byte sectors, and
  \<^verbatim>\<open>iderw\<close> copies one sector to or from a buffer.
\<close>

section \<open>memide.c\<close>

text \<open>The bytes at \<^verbatim>\<open>memdisk\<close> and the static \<^verbatim>\<open>disksize\<close>.\<close>

record memide =
  memdisk :: "u8 list"
  disksize :: u32

definition ideinit :: "u8 list \<Rightarrow> u32 \<Rightarrow> memide \<Rightarrow> memide" where
  "ideinit fs_img_start fs_img_size d = d\<lparr>memdisk := fs_img_start, disksize := fs_img_size div 512\<rparr>"

definition ideintr :: "memide \<Rightarrow> memide" where
  "ideintr d = d"

text \<open>\<^verbatim>\<open>memmove\<close> of 512 bytes at offset \<open>k\<close> of the disk; outside the image it is undefined.\<close>

definition sector_get :: "nat \<Rightarrow> u8 list \<Rightarrow> u8 list res" where
  "sector_get k m = (if k + 512 \<le> length m then Inr (take 512 (drop k m)) else Inl Undefined)"

definition sector_put :: "nat \<Rightarrow> u8 list \<Rightarrow> u8 list \<Rightarrow> u8 list res" where
  "sector_put k d m =
     (if k + 512 \<le> length m \<and> 512 \<le> length d then Inr (take k m @ take 512 d @ drop (k + 512) m)
      else Inl Undefined)"

definition iderw :: "buf \<Rightarrow> memide \<Rightarrow> (buf \<times> memide) res" where
  "iderw b d =
     (if bflags b AND B_BUSY = 0 then Inl (Panic ''iderw: buf not busy'')
      else if bflags b AND (B_VALID OR B_DIRTY) = B_VALID then Inl (Panic ''iderw: nothing to do'')
      else if bdev b \<noteq> 1 then Inl (Panic ''iderw: request not for disk 1'')
      else if bsector b \<ge> disksize d then Inl (Panic ''iderw: sector out of range'')
      else let p = unat (bsector b * 512)
        in if bflags b AND B_DIRTY \<noteq> 0 then
             bindR (sector_put p (bdata b) (memdisk d)) (\<lambda>m.
               Inr (b\<lparr>bflags := (bflags b AND NOT B_DIRTY) OR B_VALID\<rparr>, d\<lparr>memdisk := m\<rparr>))
           else bindR (sector_get p (memdisk d)) (\<lambda>x.
               Inr (b\<lparr>bdata := x, bflags := bflags b OR B_VALID\<rparr>, d)))"

section \<open>Sectors\<close>

text \<open>The image holds the sectors that \<^verbatim>\<open>disksize\<close> announces, below \<open>2 ^ 32\<close> bytes.\<close>

definition disk_wf :: "memide \<Rightarrow> bool" where
  "disk_wf d \<longleftrightarrow> 512 * unat (disksize d) \<le> length (memdisk d) \<and> 512 * unat (disksize d) < 2 ^ 32"

definition sector_of :: "memide \<Rightarrow> u32 \<Rightarrow> u8 list" where
  "sector_of d b = take 512 (drop (512 * unat b) (memdisk d))"

lemma sector_offset:
  assumes "disk_wf d" and "b < disksize d"
  shows "unat (b * 512) = 512 * unat b" "512 * unat b + 512 \<le> length (memdisk d)"
proof -
  have lt: "unat b < unat (disksize d)" using assms(2) by (simp add: word_less_nat_alt)
  have "unat (b * 512) = unat b * 512 mod 2 ^ 32" by (simp add: unat_word_ariths)
  moreover have "unat b * 512 < 2 ^ 32"
    using lt assms(1) unfolding disk_wf_def by linarith
  ultimately show "unat (b * 512) = 512 * unat b" by (simp only: mod_less mult.commute)
  show "512 * unat b + 512 \<le> length (memdisk d)" using lt assms(1) unfolding disk_wf_def by linarith
qed

lemma length_sector_of: "disk_wf d \<Longrightarrow> b < disksize d \<Longrightarrow> length (sector_of d b) = 512"
  using sector_offset(2) [of d b] by (simp add: sector_of_def)

lemma ideinit_wf:
  assumes "unat sz \<le> length img"
  shows "disk_wf (ideinit img sz d)"
proof -
  have "unat (sz div 512) = unat sz div 512" by (simp add: unat_div)
  moreover have "512 * (unat sz div 512) \<le> unat sz" by simp
  ultimately have "512 * unat (sz div 512) \<le> unat sz" by linarith
  moreover have "unat sz < 2 ^ 32" using unat_lt32 [of sz] by simp
  ultimately have "512 * unat (sz div 512) \<le> length img" "512 * unat (sz div 512) < 2 ^ 32"
    using assms by linarith+
  then show ?thesis unfolding disk_wf_def ideinit_def by simp
qed

lemma bit_flags: "bit B_BUSY n \<longleftrightarrow> n = 0" "bit B_VALID n \<longleftrightarrow> n = 1" "bit B_DIRTY n \<longleftrightarrow> n = 2"
proof -
  have p: "B_BUSY = push_bit 0 1" "B_VALID = push_bit 1 1" "B_DIRTY = push_bit 2 1"
    by (simp_all add: B_BUSY_def B_VALID_def B_DIRTY_def)
  show "bit B_BUSY n \<longleftrightarrow> n = 0" "bit B_VALID n \<longleftrightarrow> n = 1" "bit B_DIRTY n \<longleftrightarrow> n = 2"
    unfolding p bit_push_bit_iff bit_1_iff possible_bit_word by auto
qed

lemma flags_test [simp]:
  "x AND B_BUSY = 0 \<longleftrightarrow> \<not> bit x 0"
  "x AND B_DIRTY = 0 \<longleftrightarrow> \<not> bit x 2"
  "x AND (B_VALID OR B_DIRTY) = B_VALID \<longleftrightarrow> bit x 1 \<and> \<not> bit x 2"
proof -
  have "B_BUSY = push_bit 0 1" "B_DIRTY = push_bit 2 1" by (simp_all add: B_BUSY_def B_DIRTY_def)
  then show "x AND B_BUSY = 0 \<longleftrightarrow> \<not> bit x 0" "x AND B_DIRTY = 0 \<longleftrightarrow> \<not> bit x 2"
    using bit_iff_and_push_bit_not_eq_0 [of x 0] bit_iff_and_push_bit_not_eq_0 [of x 2] by simp_all
  show "x AND (B_VALID OR B_DIRTY) = B_VALID \<longleftrightarrow> bit x 1 \<and> \<not> bit x 2"
  proof
    assume e: "x AND (B_VALID OR B_DIRTY) = B_VALID"
    have "bit (x AND (B_VALID OR B_DIRTY)) n = bit B_VALID n" for n unfolding e ..
    from this [of 1] this [of 2] show "bit x 1 \<and> \<not> bit x 2"
      by (simp add: bit_and_iff bit_or_iff bit_flags)
  next
    assume "bit x 1 \<and> \<not> bit x 2"
    then show "x AND (B_VALID OR B_DIRTY) = B_VALID"
      by (intro bit_eqI) (auto simp: bit_and_iff bit_or_iff bit_flags)
  qed
qed

lemma take_drop_cong:
  assumes "length m' = length m" and "\<And>i. k \<le> i \<Longrightarrow> i < k + n \<Longrightarrow> i < length m \<Longrightarrow> m' ! i = m ! i"
  shows "take n (drop k m') = take n (drop k m)"
  by (rule nth_equalityI) (use assms in auto)

lemma splice_nth:
  assumes "k + length x \<le> length m" and "i < k \<or> k + length x \<le> i" and "i < length m"
  shows "(take k m @ x @ drop (k + length x) m) ! i = m ! i"
  using assms by (auto simp: nth_append)

lemma iderw_write:
  assumes "disk_wf d" and "bsector b < disksize d" and "bdev b = 1" and "length (bdata b) = 512"
    and "bit (bflags b) 0" and "bit (bflags b) 2"
  obtains d' where "iderw b d = Inr (b\<lparr>bflags := (bflags b AND NOT B_DIRTY) OR B_VALID\<rparr>, d')"
    "disk_wf d'" "disksize d' = disksize d" "sector_of d' = (sector_of d)(bsector b := bdata b)"
proof -
  let ?k = "512 * unat (bsector b)"
  let ?m = "take ?k (memdisk d) @ bdata b @ drop (?k + 512) (memdisk d)"
  note o = sector_offset [OF assms(1,2)]
  have len: "length ?m = length (memdisk d)" using o(2) assms(4) by simp
  have "iderw b d = Inr (b\<lparr>bflags := (bflags b AND NOT B_DIRTY) OR B_VALID\<rparr>, d\<lparr>memdisk := ?m\<rparr>)"
    using assms o by (simp add: iderw_def sector_put_def Let_def not_le)
  moreover have "disk_wf (d\<lparr>memdisk := ?m\<rparr>)" using assms(1) len by (simp add: disk_wf_def)
  moreover have "sector_of (d\<lparr>memdisk := ?m\<rparr>) = (sector_of d)(bsector b := bdata b)"
  proof
    fix c
    show "sector_of (d\<lparr>memdisk := ?m\<rparr>) c = ((sector_of d)(bsector b := bdata b)) c"
    proof (cases "c = bsector b")
      case True
      then show ?thesis using o(2) assms(4) by (simp add: sector_of_def)
    next
      case False
      then have "unat c \<noteq> unat (bsector b)" by (simp add: word_unat_eq_iff)
      then have far: "i < ?k \<or> ?k + 512 \<le> i" if "512 * unat c \<le> i" "i < 512 * unat c + 512" for i
        using that by linarith
      have "take 512 (drop (512 * unat c) ?m) = take 512 (drop (512 * unat c) (memdisk d))"
        by (rule take_drop_cong [OF len]) (use splice_nth [of ?k "bdata b" "memdisk d"] far o(2) assms(4) in simp)
      with False show ?thesis by (simp add: sector_of_def)
    qed
  qed
  ultimately show thesis by (intro that) simp_all
qed

lemma iderw_read:
  assumes "disk_wf d" and "bsector b < disksize d" and "bdev b = 1"
    and "bit (bflags b) 0" and "\<not> bit (bflags b) 1" and "\<not> bit (bflags b) 2"
  shows "iderw b d = Inr (b\<lparr>bdata := sector_of d (bsector b), bflags := bflags b OR B_VALID\<rparr>, d)"
  using assms sector_offset [OF assms(1,2)]
  by (simp add: iderw_def sector_get_def sector_of_def Let_def not_le)

text \<open>
  C30: the sectors of the disk behave as an array. On a disk that \<^verbatim>\<open>ideinit\<close> sets up, writing a dirty
  locked buffer and then reading any sector into an invalid locked buffer gives the data written when
  it is the same sector and the old contents otherwise; both calls leave their buffer valid and clean.
\<close>

theorem iderw_array:
  assumes "d = ideinit img sz d0" and "unat sz \<le> length img"
    and "bsector w < disksize d" and "bdev w = 1" and "length (bdata w) = 512"
    and "bit (bflags w) 0" and "bit (bflags w) 2"
    and "bsector r < disksize d" and "bdev r = 1"
    and "bit (bflags r) 0" and "\<not> bit (bflags r) 1" and "\<not> bit (bflags r) 2"
  shows "\<exists>w' d' r'. iderw w d = Inr (w', d') \<and> iderw r d' = Inr (r', d') \<and>
     bdata w' = bdata w \<and> bdata r' = (if bsector r = bsector w then bdata w else sector_of d (bsector r)) \<and>
     bit (bflags w') 1 \<and> \<not> bit (bflags w') 2 \<and> bit (bflags r') 1 \<and> \<not> bit (bflags r') 2"
proof -
  have wf: "disk_wf d" using assms(1,2) ideinit_wf by simp
  obtain d' where w: "iderw w d = Inr (w\<lparr>bflags := (bflags w AND NOT B_DIRTY) OR B_VALID\<rparr>, d')"
    and d': "disk_wf d'" "disksize d' = disksize d" "sector_of d' = (sector_of d)(bsector w := bdata w)"
    by (rule iderw_write [OF wf assms(3-7)])
  have "iderw r d' = Inr (r\<lparr>bdata := sector_of d' (bsector r), bflags := bflags r OR B_VALID\<rparr>, d')"
    using iderw_read [OF d'(1) _ assms(9-12)] assms(8) d'(2) by simp
  with w show ?thesis
    using assms(12) d'(3) by (simp add: bit_or_iff bit_and_iff bit_not_iff bit_flags)
qed

theorem iderw_array_witness:
  "\<exists>w' d' r'. iderw \<lparr>bflags = 5, bdev = 1, bsector = 1, bprev = 0, bnext = 0, bqnext = None, bdata = replicate 512 7\<rparr>
        (ideinit (replicate 1024 0) 1024 \<lparr>memdisk = [], disksize = 0\<rparr>) = Inr (w', d') \<and>
     iderw \<lparr>bflags = 1, bdev = 1, bsector = 0, bprev = 0, bnext = 0, bqnext = None, bdata = []\<rparr> d' = Inr (r', d')"
proof -
  let ?w = "\<lparr>bflags = 5, bdev = 1, bsector = 1, bprev = 0, bnext = 0, bqnext = None, bdata = replicate 512 7\<rparr>"
  let ?r = "\<lparr>bflags = 1, bdev = 1, bsector = 0, bprev = 0, bnext = 0, bqnext = None, bdata = []\<rparr>"
  have f: "bit (5 :: u32) 0" "bit (5 :: u32) 2" "bit (1 :: u32) 0" "\<not> bit (1 :: u32) 1" "\<not> bit (1 :: u32) 2"
    by simp_all
  have z: "1 < (1024 :: u32) div 512" "0 < (1024 :: u32) div 512" "unat (1024 :: u32) = 1024" by simp_all
  note * = iderw_array [OF refl, of 1024 "replicate 1024 0" ?w "\<lparr>memdisk = [], disksize = 0\<rparr>" ?r]
  show ?thesis
    using * unfolding ideinit_def buf.simps memide.simps length_replicate z(3)
    using f z by blast
qed

end
