(* ===== verification/Log.thy ===== *)
theory Log
  imports Memide
begin

text \<open>
  The write-ahead log (\<^verbatim>\<open>log.c\<close>). The buffer cache it calls (\<^verbatim>\<open>bread\<close>, \<^verbatim>\<open>bwrite\<close>, \<^verbatim>\<open>brelse\<close>: commented out in
  \<^verbatim>\<open>bio.c\<close>) is a parameter \<open>io\<close> of the operations, whose contract is the locale \<open>block_io\<close>; a transaction
  that crashes after any disk write is recovered to all or nothing of it.
\<close>

section \<open>Blocks\<close>

definition BSIZE :: nat where "BSIZE = 512"
definition LOGSIZE :: nat where "LOGSIZE = 10"
definition ROOTDEV :: u32 where "ROOTDEV = 1"

text \<open>The little-endian word at byte offset \<open>k\<close> of a block.\<close>

definition get32 :: "u8 list \<Rightarrow> nat \<Rightarrow> u32" where
  "get32 b k = ucast (b ! k) OR push_bit 8 (ucast (b ! (k + 1))) OR push_bit 16 (ucast (b ! (k + 2)))
     OR push_bit 24 (ucast (b ! (k + 3)))"

definition put32 :: "nat \<Rightarrow> u32 \<Rightarrow> u8 list \<Rightarrow> u8 list" where
  "put32 k v b = b[k := ucast v, k + 1 := ucast (drop_bit 8 v), k + 2 := ucast (drop_bit 16 v),
     k + 3 := ucast (drop_bit 24 v)]"

lemma length_put32 [simp]: "length (put32 k v b) = length b"
  by (simp add: put32_def)

lemma split32:
  fixes v :: u32
  shows "(ucast (ucast v :: u8) OR push_bit 8 (ucast (ucast (drop_bit 8 v) :: u8)) OR
     push_bit 16 (ucast (ucast (drop_bit 16 v) :: u8)) OR push_bit 24 (ucast (ucast (drop_bit 24 v) :: u8)) :: u32) = v"
    (is "?w = v")
proof (rule bit_word_eqI)
  fix n assume "n < LENGTH(32)"
  then consider "n < 8" | "8 \<le> n" "n < 16" | "16 \<le> n" "n < 24" | "24 \<le> n" "n < 32" by force
  then show "bit ?w n = bit v n" by cases (auto simp: bit_simps)
qed

lemma get32_put32_same: "k + 3 < length b \<Longrightarrow> get32 (put32 k v b) k = v"
  by (simp add: get32_def put32_def split32)

lemma get32_put32_other: "k + 4 \<le> j \<or> j + 4 \<le> k \<Longrightarrow> get32 (put32 k v b) j = get32 b j"
  by (auto simp: get32_def put32_def)

section \<open>log.c\<close>

text \<open>\<^verbatim>\<open>struct logheader\<close> and \<^verbatim>\<open>struct log\<close>; \<^verbatim>\<open>sector\<close> is an array of \<open>LOGSIZE\<close> entries.\<close>

record logheader =
  lh_n :: int
  lh_sector :: "u32 list"

record log =
  log_lock :: spinlock
  log_start :: u32
  log_size :: int
  log_busy :: bool
  log_dev :: u32
  log_lh :: logheader

text \<open>The buffer cache below the log, over a state \<open>'s\<close>.\<close>

record 's bio =
  bread :: "u32 \<Rightarrow> u32 \<Rightarrow> 's \<Rightarrow> (buf \<times> 's) res"
  bwrite :: "buf \<Rightarrow> 's \<Rightarrow> (buf \<times> 's) res"
  brelse :: "buf \<Rightarrow> 's \<Rightarrow> 's res"

fun install_loop :: "'s bio \<Rightarrow> log \<Rightarrow> nat list \<Rightarrow> 's \<Rightarrow> 's res" where
  "install_loop io lg [] s = Inr s"
| "install_loop io lg (tail # ts) s =
     bindR (bread io (log_dev lg) (log_start lg + of_nat tail + 1) s) (\<lambda>r. case r of (lbuf, s) \<Rightarrow>
     bindR (bread io (log_dev lg) (lh_sector (log_lh lg) ! tail) s) (\<lambda>r. case r of (dbuf, s) \<Rightarrow>
     bindR (bwrite io (dbuf\<lparr>bdata := bdata lbuf\<rparr>) s) (\<lambda>r. case r of (dbuf, s) \<Rightarrow>
     bindR (brelse io lbuf s) (\<lambda>s.
     bindR (brelse io dbuf s) (\<lambda>s. install_loop io lg ts s)))))"

text \<open>Reading \<^verbatim>\<open>log.lh.sector\<close> past its end is undefined, here and below.\<close>

definition install_trans :: "'s bio \<Rightarrow> log \<Rightarrow> 's \<Rightarrow> 's res" where
  "install_trans io lg s =
     (if nat (lh_n (log_lh lg)) \<le> LOGSIZE then install_loop io lg [0..<nat (lh_n (log_lh lg))] s
      else Inl Undefined)"

fun read_sectors :: "u8 list \<Rightarrow> nat list \<Rightarrow> u32 list \<Rightarrow> u32 list" where
  "read_sectors b [] xs = xs"
| "read_sectors b (i # is) xs = read_sectors b is (xs[i := get32 b (4 + 4 * i)])"

definition read_head :: "'s bio \<Rightarrow> log \<Rightarrow> 's \<Rightarrow> (log \<times> 's) res" where
  "read_head io lg s =
     bindR (bread io (log_dev lg) (log_start lg) s) (\<lambda>r. case r of (b, s) \<Rightarrow>
     let n = sint (get32 (bdata b) 0) in
     if nat n \<le> LOGSIZE then
       let lh = (log_lh lg)\<lparr>lh_n := n, lh_sector := read_sectors (bdata b) [0..<nat n] (lh_sector (log_lh lg))\<rparr>
       in bindR (brelse io b s) (\<lambda>s. Inr (lg\<lparr>log_lh := lh\<rparr>, s))
     else Inl Undefined)"

fun write_sectors :: "u32 list \<Rightarrow> nat list \<Rightarrow> u8 list \<Rightarrow> u8 list" where
  "write_sectors xs [] b = b"
| "write_sectors xs (i # is) b = write_sectors xs is (put32 (4 + 4 * i) (xs ! i) b)"

definition write_head :: "'s bio \<Rightarrow> log \<Rightarrow> 's \<Rightarrow> 's res" where
  "write_head io lg s =
     bindR (bread io (log_dev lg) (log_start lg) s) (\<lambda>r. case r of (b, s) \<Rightarrow>
     let n = lh_n (log_lh lg); hb = put32 0 (word_of_int n) (bdata b) in
     if nat n \<le> LOGSIZE then
       bindR (bwrite io (b\<lparr>bdata := write_sectors (lh_sector (log_lh lg)) [0..<nat n] hb\<rparr>) s) (\<lambda>r. case r of (b, s) \<Rightarrow>
       brelse io b s)
     else Inl Undefined)"

definition clear_head :: "log \<Rightarrow> log" where
  "clear_head lg = lg\<lparr>log_lh := (log_lh lg)\<lparr>lh_n := 0\<rparr>\<rparr>"

definition recover_from_log :: "'s bio \<Rightarrow> log \<Rightarrow> 's \<Rightarrow> (log \<times> 's) res" where
  "recover_from_log io lg s =
     bindR (read_head io lg s) (\<lambda>r. case r of (lg, s) \<Rightarrow>
     bindR (install_trans io lg s) (\<lambda>s.
     bindR (write_head io (clear_head lg) s) (\<lambda>s. Inr (clear_head lg, s))))"

text \<open>The superblock (\<^verbatim>\<open>fs.h\<close>); \<^verbatim>\<open>readsb\<close>, commented out in \<^verbatim>\<open>fs.c\<close>, is a parameter.\<close>

record superblock =
  sb_size :: u32
  sb_nblocks :: u32
  sb_ninodes :: u32
  sb_nlog :: u32

definition sizeof_logheader :: nat where "sizeof_logheader = 4 + 4 * LOGSIZE"

definition initlog :: "'s bio \<Rightarrow> (u32 \<Rightarrow> 's \<Rightarrow> (superblock \<times> 's) res) \<Rightarrow> log \<Rightarrow> 's \<Rightarrow> (log \<times> 's) res" where
  "initlog io readsb lg s =
     (if sizeof_logheader \<ge> BSIZE then Inl (Panic ''initlog: too big logheader'')
      else bindR (readsb ROOTDEV s) (\<lambda>r. case r of (sb, s) \<Rightarrow>
        recover_from_log io (lg\<lparr>log_lock := init_lock (log_lock lg) ''log'',
          log_start := sb_size sb - sb_nlog sb, log_size := sint (sb_nlog sb), log_dev := ROOTDEV\<rparr>) s))"

text \<open>
  \<^verbatim>\<open>begin_trans\<close> until it returns or sleeps: \<open>False\<close> is asleep on the log, to try again when woken.
\<close>

definition begin_trans :: "cpu \<Rightarrow> log \<Rightarrow> (bool \<times> cpu \<times> log) res" where
  "begin_trans c lg =
     (case acquire (c, log_lock lg) of (c, l) \<Rightarrow>
      bindR (release (c, l)) (\<lambda>r. case r of (c, l) \<Rightarrow>
      if log_busy lg then Inr (False, c, lg\<lparr>log_lock := l\<rparr>)
      else Inr (True, c, lg\<lparr>log_lock := l, log_busy := True\<rparr>)))"

definition commit_disk :: "'s bio \<Rightarrow> log \<Rightarrow> 's \<Rightarrow> (log \<times> 's) res" where
  "commit_disk io lg s =
     (if lh_n (log_lh lg) > 0 then
        bindR (write_head io lg s) (\<lambda>s.
        bindR (install_trans io lg s) (\<lambda>s.
        bindR (write_head io (clear_head lg) s) (\<lambda>s. Inr (clear_head lg, s))))
      else Inr (lg, s))"

text \<open>\<^verbatim>\<open>commit_trans\<close>; \<^verbatim>\<open>wakeup\<close> lets the sleepers of \<open>begin_trans\<close> run again.\<close>

definition commit_trans :: "'s bio \<Rightarrow> cpu \<Rightarrow> log \<Rightarrow> 's \<Rightarrow> (cpu \<times> log \<times> 's) res" where
  "commit_trans io c lg s =
     bindR (commit_disk io lg s) (\<lambda>r. case r of (lg, s) \<Rightarrow>
     case acquire (c, log_lock lg) of (c, l) \<Rightarrow>
     bindR (release (c, l)) (\<lambda>r. case r of (c, l) \<Rightarrow>
     Inr (c, lg\<lparr>log_lock := l, log_busy := False\<rparr>, s)))"

text \<open>The slot of a sector in the first \<open>n\<close> entries, or \<open>n\<close>.\<close>

fun find_slot :: "u32 list \<Rightarrow> u32 \<Rightarrow> nat list \<Rightarrow> nat \<Rightarrow> nat" where
  "find_slot xs b [] n = n"
| "find_slot xs b (i # is) n = (if xs ! i = b then i else find_slot xs b is n)"

definition log_write :: "'s bio \<Rightarrow> buf \<Rightarrow> log \<Rightarrow> 's \<Rightarrow> (buf \<times> log \<times> 's) res" where
  "log_write io b lg s =
     (let lh = log_lh lg in
      if lh_n lh \<ge> int LOGSIZE \<or> lh_n lh \<ge> log_size lg - 1 then Inl (Panic ''too big a transaction'')
      else if \<not> log_busy lg then Inl (Panic ''write outside of trans'')
      else let i = find_slot (lh_sector lh) (bsector b) [0..<nat (lh_n lh)] (nat (lh_n lh));
               sec = (lh_sector lh)[i := bsector b]
        in bindR (bread io (bdev b) (log_start lg + of_nat i + 1) s) (\<lambda>r. case r of (lbuf, s) \<Rightarrow>
           bindR (bwrite io (lbuf\<lparr>bdata := bdata b\<rparr>) s) (\<lambda>r. case r of (lbuf, s) \<Rightarrow>
           bindR (brelse io lbuf s) (\<lambda>s.
           Inr (b\<lparr>bflags := bflags b OR B_DIRTY\<rparr>,
                lg\<lparr>log_lh := lh\<lparr>lh_n := (if i = nat (lh_n lh) then lh_n lh + 1 else lh_n lh), lh_sector := sec\<rparr>\<rparr>, s)))))"

section \<open>The buffer cache below\<close>

text \<open>A buffer that is locked by its holder, with the number and the data of its block.\<close>

definition buf_is :: "u32 \<Rightarrow> u8 list \<Rightarrow> buf \<Rightarrow> bool" where
  "buf_is b d x \<longleftrightarrow> bdev x = ROOTDEV \<and> bsector x = b \<and> bdata x = d \<and> bit (bflags x) 0"

lemma buf_isI [simp]: "buf_is b d x \<Longrightarrow> buf_is b e (x\<lparr>bdata := e\<rparr>)"
  by (simp add: buf_is_def)

lemma buf_isD: "buf_is b d x \<Longrightarrow> bdata x = d" "buf_is b d x \<Longrightarrow> bsector x = b"
  by (simp_all add: buf_is_def)

text \<open>
  What the comments of \<^verbatim>\<open>bio.c\<close> promise. \<open>at H V h s\<close>: the blocks \<open>H\<close> are locked, \<open>V\<close> is what reading a
  block gives, and \<open>h\<close> is the sequence of block writes that have reached the disk. A buffer that was
  changed stays in the cache only while it is dirty.
\<close>

locale block_io =
  fixes io :: "'s bio"
    and valid :: "u32 \<Rightarrow> bool"
    and at :: "u32 set \<Rightarrow> (u32 \<Rightarrow> u8 list) \<Rightarrow> (u32 \<times> u8 list) list \<Rightarrow> 's \<Rightarrow> bool"
  assumes bread_law: "at H V h s \<Longrightarrow> valid b \<Longrightarrow> b \<notin> H \<Longrightarrow>
      \<exists>x s'. bread io ROOTDEV b s = Inr (x, s') \<and> buf_is b (V b) x \<and> at (insert b H) V h s'"
    and bwrite_law: "at H V h s \<Longrightarrow> valid b \<Longrightarrow> b \<in> H \<Longrightarrow> buf_is b d x \<Longrightarrow> length d = BSIZE \<Longrightarrow>
      \<exists>x' s'. bwrite io x s = Inr (x', s') \<and> buf_is b d x' \<and> at H (V(b := d)) (h @ [(b, d)]) s'"
    and brelse_law: "at H V h s \<Longrightarrow> b \<in> H \<Longrightarrow> buf_is b d x \<Longrightarrow> V b = d \<or> length d = BSIZE \<and> bit (bflags x) 2 \<Longrightarrow>
      \<exists>s'. brelse io x s = Inr s' \<and> at (H - {b}) (V(b := d)) h s'"
    and block_length: "at H V h s \<Longrightarrow> valid b \<Longrightarrow> length (V b) = BSIZE"

text \<open>Blocks after a sequence of writes.\<close>

definition play :: "(u32 \<Rightarrow> u8 list) \<Rightarrow> (u32 \<times> u8 list) list \<Rightarrow> u32 \<Rightarrow> u8 list" where
  "play d ws = fold (\<lambda>w d. d(fst w := snd w)) ws d"

lemma play_simps [simp]:
  "play d [] = d" "play d (w # ws) = play (d(fst w := snd w)) ws" "play d (us @ ws) = play (play d us) ws"
  by (simp_all add: play_def)

lemma play_map_of: "play d ws b = (case map_of (rev ws) b of Some v \<Rightarrow> v | None \<Rightarrow> d b)"
  by (induction ws arbitrary: d) (auto simp: map_add_def split: option.splits)

lemma play_other: "b \<notin> fst ` set ws \<Longrightarrow> play d ws b = d b"
  using map_of_eq_None_iff [of "rev ws" b] by (simp add: play_map_of)

lemma play_again: "play (play d (take k ws)) ws = play d ws"
proof
  fix b
  show "play (play d (take k ws)) ws b = play d ws b"
  proof (cases "b \<in> fst ` set ws")
    case True
    then obtain v where "map_of (rev ws) b = Some v"
      by (metis map_of_eq_None_iff not_None_eq set_rev)
    then show ?thesis by (simp add: play_map_of)
  next
    case False
    then have "b \<notin> fst ` set (take k ws)" using set_take_subset by fastforce
    with False show ?thesis by (simp add: play_other)
  qed
qed

section \<open>The writes of each operation\<close>

text \<open>
  A transaction as the comment of \<^verbatim>\<open>log_write\<close> shows it: for each block, \<^verbatim>\<open>bread\<close>, change the data, \<^verbatim>\<open>log_write\<close>,
  \<^verbatim>\<open>brelse\<close>.
\<close>

fun log_ops :: "'s bio \<Rightarrow> (u32 \<times> u8 list) list \<Rightarrow> log \<Rightarrow> 's \<Rightarrow> (log \<times> 's) res" where
  "log_ops io [] lg s = Inr (lg, s)"
| "log_ops io ((b, d) # ops) lg s =
     bindR (bread io ROOTDEV b s) (\<lambda>r. case r of (x, s) \<Rightarrow>
     bindR (log_write io (x\<lparr>bdata := d\<rparr>) lg s) (\<lambda>r. case r of (x, lg, s) \<Rightarrow>
     bindR (brelse io x s) (\<lambda>s. log_ops io ops lg s)))"

abbreviation lblk :: "log \<Rightarrow> nat \<Rightarrow> u32" where
  "lblk lg i \<equiv> log_start lg + of_nat i + 1"

abbreviation lsec :: "log \<Rightarrow> nat \<Rightarrow> u32" where
  "lsec lg i \<equiv> lh_sector (log_lh lg) ! i"

definition log_area :: "log \<Rightarrow> u32 set" where
  "log_area lg = insert (log_start lg) (lblk lg ` {..<LOGSIZE})"

definition inst_ws :: "log \<Rightarrow> (u32 \<Rightarrow> u8 list) \<Rightarrow> nat list \<Rightarrow> (u32 \<times> u8 list) list" where
  "inst_ws lg V ts = map (\<lambda>i. (lsec lg i, V (lblk lg i))) ts"

definition head_blk :: "log \<Rightarrow> u8 list \<Rightarrow> u8 list" where
  "head_blk lg b = write_sectors (lh_sector (log_lh lg)) [0..<nat (lh_n (log_lh lg))]
     (put32 0 (word_of_int (lh_n (log_lh lg))) b)"

lemma length_write_sectors [simp]: "length (write_sectors xs is b) = length b"
  by (induction xs "is" b rule: write_sectors.induct) simp_all

lemma length_head_blk [simp]: "length (head_blk lg b) = length b"
  by (simp add: head_blk_def)

text \<open>A log whose area and destinations are blocks of the disk, apart from each other.\<close>

definition log_wf :: "(u32 \<Rightarrow> bool) \<Rightarrow> log \<Rightarrow> bool" where
  "log_wf valid lg \<longleftrightarrow> log_dev lg = ROOTDEV \<and> length (lh_sector (log_lh lg)) = LOGSIZE \<and> (\<forall>b\<in>log_area lg. valid b)"

definition home :: "(u32 \<Rightarrow> bool) \<Rightarrow> log \<Rightarrow> u32 \<Rightarrow> bool" where
  "home valid lg b \<longleftrightarrow> valid b \<and> b \<notin> log_area lg"

lemma small_of_nat:
  assumes "i \<le> LOGSIZE" and "j \<le> LOGSIZE"
  shows "(of_nat i :: u32) = of_nat j \<longleftrightarrow> i = j"
proof -
  have "unat (of_nat i :: u32) = i" "unat (of_nat j :: u32) = j"
    using assms by (simp_all add: unat_of_nat32 LOGSIZE_def)
  then show ?thesis by metis
qed

lemma of_nat_Suc_small [simp]: "i < LOGSIZE \<Longrightarrow> (of_nat i + 1 :: u32) \<noteq> 0"
  using small_of_nat [of "Suc i" 0] by (simp add: add.commute)

lemma lblk_start: "i < LOGSIZE \<Longrightarrow> lblk lg i \<noteq> log_start lg"
  by (simp add: add.assoc)

lemma lblk_inj: "i < LOGSIZE \<Longrightarrow> j < LOGSIZE \<Longrightarrow> lblk lg i = lblk lg j \<longleftrightarrow> i = j"
  using small_of_nat [of i j] by simp

lemma homeD:
  assumes "home valid lg b"
  shows "valid b" "b \<noteq> log_start lg" "i < LOGSIZE \<Longrightarrow> b \<noteq> lblk lg i" "i < LOGSIZE \<Longrightarrow> lblk lg i \<noteq> b"
  using assms by (auto simp: home_def log_area_def)

text \<open>The log with the header that a block holds.\<close>

definition load_head :: "u8 list \<Rightarrow> log \<Rightarrow> log" where
  "load_head b lg = lg\<lparr>log_lh := (log_lh lg)\<lparr>lh_n := sint (get32 b 0),
     lh_sector := read_sectors b [0..<nat (sint (get32 b 0))] (lh_sector (log_lh lg))\<rparr>\<rparr>"

lemma dvd_apart: "4 dvd j \<Longrightarrow> 4 dvd k \<Longrightarrow> j \<noteq> k \<Longrightarrow> k + 4 \<le> j \<or> j + 4 \<le> (k :: nat)"
  by (auto elim!: dvdE)

lemma get32_write_sectors:
  "(\<And>i. i \<in> set is \<Longrightarrow> j \<noteq> 4 + 4 * i) \<Longrightarrow> 4 dvd j \<Longrightarrow> get32 (write_sectors xs is b) j = get32 b j"
proof (induction "is" arbitrary: b)
  case (Cons i "is")
  have "4 dvd 4 + 4 * i" by simp
  from Cons.prems(1) [of i] dvd_apart [OF Cons.prems(2) this]
  have "4 + 4 * i + 4 \<le> j \<or> j + 4 \<le> 4 + 4 * i" by simp
  with Cons show ?case by (simp add: get32_put32_other)
qed simp

lemma get32_write_sector:
  assumes "distinct is" and "j \<in> set is" and "\<And>i. i \<in> set is \<Longrightarrow> 4 + 4 * i + 3 < length b"
  shows "get32 (write_sectors xs is b) (4 + 4 * j) = xs ! j"
  using assms
proof (induction "is" arbitrary: b)
  case (Cons i "is")
  show ?case
  proof (cases "j = i")
    case True
    with Cons.prems(1) have "get32 (write_sectors xs (i # is) b) (4 + 4 * j) = get32 (put32 (4 + 4 * i) (xs ! i) b) (4 + 4 * j)"
      by (auto intro!: get32_write_sectors)
    with True Cons.prems(3) [of i] show ?thesis by (simp add: get32_put32_same)
  next
    case False
    with Cons show ?thesis by simp
  qed
qed simp

lemma read_sectors_nth:
  "distinct is \<Longrightarrow> (\<And>i. i \<in> set is \<Longrightarrow> i < length xs) \<Longrightarrow>
     length (read_sectors b is xs) = length xs \<and>
     (\<forall>j. read_sectors b is xs ! j = (if j \<in> set is then get32 b (4 + 4 * j) else xs ! j))"
  by (induction b "is" xs rule: read_sectors.induct) auto

lemma head_blk_get:
  assumes "length b = BSIZE" and "0 \<le> lh_n (log_lh lg)" and "nat (lh_n (log_lh lg)) \<le> LOGSIZE"
  shows "sint (get32 (head_blk lg b) 0) = lh_n (log_lh lg)"
    and "i < nat (lh_n (log_lh lg)) \<Longrightarrow> get32 (head_blk lg b) (4 + 4 * i) = lsec lg i"
proof -
  let ?n = "lh_n (log_lh lg)"
  have n: "0 \<le> ?n" "?n \<le> 10" using assms(2,3) by (simp_all add: LOGSIZE_def)
  have "get32 (head_blk lg b) 0 = word_of_int ?n"
    unfolding head_blk_def using assms(1) by (subst get32_write_sectors) (auto simp: get32_put32_same BSIZE_def)
  moreover have "sint (word_of_int ?n :: u32) = ?n"
    using n by (simp add: sint_sbintrunc' signed_take_bit_int_eq_self)
  ultimately show "sint (get32 (head_blk lg b) 0) = ?n" by simp
  show "i < nat ?n \<Longrightarrow> get32 (head_blk lg b) (4 + 4 * i) = lsec lg i"
    unfolding head_blk_def using assms(1) n by (intro get32_write_sector) (auto simp: BSIZE_def)
qed

text \<open>The slot that \<^verbatim>\<open>log_write\<close> uses for a block, and the header it leaves.\<close>

definition log_slot :: "u32 \<Rightarrow> log \<Rightarrow> nat" where
  "log_slot b lg = find_slot (lh_sector (log_lh lg)) b [0..<nat (lh_n (log_lh lg))] (nat (lh_n (log_lh lg)))"

definition log_put :: "u32 \<Rightarrow> log \<Rightarrow> log" where
  "log_put b lg = (let lh = log_lh lg; i = log_slot b lg in
     lg\<lparr>log_lh := lh\<lparr>lh_n := (if i = nat (lh_n lh) then lh_n lh + 1 else lh_n lh),
       lh_sector := (lh_sector lh)[i := b]\<rparr>\<rparr>)"

lemma find_slot_cases:
  "find_slot xs b is n = n \<and> (\<forall>i\<in>set is. xs ! i \<noteq> b) \<or> find_slot xs b is n \<in> set is \<and> xs ! find_slot xs b is n = b"
  by (induction "is") auto

lemma log_slot_cases:
  obtains "log_slot b lg = nat (lh_n (log_lh lg))" "\<And>i. i < nat (lh_n (log_lh lg)) \<Longrightarrow> lsec lg i \<noteq> b"
  | "log_slot b lg < nat (lh_n (log_lh lg))" "lsec lg (log_slot b lg) = b"
  using find_slot_cases [of "lh_sector (log_lh lg)" b "[0..<nat (lh_n (log_lh lg))]" "nat (lh_n (log_lh lg))"]
  unfolding log_slot_def [symmetric] by auto

lemma log_slot_le: "log_slot b lg \<le> nat (lh_n (log_lh lg))"
  by (rule log_slot_cases [of b lg]) simp_all

text \<open>Slots \<open>f\<close> with the data \<open>w\<close> that record the last write to each block of \<open>ops\<close>.\<close>

definition tracks :: "nat \<Rightarrow> (nat \<Rightarrow> u32) \<Rightarrow> (nat \<Rightarrow> u8 list) \<Rightarrow> (u32 \<times> u8 list) list \<Rightarrow> bool" where
  "tracks n f w ops \<longleftrightarrow> n \<le> length ops \<and> inj_on f {..<n} \<and> f ` {..<n} = fst ` set ops \<and>
     (\<forall>i<n. map_of (rev ops) (f i) = Some (w i))"

lemma tracks_append:
  assumes "tracks n f w ops" and "\<And>i. i < n \<Longrightarrow> f i \<noteq> b" and "\<And>i. i < n \<Longrightarrow> f' i = f i" and "f' n = b"
    and "\<And>i. i < n \<Longrightarrow> w' i = w i" and "w' n = d"
  shows "tracks (Suc n) f' w' (ops @ [(b, d)])"
proof -
  have im: "f' ` {..<n} = f ` {..<n}" using assms(3) by simp
  have nb: "b \<notin> f ` {..<n}" using assms(2) by auto
  have "inj_on f' {..<n}" using assms(1,3) by (simp add: tracks_def inj_on_def)
  then have "inj_on f' {..<Suc n}" using nb im assms(4) by (simp add: lessThan_Suc)
  moreover have "f' ` {..<Suc n} = insert b (f ` {..<n})" using im assms(4) by (simp add: lessThan_Suc)
  moreover have "map_of (rev (ops @ [(b, d)])) (f' i) = Some (w' i)" if "i < Suc n" for i
    using that assms by (cases "i = n") (auto simp: tracks_def)
  ultimately show ?thesis using assms(1) by (simp add: tracks_def image_Un)
qed

lemma tracks_absorb:
  assumes "tracks n f w ops" and "k < n" and "f k = b" and "\<And>i. i < n \<Longrightarrow> i \<noteq> k \<Longrightarrow> w' i = w i" and "w' k = d"
  shows "tracks n f w' (ops @ [(b, d)])"
proof -
  have inj: "f i = b \<longleftrightarrow> i = k" if "i < n" for i
    using assms(1-3) that by (auto simp: tracks_def inj_on_def)
  have "map_of (rev (ops @ [(b, d)])) (f i) = Some (w' i)" if "i < n" for i
    using that assms(1,4,5) inj [OF that] by (auto simp: tracks_def)
  moreover have "b \<in> f ` {..<n}" using assms(2,3) by auto
  ultimately show ?thesis using assms(1) by (simp add: tracks_def image_Un insert_absorb)
qed

text \<open>The in-memory header and the log blocks record the blocks \<open>ops\<close> of the open transaction.\<close>

definition logged :: "log \<Rightarrow> (u32 \<Rightarrow> u8 list) \<Rightarrow> (u32 \<times> u8 list) list \<Rightarrow> bool" where
  "logged lg V ops \<longleftrightarrow> 0 \<le> lh_n (log_lh lg) \<and> tracks (nat (lh_n (log_lh lg))) (lsec lg) (\<lambda>i. V (lblk lg i)) ops"

lemma logged_put:
  assumes "logged lg V ops" and "lh_n (log_lh lg) < int LOGSIZE" and "length (lh_sector (log_lh lg)) = LOGSIZE"
    and "\<And>i. i < LOGSIZE \<Longrightarrow> lblk lg i \<noteq> b"
  shows "logged (log_put b lg) ((V(lblk lg (log_slot b lg) := d))(b := d)) (ops @ [(b, d)])"
proof -
  let ?n = "nat (lh_n (log_lh lg))" and ?i = "log_slot b lg"
  let ?V = "(V(lblk lg ?i := d))(b := d)"
  have t: "tracks ?n (lsec lg) (\<lambda>i. V (lblk lg i)) ops" "0 \<le> lh_n (log_lh lg)" using assms(1) by (simp_all add: logged_def)
  have n: "?n < LOGSIZE" using assms(2) t(2) by linarith
  have bs: "log_start (log_put b lg) = log_start lg" by (simp add: log_put_def Let_def)
  have V: "?V (lblk lg i) = (if i = ?i then d else V (lblk lg i))" if "i \<le> ?n" for i
    using assms(4) [of i] lblk_inj [of i ?i lg] that n log_slot_le [of b lg]
    by (simp del: add_left_cancel add_right_cancel)
  show ?thesis
  proof (rule log_slot_cases [of b lg])
    assume s: "?i = ?n" "\<And>i. i < ?n \<Longrightarrow> lsec lg i \<noteq> b"
    have p: "nat (lh_n (log_lh (log_put b lg))) = Suc ?n" "0 \<le> lh_n (log_lh (log_put b lg))"
      "\<And>i. i < ?n \<Longrightarrow> lsec (log_put b lg) i = lsec lg i" "lsec (log_put b lg) ?n = b"
      using s n t assms(3) by (simp_all add: log_put_def Let_def nth_list_update nat_add_distrib)
    have "?V (lblk lg i) = V (lblk lg i)" if "i < ?n" for i using V [of i] that s(1) by auto
    moreover have "?V (lblk lg ?n) = d" using V [of ?n] s(1) by auto
    ultimately show ?thesis unfolding logged_def p(1) bs
      by (intro conjI p(2) tracks_append [OF t(1) s(2) p(3,4)])
  next
    assume s: "?i < ?n" "lsec lg ?i = b"
    have "(lh_sector (log_lh lg))[?i := b] = lh_sector (log_lh lg)"
      using s(2) by (metis list_update_id)
    then have p: "lh_n (log_lh (log_put b lg)) = lh_n (log_lh lg)" "\<And>i. lsec (log_put b lg) i = lsec lg i"
      using s by (simp_all add: log_put_def Let_def)
    show ?thesis unfolding logged_def p bs
      by (intro conjI t(2) tracks_absorb [OF t(1) s]) (use s(1) in \<open>simp_all add: V del: fun_upd_apply\<close>)
  qed
qed

text \<open>The writes that recovery owes to a disk, and the disk once they are done.\<close>

definition head_n :: "log \<Rightarrow> (u32 \<Rightarrow> u8 list) \<Rightarrow> nat" where
  "head_n lg d = nat (sint (get32 (d (log_start lg)) 0))"

definition rec_ws :: "log \<Rightarrow> (u32 \<Rightarrow> u8 list) \<Rightarrow> (u32 \<times> u8 list) list" where
  "rec_ws lg d = map (\<lambda>i. (get32 (d (log_start lg)) (4 + 4 * i), d (lblk lg i))) [0..<head_n lg d]"

definition recovered :: "log \<Rightarrow> (u32 \<Rightarrow> u8 list) \<Rightarrow> u32 \<Rightarrow> u8 list" where
  "recovered lg d = play d (rec_ws lg d)"

lemma load_head_simps [simp]:
  "log_start (load_head b lg) = log_start lg" "log_dev (load_head b lg) = log_dev lg"
  "lh_n (log_lh (load_head b lg)) = sint (get32 b 0)" "log_area (load_head b lg) = log_area lg"
  by (simp_all add: load_head_def log_area_def)

lemma load_head_ws:
  assumes "head_n lg d \<le> LOGSIZE" and "length (lh_sector (log_lh lg)) = LOGSIZE"
  shows "inst_ws (load_head (d (log_start lg)) lg) d [0..<head_n lg d] = rec_ws lg d"
    and "i < head_n lg d \<Longrightarrow> lsec (load_head (d (log_start lg)) lg) i = get32 (d (log_start lg)) (4 + 4 * i)"
    and "length (lh_sector (log_lh (load_head (d (log_start lg)) lg))) = LOGSIZE"
  using read_sectors_nth [of "[0..<head_n lg d]" "lh_sector (log_lh lg)" "d (log_start lg)"] assms
  by (auto simp: inst_ws_def rec_ws_def load_head_def head_n_def)

lemma clear_head_simps [simp]:
  "log_start (clear_head lg) = log_start lg" "log_dev (clear_head lg) = log_dev lg"
  "lh_n (log_lh (clear_head lg)) = 0" "log_area (clear_head lg) = log_area lg"
  "lh_sector (log_lh (clear_head lg)) = lh_sector (log_lh lg)" "log_wf valid (clear_head lg) = log_wf valid lg"
  by (simp_all add: clear_head_def log_area_def log_wf_def)

lemma tracks_map_of:
  assumes "tracks n f w ops"
  shows "map_of (rev (map (\<lambda>i. (f i, w i)) [0..<n])) = map_of (rev ops)"
proof
  fix b
  let ?ws = "map (\<lambda>i. (f i, w i)) [0..<n]"
  show "map_of (rev ?ws) b = map_of (rev ops) b"
  proof (cases "b \<in> f ` {..<n}")
    case True
    then obtain i where i: "i < n" "b = f i" by auto
    have "distinct (map fst (rev ?ws))"
      using assms by (auto simp: tracks_def distinct_map o_def rev_map [symmetric] atLeast0LessThan)
    moreover have "(b, w i) \<in> set (rev ?ws)" using i by auto
    ultimately have "map_of (rev ?ws) b = Some (w i)" by (rule map_of_is_SomeI)
    with i assms show ?thesis by (simp add: tracks_def)
  next
    case False
    then have "map_of (rev ?ws) b = None" "map_of (rev ops) b = None"
      using assms by (auto simp: tracks_def map_of_eq_None_iff atLeast0LessThan image_image)
    then show ?thesis by simp
  qed
qed

text \<open>The points of a commit at which the machine can stop, and the disk that recovery makes of each.\<close>

definition commit_ws :: "log \<Rightarrow> (u32 \<Rightarrow> u8 list) \<Rightarrow> (u32 \<times> u8 list) list" where
  "commit_ws lg V = (let hb = head_blk lg (V (log_start lg)) in
     (log_start lg, hb) # inst_ws lg V [0..<nat (lh_n (log_lh lg))] @ [(log_start lg, put32 0 0 hb)])"

definition home_eq :: "(u32 \<Rightarrow> bool) \<Rightarrow> log \<Rightarrow> (u32 \<Rightarrow> u8 list) \<Rightarrow> (u32 \<Rightarrow> u8 list) \<Rightarrow> bool" where
  "home_eq valid lg d e \<longleftrightarrow> (\<forall>b. home valid lg b \<longrightarrow> d b = e b)"

lemma recovered_empty: "head_n lg d = 0 \<Longrightarrow> recovered lg d = d"
  by (simp add: recovered_def rec_ws_def)

lemma play_log_home:
  assumes "fst ` set ws \<subseteq> log_area lg"
  shows "home_eq valid lg (play d ws) d"
  using assms by (auto simp: home_eq_def home_def intro: play_other)

lemma head_n_clear: "length (d (log_start lg)) = BSIZE \<Longrightarrow> head_n lg (d(log_start lg := put32 0 0 (d (log_start lg)))) = 0"
  by (simp add: head_n_def get32_put32_same BSIZE_def)

lemma crash_points:
  assumes clean: "head_n lg d = 0"
    and lw: "fst ` set lw \<subseteq> lblk lg ` {..<LOGSIZE}"
    and lg1: "log_start lg1 = log_start lg" "0 \<le> lh_n (log_lh lg1)" "nat (lh_n (log_lh lg1)) \<le> LOGSIZE"
    and V: "\<And>b. b \<in> log_area lg \<Longrightarrow> V b = play d lw b" and len: "length (V (log_start lg)) = BSIZE"
    and t: "tracks (nat (lh_n (log_lh lg1))) (lsec lg1) (\<lambda>i. V (lblk lg i)) ops"
    and hs: "\<And>i. i < nat (lh_n (log_lh lg1)) \<Longrightarrow> home valid lg (lsec lg1 i)"
  defines "dk \<equiv> \<lambda>k. play d (take k (lw @ commit_ws lg1 V))"
  shows "home_eq valid lg (recovered lg (dk k)) d \<or> home_eq valid lg (recovered lg (dk k)) (play d ops)"
    and "home_eq valid lg (play d (lw @ commit_ws lg1 V)) (play d ops)"
    and "head_n lg (play d (lw @ commit_ws lg1 V)) = 0"
proof -
  let ?n = "nat (lh_n (log_lh lg1))" and ?b = "log_start lg"
  let ?hb = "head_blk lg1 (V ?b)" and ?inst = "inst_ws lg1 V [0..<?n]"
  let ?X = "(play d lw)(?b := ?hb)"
  have inst: "?inst = map (\<lambda>i. (lsec lg1 i, V (lblk lg i))) [0..<?n]" by (simp add: inst_ws_def lg1(1))
  have cw: "commit_ws lg1 V = (?b, ?hb) # ?inst @ [(?b, put32 0 0 ?hb)]" by (simp add: commit_ws_def Let_def lg1(1))
  have lwb: "?b \<notin> fst ` set (take j lw)" for j
    using lw lblk_start [of _ lg] set_take_subset [of j lw] by (fastforce simp del: add_left_cancel)
  have instb: "c \<notin> fst ` set (take j ?inst)" if "c \<in> log_area lg" for c j
    using hs that set_take_subset [of j ?inst] by (force simp: inst home_def)
  have new: "home_eq valid lg (play ?X ?inst) (play d ops)"
    unfolding home_eq_def
  proof (intro allI impI)
    fix c assume c: "home valid lg c"
    then have "?X c = d c" using lw homeD(2,3) [OF c] by (auto intro: play_other)
    then show "play ?X ?inst c = play d ops c"
      unfolding play_map_of inst tracks_map_of [OF t] by (simp split: option.split)
  qed
  have mid: "recovered lg (play ?X (take j ?inst)) = play ?X ?inst" for j
  proof -
    let ?d = "play ?X (take j ?inst)"
    have hd: "?d ?b = ?hb" using play_other [OF instb] by (simp add: log_area_def)
    have n: "head_n lg ?d = ?n" using head_blk_get(1) [OF len lg1(2,3)] by (simp add: head_n_def hd)
    have "?d (lblk lg i) = V (lblk lg i)" if "i < ?n" for i
      using that lg1(3) lblk_start [of i lg] V [of "lblk lg i"] instb [of "lblk lg i" j]
      by (subst play_other) (simp_all add: log_area_def del: add_left_cancel)
    then have "rec_ws lg ?d = map (\<lambda>i. (lsec lg1 i, V (lblk lg i))) [0..<?n]"
      unfolding rec_ws_def n hd using head_blk_get(2) [OF len lg1(2,3)] by simp
    then have "rec_ws lg ?d = ?inst" unfolding inst [symmetric] .
    then show ?thesis by (simp add: recovered_def play_again)
  qed
  have fin: "play d (lw @ commit_ws lg1 V) = (play ?X ?inst)(?b := put32 0 0 ?hb)"
    by (simp add: cw)
  have st: "play ?X ?inst ?b = ?hb" using instb [of ?b "length ?inst"] by (subst play_other) (simp_all add: log_area_def)
  show cl: "head_n lg (play d (lw @ commit_ws lg1 V)) = 0"
    unfolding fin using head_n_clear [of "play ?X ?inst" lg] st len by simp
  show all: "home_eq valid lg (play d (lw @ commit_ws lg1 V)) (play d ops)"
    using new unfolding fin home_eq_def by (auto simp: homeD(2))
  show "home_eq valid lg (recovered lg (dk k)) d \<or> home_eq valid lg (recovered lg (dk k)) (play d ops)"
  proof -
    consider "k \<le> length lw" | j where "k = length lw + Suc j" "j \<le> length ?inst" | "length lw + Suc (length ?inst) < k"
      by (metis add_Suc_right le_add_diff_inverse less_imp_Suc_add not_le_imp_less add_le_cancel_left Suc_le_mono)
    then show ?thesis
    proof cases
      case 1
      then have dk: "dk k = play d (take k lw)" by (simp add: dk_def)
      have "head_n lg (dk k) = 0" using clean play_other [OF lwb] by (simp add: dk head_n_def)
      then have "recovered lg (dk k) = play d (take k lw)" by (simp add: recovered_empty dk)
      moreover have "fst ` set (take k lw) \<subseteq> log_area lg"
        using lw set_take_subset [of k lw] by (fastforce simp: log_area_def)
      ultimately show ?thesis by (simp add: play_log_home)
    next
      case 2
      then have "dk k = play ?X (take j ?inst)" by (simp add: dk_def cw)
      then show ?thesis using mid [of j] new by simp
    next
      case 3
      then have "dk k = play d (lw @ commit_ws lg1 V)" by (simp add: dk_def cw)
      then show ?thesis using recovered_empty [OF cl] all by simp
    qed
  qed
qed

lemma recover_points:
  assumes len: "length (d (log_start lg)) = BSIZE" and n: "head_n lg d \<le> LOGSIZE"
    and hs: "\<And>i. i < head_n lg d \<Longrightarrow> home valid lg (get32 (d (log_start lg)) (4 + 4 * i))"
  defines "ws \<equiv> rec_ws lg d @ [(log_start lg, put32 0 0 (d (log_start lg)))]"
  shows "head_n lg (play d ws) = 0 \<and> home_eq valid lg (play d ws) (recovered lg d) \<and>
     (\<forall>k. home_eq valid lg (recovered lg (play d (take k ws))) (recovered lg d))"
proof -
  let ?b = "log_start lg" and ?r = "rec_ws lg d"
  have out: "c \<notin> fst ` set (take j ?r)" if "c \<in> log_area lg" for c j
    using hs that set_take_subset [of j ?r] by (force simp: rec_ws_def home_def)
  have fin: "play d ws = (play d ?r)(?b := put32 0 0 (d ?b))" by (simp add: ws_def)
  have st: "play d (take j ?r) ?b = d ?b" for j using play_other [OF out] by (simp add: log_area_def)
  have cl: "head_n lg (play d ws) = 0"
    unfolding fin using head_n_clear [of "play d ?r" lg] st [of "length ?r"] len by simp
  have all: "home_eq valid lg (play d ws) (recovered lg d)"
    unfolding fin home_eq_def recovered_def by (auto simp: homeD(2))
  have mid: "recovered lg (play d (take j ?r)) = recovered lg d" for j
  proof -
    let ?d = "play d (take j ?r)"
    have hn: "head_n lg ?d = head_n lg d" by (simp add: head_n_def st)
    have "?d (lblk lg i) = d (lblk lg i)" if "i < head_n lg d" for i
      using that n out [of "lblk lg i" j] by (intro play_other) (simp add: log_area_def)
    then have "rec_ws lg ?d = ?r" unfolding rec_ws_def [of lg ?d] hn st by (simp add: rec_ws_def)
    then show ?thesis by (simp add: recovered_def play_again)
  qed
  have "home_eq valid lg (recovered lg (play d (take k ws))) (recovered lg d)" for k
  proof (cases "k \<le> length ?r")
    case True
    then show ?thesis using mid [of k] by (simp add: ws_def home_eq_def)
  next
    case False
    then have "take k ws = ws" by (simp add: ws_def)
    then show ?thesis using recovered_empty [OF cl] all by simp
  qed
  with cl all show ?thesis by blast
qed

context block_io
begin

lemma install_loop_at:
  assumes "log_dev lg = ROOTDEV"
  shows "at H V h s \<Longrightarrow> (\<And>i. i \<in> set ts \<Longrightarrow> valid (lblk lg i) \<and> valid (lsec lg i) \<and> lblk lg i \<notin> H \<and> lsec lg i \<notin> H) \<Longrightarrow>
     (\<And>i j. i \<in> set ts \<Longrightarrow> j \<in> set ts \<Longrightarrow> lsec lg i \<noteq> lblk lg j) \<Longrightarrow>
     \<exists>s'. install_loop io lg ts s = Inr s' \<and> at H (play V (inst_ws lg V ts)) (h @ inst_ws lg V ts) s'"
proof (induction ts arbitrary: V h s)
  case Nil
  then show ?case by (simp add: inst_ws_def)
next
  case (Cons t ts)
  let ?l = "lblk lg t" and ?b = "lsec lg t"
  have v: "valid ?l" "valid ?b" "?l \<notin> H" "?b \<notin> H" using Cons.prems(2) [of t] by simp_all
  have ne: "?b \<noteq> ?l" using Cons.prems(3) by simp
  obtain x s1 where 1: "bread io ROOTDEV ?l s = Inr (x, s1)" "buf_is ?l (V ?l) x" "at (insert ?l H) V h s1"
    using bread_law [OF Cons.prems(1) v(1,3)] by blast
  obtain y s2 where 2: "bread io ROOTDEV ?b s1 = Inr (y, s2)" "buf_is ?b (V ?b) y" "at (insert ?b (insert ?l H)) V h s2"
    using bread_law [OF 1(3) v(2)] v(4) ne by blast
  let ?V = "V(?b := V ?l)" and ?h = "h @ [(?b, V ?l)]"
  obtain y1 s3 where 3: "bwrite io (y\<lparr>bdata := V ?l\<rparr>) s2 = Inr (y1, s3)" "buf_is ?b (V ?l) y1"
      "at (insert ?b (insert ?l H)) ?V ?h s3"
    using bwrite_law [OF 2(3) v(2) _ buf_isI [OF 2(2)] block_length [OF 2(3) v(1)]] by blast
  have "?V ?l = V ?l" using ne by simp
  then obtain s4 where 4: "brelse io x s3 = Inr s4" "at (insert ?b (insert ?l H) - {?l}) (?V(?l := V ?l)) ?h s4"
    using brelse_law [OF 3(3) _ 1(2)] by blast
  have eq4: "insert ?b (insert ?l H) - {?l} = insert ?b H" "?V(?l := V ?l) = ?V"
    using ne v(3) by auto
  obtain s5 where 5: "brelse io y1 s4 = Inr s5" "at (insert ?b H - {?b}) (?V(?b := V ?l)) ?h s5"
    using brelse_law [OF 4(2) [unfolded eq4] _ 3(2)] by auto
  have eq5: "insert ?b H - {?b} = H" "?V(?b := V ?l) = ?V" using v(4) by auto
  have "lblk lg i \<noteq> ?b" if "i \<in> set ts" for i using Cons.prems(3) [of t i] that by auto
  then have "inst_ws lg ?V ts = inst_ws lg V ts" by (simp add: inst_ws_def)
  moreover obtain s' where "install_loop io lg ts s5 = Inr s'"
      "at H (play ?V (inst_ws lg ?V ts)) (?h @ inst_ws lg ?V ts) s'"
    using Cons.IH [OF 5(2) [unfolded eq5]] Cons.prems(2,3) list.set_intros(2) by metis
  moreover have "inst_ws lg V (t # ts) = (?b, V ?l) # inst_ws lg V ts" by (simp add: inst_ws_def)
  ultimately show ?case
    using 1(1) 2(1) 3(1) 4(1) 5(1) buf_isD(1) [OF 1(2)] assms by simp
qed

lemma write_head_at:
  assumes "log_wf valid lg" and "nat (lh_n (log_lh lg)) \<le> LOGSIZE" and "at {} V h s"
  shows "\<exists>s'. write_head io lg s = Inr s' \<and>
    at {} (V(log_start lg := head_blk lg (V (log_start lg)))) (h @ [(log_start lg, head_blk lg (V (log_start lg)))]) s'"
proof -
  let ?b = "log_start lg"
  let ?d = "head_blk lg (V ?b)"
  have v: "valid ?b" and dev: "log_dev lg = ROOTDEV" using assms(1) by (simp_all add: log_wf_def log_area_def)
  obtain x s1 where 1: "bread io ROOTDEV ?b s = Inr (x, s1)" "buf_is ?b (V ?b) x" "at {?b} V h s1"
    using bread_law [OF assms(3) v] by auto
  have "length ?d = BSIZE" using block_length [OF assms(3) v] by simp
  then obtain x1 s2 where 2: "bwrite io (x\<lparr>bdata := ?d\<rparr>) s1 = Inr (x1, s2)" "buf_is ?b ?d x1"
      "at {?b} (V(?b := ?d)) (h @ [(?b, ?d)]) s2"
    using bwrite_law [OF 1(3) v _ buf_isI [OF 1(2)]] by blast
  obtain s3 where 3: "brelse io x1 s2 = Inr s3" "at ({?b} - {?b}) ((V(?b := ?d))(?b := ?d)) (h @ [(?b, ?d)]) s3"
    using brelse_law [OF 2(3) _ 2(2)] by auto
  have "write_head io lg s = Inr s3"
    using 1(1) 2(1) 3(1) dev assms(2) buf_isD(1) [OF 1(2)] by (simp add: write_head_def head_blk_def Let_def)
  with 3(2) show ?thesis by simp
qed

lemma install_trans_at:
  assumes "log_wf valid lg" and "nat (lh_n (log_lh lg)) \<le> LOGSIZE" and "at {} V h s"
    and "\<And>i. i < nat (lh_n (log_lh lg)) \<Longrightarrow> home valid lg (lsec lg i)"
  shows "\<exists>s'. install_trans io lg s = Inr s' \<and>
    at {} (play V (inst_ws lg V [0..<nat (lh_n (log_lh lg))])) (h @ inst_ws lg V [0..<nat (lh_n (log_lh lg))]) s'"
proof -
  let ?n = "nat (lh_n (log_lh lg))"
  have a: "lblk lg i \<in> log_area lg" if "i < ?n" for i using that assms(2) by (simp add: log_area_def)
  have "\<exists>s'. install_loop io lg [0..<?n] s = Inr s' \<and>
    at {} (play V (inst_ws lg V [0..<?n])) (h @ inst_ws lg V [0..<?n]) s'"
  proof (rule install_loop_at)
    show "log_dev lg = ROOTDEV" using assms(1) by (simp add: log_wf_def)
    fix i assume "i \<in> set [0..<?n]"
    then have i: "i < ?n" by simp
    with a assms(1) assms(4) [OF i]
    show "valid (lblk lg i) \<and> valid (lsec lg i) \<and> lblk lg i \<notin> {} \<and> lsec lg i \<notin> {}"
      by (simp add: log_wf_def home_def)
    fix j assume "j \<in> set [0..<?n]"
    with a [of j] assms(4) [OF i] show "lsec lg i \<noteq> lblk lg j" by (auto simp: home_def)
  qed (rule assms(3))
  then show ?thesis using assms(2) by (simp add: install_trans_def)
qed

lemma read_head_at:
  assumes "log_wf valid lg" and "at {} V h s" and "nat (sint (get32 (V (log_start lg)) 0)) \<le> LOGSIZE"
  shows "\<exists>s'. read_head io lg s = Inr (load_head (V (log_start lg)) lg, s') \<and> at {} V h s'"
proof -
  let ?b = "log_start lg"
  have v: "valid ?b" and dev: "log_dev lg = ROOTDEV" using assms(1) by (simp_all add: log_wf_def log_area_def)
  obtain x s1 where 1: "bread io ROOTDEV ?b s = Inr (x, s1)" "buf_is ?b (V ?b) x" "at {?b} V h s1"
    using bread_law [OF assms(2) v] by auto
  obtain s2 where 2: "brelse io x s1 = Inr s2" "at ({?b} - {?b}) (V(?b := V ?b)) h s2"
    using brelse_law [OF 1(3) _ 1(2)] by auto
  have "read_head io lg s = Inr (load_head (V ?b) lg, s2)"
    using 1(1) 2(1) dev assms(3) buf_isD(1) [OF 1(2)] by (simp add: read_head_def load_head_def Let_def)
  with 2(2) show ?thesis by simp
qed

lemma recover_at:
  assumes "log_wf valid lg" and "at {} d h s" and "head_n lg d \<le> LOGSIZE"
    and "\<And>i. i < head_n lg d \<Longrightarrow> home valid lg (get32 (d (log_start lg)) (4 + 4 * i))"
  defines "ws \<equiv> rec_ws lg d @ [(log_start lg, put32 0 0 (d (log_start lg)))]"
  shows "\<exists>lg' s'. recover_from_log io lg s = Inr (lg', s') \<and> at {} (play d ws) (h @ ws) s'"
proof -
  let ?lg = "load_head (d (log_start lg)) lg"
  have len: "length (lh_sector (log_lh lg)) = LOGSIZE" using assms(1) by (simp add: log_wf_def)
  note ld = load_head_ws [OF assms(3) len]
  have wf: "log_wf valid ?lg" using assms(1) ld(3) by (simp add: log_wf_def)
  have n: "nat (lh_n (log_lh ?lg)) = head_n lg d" by (simp add: head_n_def)
  obtain s1 where 1: "read_head io lg s = Inr (?lg, s1)" "at {} d h s1"
    using read_head_at [OF assms(1,2)] assms(3) by (auto simp: head_n_def)
  obtain s2 where 2: "install_trans io ?lg s1 = Inr s2" "at {} (play d (rec_ws lg d)) (h @ rec_ws lg d) s2"
    using install_trans_at [OF wf _ 1(2)] assms(3,4) n ld(1,2) by (auto simp: home_def)
  have "log_start lg \<notin> fst ` set (rec_ws lg d)"
    using homeD(2) [OF assms(4)] by (fastforce simp: rec_ws_def)
  then have st: "play d (rec_ws lg d) (log_start lg) = d (log_start lg)" by (rule play_other)
  obtain s3 where 3: "write_head io (clear_head ?lg) s2 = Inr s3"
      "at {} (play d ws) (h @ ws) s3"
    using write_head_at [OF _ _ 2(2), of "clear_head ?lg"] wf st by (auto simp: head_blk_def ws_def)
  show ?thesis using 1(1) 2(1) 3 by (simp add: recover_from_log_def)
qed

lemma commit_at:
  assumes "log_wf valid lg" and "at {} V h s" and "nat (lh_n (log_lh lg)) \<le> LOGSIZE" and "0 < lh_n (log_lh lg)"
    and "\<And>i. i < nat (lh_n (log_lh lg)) \<Longrightarrow> home valid lg (lsec lg i)"
  defines "hb \<equiv> head_blk lg (V (log_start lg))"
  defines "ws \<equiv> (log_start lg, hb) # inst_ws lg V [0..<nat (lh_n (log_lh lg))] @ [(log_start lg, put32 0 0 hb)]"
  shows "\<exists>s'. commit_disk io lg s = Inr (clear_head lg, s') \<and> at {} (play V ws) (h @ ws) s'"
proof -
  let ?b = "log_start lg" and ?n = "nat (lh_n (log_lh lg))"
  obtain s1 where 1: "write_head io lg s = Inr s1" "at {} (V(?b := hb)) (h @ [(?b, hb)]) s1"
    using write_head_at [OF assms(1,3,2)] unfolding hb_def by blast
  have eq: "inst_ws lg (V(?b := hb)) [0..<?n] = inst_ws lg V [0..<?n]"
    using assms(3) lblk_start [of _ lg] by (simp add: inst_ws_def)
  obtain s2 where 2: "install_trans io lg s1 = Inr s2"
      "at {} (play (V(?b := hb)) (inst_ws lg V [0..<?n])) (h @ [(?b, hb)] @ inst_ws lg V [0..<?n]) s2"
    using install_trans_at [OF assms(1,3) 1(2) assms(5)] eq by auto
  have "?b \<notin> fst ` set (inst_ws lg V [0..<?n])" using homeD(2) [OF assms(5)] by (fastforce simp: inst_ws_def)
  then have st: "play (V(?b := hb)) (inst_ws lg V [0..<?n]) ?b = hb" by (simp add: play_other)
  obtain s3 where 3: "write_head io (clear_head lg) s2 = Inr s3" "at {} (play V ws) (h @ ws) s3"
    using write_head_at [OF _ _ 2(2), of "clear_head lg"] assms(1) st by (auto simp: head_blk_def ws_def)
  show ?thesis using 1(1) 2(1) 3 assms(4) by (simp add: commit_disk_def)
qed

lemma log_write_at:
  assumes "log_wf valid lg" and "at H V h s" and "log_area lg \<inter> H = {}" and "buf_is b d x" and "length d = BSIZE"
    and "0 \<le> lh_n (log_lh lg)" and "lh_n (log_lh lg) < int LOGSIZE" and "lh_n (log_lh lg) < log_size lg - 1" and "log_busy lg"
  shows "\<exists>s'. log_write io x lg s = Inr (x\<lparr>bflags := bflags x OR B_DIRTY\<rparr>, log_put b lg, s') \<and>
    at H (V(lblk lg (log_slot b lg) := d)) (h @ [(lblk lg (log_slot b lg), d)]) s'"
proof -
  let ?i = "log_slot b lg"
  let ?b = "lblk lg ?i"
  have i: "?i < LOGSIZE" using log_slot_le [of b lg] assms(6,7) by linarith
  then have a: "?b \<in> log_area lg" by (simp add: log_area_def)
  then have v: "valid ?b" "?b \<notin> H" using assms(1,3) by (auto simp: log_wf_def)
  obtain y s1 where 1: "bread io ROOTDEV ?b s = Inr (y, s1)" "buf_is ?b (V ?b) y" "at (insert ?b H) V h s1"
    using bread_law [OF assms(2) v] by blast
  obtain y1 s2 where 2: "bwrite io (y\<lparr>bdata := d\<rparr>) s1 = Inr (y1, s2)" "buf_is ?b d y1"
      "at (insert ?b H) (V(?b := d)) (h @ [(?b, d)]) s2"
    using bwrite_law [OF 1(3) v(1) _ buf_isI [OF 1(2)] assms(5)] by blast
  obtain s3 where 3: "brelse io y1 s2 = Inr s3" "at (insert ?b H - {?b}) ((V(?b := d))(?b := d)) (h @ [(?b, d)]) s3"
    using brelse_law [OF 2(3) _ 2(2)] by auto
  have "insert ?b H - {?b} = H" using v(2) by auto
  with 3(2) have "at H (V(?b := d)) (h @ [(?b, d)]) s3" by simp
  moreover have "log_write io x lg s = Inr (x\<lparr>bflags := bflags x OR B_DIRTY\<rparr>, log_put b lg, s3)"
    using 1(1) 2(1) 3(1) assms(4,6-9) by (simp add: log_write_def log_put_def log_slot_def buf_is_def Let_def)
  ultimately show ?thesis by blast
qed

lemma log_ops_at:
  "at {} V h s \<Longrightarrow> log_wf valid lg \<Longrightarrow> logged lg V ops0 \<Longrightarrow> log_busy lg \<Longrightarrow>
   (\<And>b d. (b, d) \<in> set ops \<Longrightarrow> home valid lg b \<and> length d = BSIZE) \<Longrightarrow>
   length ops0 + length ops \<le> LOGSIZE \<Longrightarrow> int (length ops0 + length ops) \<le> log_size lg - 1 \<Longrightarrow>
   \<exists>lg' s' V' ws. log_ops io ops lg s = Inr (lg', s') \<and> at {} V' (h @ ws) s' \<and> logged lg' V' (ops0 @ ops) \<and>
     log_wf valid lg' \<and> log_start lg' = log_start lg \<and> fst ` set ws \<subseteq> lblk lg ` {..<LOGSIZE} \<and>
     (\<forall>b\<in>log_area lg. V' b = play V ws b)"
proof (induction ops arbitrary: V h s lg ops0)
  case Nil
  then show ?case by (intro exI [of _ lg] exI [of _ s] exI [of _ V] exI [of _ "[]"]) simp
next
  case (Cons op ops)
  obtain b d where op: "op = (b, d)" by force
  have hb: "home valid lg b" and ld: "length d = BSIZE" using Cons.prems(5) [of b d] op by simp_all
  let ?i = "log_slot b lg"
  let ?W = "V(lblk lg ?i := d)" and ?lg = "log_put b lg"
  have n: "0 \<le> lh_n (log_lh lg)" "lh_n (log_lh lg) < int LOGSIZE" "lh_n (log_lh lg) < log_size lg - 1"
    using Cons.prems(3,6,7) by (auto simp: logged_def tracks_def)
  obtain x s1 where 1: "bread io ROOTDEV b s = Inr (x, s1)" "buf_is b (V b) x" "at {b} V h s1"
    using bread_law [OF Cons.prems(1) homeD(1) [OF hb]] by auto
  let ?x = "x\<lparr>bdata := d\<rparr>"
  have x: "buf_is b d ?x" using 1(2) by simp
  have "log_area lg \<inter> {b} = {}" using hb by (simp add: home_def)
  then obtain s2 where 2: "log_write io ?x lg s1 = Inr (?x\<lparr>bflags := bflags ?x OR B_DIRTY\<rparr>, ?lg, s2)"
      "at {b} ?W (h @ [(lblk lg ?i, d)]) s2"
    using log_write_at [OF Cons.prems(2) 1(3) _ x ld n Cons.prems(4)] by blast
  have "buf_is b d (?x\<lparr>bflags := bflags ?x OR B_DIRTY\<rparr>)" "bit (bflags (?x\<lparr>bflags := bflags ?x OR B_DIRTY\<rparr>)) 2"
    using x by (simp_all add: buf_is_def bit_or_iff bit_flags)
  then obtain s3 where 3: "brelse io (?x\<lparr>bflags := bflags ?x OR B_DIRTY\<rparr>) s2 = Inr s3"
      "at ({b} - {b}) (?W(b := d)) (h @ [(lblk lg ?i, d)]) s3"
    using brelse_law [OF 2(2)] ld by blast
  have i: "?i < LOGSIZE" using log_slot_le [of b lg] n by linarith
  have lg': "log_wf valid ?lg" "log_start ?lg = log_start lg" "log_area ?lg = log_area lg" "log_size ?lg = log_size lg"
      "log_busy ?lg"
    using Cons.prems(2,4) by (simp_all add: log_wf_def log_put_def log_area_def Let_def)
  have lgd: "logged ?lg (?W(b := d)) (ops0 @ [(b, d)])"
    using logged_put [OF Cons.prems(3) _ _ homeD(4) [OF hb]] n Cons.prems(2) by (simp add: log_wf_def)
  have ops: "\<And>b d. (b, d) \<in> set ops \<Longrightarrow> home valid ?lg b \<and> length d = BSIZE"
    using Cons.prems(5) lg'(3) unfolding home_def by (metis list.set_intros(2))
  have room: "length (ops0 @ [(b, d)]) + length ops \<le> LOGSIZE"
    "int (length (ops0 @ [(b, d)]) + length ops) \<le> log_size ?lg - 1" using Cons.prems(6,7) lg'(4) by simp_all
  have at3: "at {} (?W(b := d)) (h @ [(lblk lg ?i, d)]) s3" using 3(2) by (simp only: Diff_cancel)
  obtain lg1 s' V' ws where 4: "log_ops io ops ?lg s3 = Inr (lg1, s')" "at {} V' ((h @ [(lblk lg ?i, d)]) @ ws) s'"
      "logged lg1 V' ((ops0 @ [(b, d)]) @ ops)" "log_wf valid lg1" "log_start lg1 = log_start ?lg"
      "fst ` set ws \<subseteq> lblk ?lg ` {..<LOGSIZE}" "\<forall>c\<in>log_area ?lg. V' c = play (?W(b := d)) ws c"
    using Cons.IH [OF at3 lg'(1) lgd lg'(5) ops room] by blast
  have "V' c = play V ((lblk lg ?i, d) # ws) c" if "c \<in> log_area lg" for c
    using 4(7) that lg'(3) hb by (auto simp: home_def play_map_of split: option.splits)
  with 1(1) 2(1) 3(1) 4 lg' op i show ?case
    by (intro exI [of _ lg1] exI [of _ s'] exI [of _ V'] exI [of _ "(lblk lg ?i, d) # ws"]) (auto simp del: play_simps)
qed

lemma trans_crash:
  assumes "at {} d h s" and "log_wf valid lg" and "log_busy lg" and "lh_n (log_lh lg) = 0" and "head_n lg d = 0"
    and "\<And>b v. (b, v) \<in> set ops \<Longrightarrow> home valid lg b \<and> length v = BSIZE"
    and "length ops \<le> LOGSIZE" and "int (length ops) \<le> log_size lg - 1"
  shows "\<exists>lg1 s1 lg2 s2 ws V. log_ops io ops lg s = Inr (lg1, s1) \<and> commit_disk io lg1 s1 = Inr (lg2, s2) \<and>
     at {} V (h @ ws) s2 \<and> lh_n (log_lh lg2) = 0 \<and> head_n lg (play d ws) = 0 \<and>
     home_eq valid lg (play d ws) (play d ops) \<and>
     (\<forall>k. home_eq valid lg (recovered lg (play d (take k ws))) d \<or>
          home_eq valid lg (recovered lg (play d (take k ws))) (play d ops))"
proof (cases "ops = []")
  case True
  with assms(1,4,5) show ?thesis
    by (intro exI [of _ lg] exI [of _ s] exI [of _ "[]"] exI [of _ d]) (simp add: commit_disk_def home_eq_def recovered_empty)
next
  case False
  have "logged lg d []" using assms(4) by (simp add: logged_def tracks_def)
  moreover have "length [] + length ops \<le> LOGSIZE" "int (length [] + length ops) \<le> log_size lg - 1"
    using assms(7,8) by simp_all
  ultimately obtain lg1 s1 V lw where 1: "log_ops io ops lg s = Inr (lg1, s1)" "at {} V (h @ lw) s1" "logged lg1 V ([] @ ops)"
      "log_wf valid lg1" "log_start lg1 = log_start lg" "fst ` set lw \<subseteq> lblk lg ` {..<LOGSIZE}"
      "\<forall>b\<in>log_area lg. V b = play d lw b"
    using log_ops_at [OF assms(1,2) _ assms(3,6)] by blast
  let ?n = "nat (lh_n (log_lh lg1))"
  have t: "0 \<le> lh_n (log_lh lg1)" "tracks ?n (lsec lg1) (\<lambda>i. V (lblk lg i)) ops"
    using 1(3,5) by (simp_all add: logged_def)
  have n: "?n \<le> LOGSIZE" using t(2) assms(7) by (simp add: tracks_def)
  have hs: "home valid lg (lsec lg1 i)" if "i < ?n" for i
  proof -
    have "lsec lg1 i \<in> fst ` set ops" using t(2) that by (auto simp: tracks_def)
    then show ?thesis using assms(6) by auto
  qed
  have area: "log_area lg1 = log_area lg" using 1(5) by (simp add: log_area_def)
  have "0 < ?n" using t(2) False by (cases "?n = 0") (auto simp: tracks_def)
  then have pos: "0 < lh_n (log_lh lg1)" by simp
  have len: "length (V (log_start lg)) = BSIZE"
    using block_length [OF 1(2)] 1(4,5) by (simp add: log_wf_def log_area_def)
  note cp = crash_points [OF assms(5) 1(6,5) t(1) n 1(7) [THEN bspec] len t(2) hs]
  have "home valid lg1 (lsec lg1 i)" if "i < ?n" for i using hs [OF that] by (simp add: home_def area)
  then obtain s2 where "commit_disk io lg1 s1 = Inr (clear_head lg1, s2)"
      "at {} (play V (commit_ws lg1 V)) ((h @ lw) @ commit_ws lg1 V) s2"
    using commit_at [OF 1(4,2) n pos] unfolding commit_ws_def Let_def by blast
  with 1(1) cp show ?thesis
    by (intro exI [of _ lg1] exI [of _ s1] exI [of _ "clear_head lg1"] exI [of _ s2] exI [of _ "lw @ commit_ws lg1 V"]
        exI [of _ "play V (commit_ws lg1 V)"]) (simp del: take_append play_simps)
qed

lemma recover_crash:
  assumes "log_wf valid lg" and "at {} d h s" and "head_n lg d \<le> LOGSIZE"
    and "\<And>i. i < head_n lg d \<Longrightarrow> home valid lg (get32 (d (log_start lg)) (4 + 4 * i))"
  shows "\<exists>lg' s' ws. recover_from_log io lg s = Inr (lg', s') \<and> at {} (play d ws) (h @ ws) s' \<and>
     head_n lg (play d ws) = 0 \<and> home_eq valid lg (play d ws) (recovered lg d) \<and>
     (\<forall>k. home_eq valid lg (recovered lg (play d (take k ws))) (recovered lg d))"
proof -
  have len: "length (d (log_start lg)) = BSIZE"
    using block_length [OF assms(2)] assms(1) by (simp add: log_wf_def log_area_def)
  show ?thesis
    using recover_at [OF assms] recover_points [OF len assms(3,4)] by blast
qed

end

section \<open>A cache over the disk in memory\<close>

text \<open>
  The contract is met by a cache that keeps every block it has read and reaches the disk through
  \<^verbatim>\<open>iderw\<close>; a second lock of a block would never return.
\<close>

record cached =
  cide :: memide
  cbufs :: "u32 \<Rightarrow> u8 list option"
  clocked :: "u32 set"
  cwrites :: "(u32 \<times> u8 list) list"

definition locked_buf :: "u32 \<Rightarrow> u32 \<Rightarrow> u32 \<Rightarrow> u8 list \<Rightarrow> buf" where
  "locked_buf fl dev b d = \<lparr>bflags = fl, bdev = dev, bsector = b, bprev = 0, bnext = 0, bqnext = None, bdata = d\<rparr>"

definition ide_bread :: "u32 \<Rightarrow> u32 \<Rightarrow> cached \<Rightarrow> (buf \<times> cached) res" where
  "ide_bread dev b s =
     (if b \<in> clocked s then Inl Hang
      else case cbufs s b of
        Some d \<Rightarrow> Inr (locked_buf (B_BUSY OR B_VALID) dev b d, s\<lparr>clocked := insert b (clocked s)\<rparr>)
      | None \<Rightarrow> bindR (iderw (locked_buf B_BUSY dev b []) (cide s)) (\<lambda>r. case r of (x, ide) \<Rightarrow>
          Inr (x, s\<lparr>cide := ide, cbufs := (cbufs s)(b \<mapsto> bdata x), clocked := insert b (clocked s)\<rparr>)))"

definition ide_bwrite :: "buf \<Rightarrow> cached \<Rightarrow> (buf \<times> cached) res" where
  "ide_bwrite x s =
     (if bflags x AND B_BUSY = 0 then Inl (Panic ''bwrite'')
      else bindR (iderw (x\<lparr>bflags := bflags x OR B_DIRTY\<rparr>) (cide s)) (\<lambda>r. case r of (y, ide) \<Rightarrow>
        Inr (y, s\<lparr>cide := ide, cbufs := (cbufs s)(bsector x \<mapsto> bdata y), cwrites := cwrites s @ [(bsector x, bdata x)]\<rparr>)))"

definition ide_brelse :: "buf \<Rightarrow> cached \<Rightarrow> cached res" where
  "ide_brelse x s =
     (if bflags x AND B_BUSY = 0 then Inl (Panic ''brelse'')
      else Inr (s\<lparr>cbufs := (cbufs s)(bsector x \<mapsto> bdata x), clocked := clocked s - {bsector x}\<rparr>))"

definition ide_io :: "cached bio" where
  "ide_io = \<lparr>bread = ide_bread, bwrite = ide_bwrite, brelse = ide_brelse\<rparr>"

definition ide_view :: "cached \<Rightarrow> u32 \<Rightarrow> u8 list" where
  "ide_view s b = (case cbufs s b of Some d \<Rightarrow> d | None \<Rightarrow> sector_of (cide s) b)"

definition ide_at :: "u32 \<Rightarrow> u32 set \<Rightarrow> (u32 \<Rightarrow> u8 list) \<Rightarrow> (u32 \<times> u8 list) list \<Rightarrow> cached \<Rightarrow> bool" where
  "ide_at n H V h s \<longleftrightarrow> disk_wf (cide s) \<and> disksize (cide s) = n \<and> clocked s = H \<and> cwrites s = h \<and> ide_view s = V \<and>
     (\<forall>b d. cbufs s b = Some d \<longrightarrow> length d = BSIZE) \<and> (\<forall>b\<in>H. cbufs s b \<noteq> None)"

lemma ide_view_put:
  assumes "cbufs s' = (cbufs s)(b \<mapsto> d)" and "\<And>c. c \<noteq> b \<Longrightarrow> sector_of (cide s') c = sector_of (cide s) c"
  shows "ide_view s' = (ide_view s)(b := d)"
proof
  fix c
  show "ide_view s' c = ((ide_view s)(b := d)) c" using assms
    by (cases "c = b"; cases "cbufs s c") (simp_all add: ide_view_def)
qed

lemma ide_bread_at:
  assumes at: "ide_at n H V h s" and b: "b < n" "b \<notin> H"
  shows "\<exists>x s'. ide_bread ROOTDEV b s = Inr (x, s') \<and> buf_is b (V b) x \<and> ide_at n (insert b H) V h s'"
proof (cases "cbufs s b")
  case None
  let ?x = "locked_buf B_BUSY ROOTDEV b []"
  have v: "V b = sector_of (cide s) b" using at None by (auto simp: ide_at_def ide_view_def)
  have wf: "disk_wf (cide s)" "bsector ?x < disksize (cide s)"
    using at b(1) by (simp_all add: ide_at_def locked_buf_def)
  have x: "iderw ?x (cide s) = Inr (?x\<lparr>bdata := sector_of (cide s) (bsector ?x), bflags := bflags ?x OR B_VALID\<rparr>, cide s)"
    by (rule iderw_read [OF wf]) (simp_all add: locked_buf_def ROOTDEV_def bit_flags)
  have "length (V b) = BSIZE" using length_sector_of [OF wf] v by (simp add: BSIZE_def locked_buf_def)
  moreover have "ide_view (s\<lparr>cide := cide s, cbufs := (cbufs s)(b \<mapsto> V b), clocked := insert b (clocked s)\<rparr>) = V"
    using at v by (auto simp: ide_at_def ide_view_def split: option.splits)
  ultimately show ?thesis using at b None x v
    by (simp add: ide_bread_def ide_at_def buf_is_def locked_buf_def bit_or_iff bit_flags)
next
  case (Some d)
  have "ide_view (s\<lparr>clocked := insert b (clocked s)\<rparr>) = ide_view s"
    by (simp add: ide_view_def fun_eq_iff split: option.split)
  with Some at b show ?thesis
    by (auto simp: ide_bread_def ide_at_def ide_view_def buf_is_def locked_buf_def bit_or_iff bit_flags)
qed

lemma ide_bwrite_at:
  assumes at: "ide_at n H V h s" and b: "b < n" "b \<in> H" and x: "buf_is b d x" and len: "length d = BSIZE"
  shows "\<exists>x' s'. ide_bwrite x s = Inr (x', s') \<and> buf_is b d x' \<and> ide_at n H (V(b := d)) (h @ [(b, d)]) s'"
proof -
  let ?x = "x\<lparr>bflags := bflags x OR B_DIRTY\<rparr>"
  have wf: "disk_wf (cide s)" "bsector ?x < disksize (cide s)" using at b(1) x by (simp_all add: ide_at_def buf_is_def)
  have 1: "bdev ?x = 1" "length (bdata ?x) = 512" "bit (bflags ?x) 0" "bit (bflags ?x) 2"
    using x len by (simp_all add: buf_is_def ROOTDEV_def BSIZE_def bit_or_iff bit_flags)
  obtain e where e: "iderw ?x (cide s) = Inr (?x\<lparr>bflags := (bflags ?x AND NOT B_DIRTY) OR B_VALID\<rparr>, e)"
    "disk_wf e" "disksize e = disksize (cide s)" "sector_of e = (sector_of (cide s))(bsector ?x := bdata ?x)"
    by (rule iderw_write [OF wf 1])
  let ?s = "s\<lparr>cide := e, cbufs := (cbufs s)(b \<mapsto> d), cwrites := cwrites s @ [(b, d)]\<rparr>"
  have "ide_view ?s = (ide_view s)(b := d)" using e(4) x by (intro ide_view_put) (simp_all add: buf_is_def)
  then have "ide_view ?s = V(b := d)" using at by (simp add: ide_at_def)
  then have "ide_at n H (V(b := d)) (h @ [(b, d)]) ?s" using at e(2,3) len by (simp add: ide_at_def)
  moreover have "buf_is b d (?x\<lparr>bflags := (bflags ?x AND NOT B_DIRTY) OR B_VALID\<rparr>)"
    using x by (simp add: buf_is_def bit_or_iff bit_and_iff bit_not_iff bit_flags)
  moreover have "ide_bwrite x s = Inr (?x\<lparr>bflags := (bflags ?x AND NOT B_DIRTY) OR B_VALID\<rparr>, ?s)"
    using x e(1) by (simp add: ide_bwrite_def buf_is_def)
  ultimately show ?thesis by blast
qed

lemma ide_brelse_at:
  assumes at: "ide_at n H V h s" and b: "b \<in> H" and x: "buf_is b d x" and d: "V b = d \<or> length d = BSIZE \<and> bit (bflags x) 2"
  shows "\<exists>s'. ide_brelse x s = Inr s' \<and> ide_at n (H - {b}) (V(b := d)) h s'"
proof -
  let ?s = "s\<lparr>cbufs := (cbufs s)(b \<mapsto> d), clocked := clocked s - {b}\<rparr>"
  have "length d = BSIZE" using at b d by (auto simp: ide_at_def ide_view_def split: option.splits)
  moreover have "ide_view ?s = (ide_view s)(b := d)" by (rule ide_view_put) simp_all
  then have "ide_view ?s = V(b := d)" using at by (simp add: ide_at_def)
  ultimately have "ide_at n (H - {b}) (V(b := d)) h ?s" using at by (simp add: ide_at_def)
  moreover have "ide_brelse x s = Inr ?s" using x by (simp add: ide_brelse_def buf_is_def)
  ultimately show ?thesis by blast
qed

interpretation idelog: block_io ide_io "\<lambda>b. b < n" "ide_at n" for n
proof unfold_locales
  show "length (V b) = BSIZE" if "ide_at n H V h s" "b < n" for H V h s b
    using that length_sector_of [of "cide s" b]
    by (auto simp: ide_at_def ide_view_def BSIZE_def split: option.splits)
qed (simp_all add: ide_io_def ide_bread_at ide_bwrite_at ide_brelse_at)

text \<open>One transaction at a time: \<^verbatim>\<open>begin_trans\<close> goes on only when none is open, and leaves one open.\<close>

lemma begin_trans_exclusive:
  assumes "cli_at p d c"
  shows "\<exists>c' l. begin_trans c lg = Inr (\<not> log_busy lg, c', lg\<lparr>log_lock := l, log_busy := True\<rparr>) \<and> cli_at p d c'"
proof -
  obtain c1 l1 where a: "acquire (c, log_lock lg) = (c1, l1)" by force
  with lock.push_at [of p d "(c, log_lock lg)"] assms have "cli_at p (Suc d) (fst (c1, l1))" by simp
  from lock.pop_at [OF this] obtain c2 l2 where "release (c1, l1) = Inr (c2, l2)" "cli_at p d c2" by auto
  with a show ?thesis by (cases lg) (auto simp: begin_trans_def intro!: exI [of _ l2])
qed

text \<open>A zeroed disk of 20 blocks with its log in the last 11, for the witnesses.\<close>

definition disk20 :: cached where
  "disk20 = \<lparr>cide = \<lparr>memdisk = replicate 10240 0, disksize = 20\<rparr>, cbufs = (\<lambda>_. None), clocked = {}, cwrites = []\<rparr>"

definition log20 :: log where
  "log20 = \<lparr>log_lock = \<lparr>locked = 0, name = ''log'', lk_cpu = 0, pcs = []\<rparr>, log_start = 9, log_size = 11,
     log_busy = True, log_dev = 1, log_lh = \<lparr>lh_n = 0, lh_sector = replicate 10 0\<rparr>\<rparr>"

lemma area20: "log_area log20 = {9, 10, 11, 12, 13, 14, 15, 16, 17, 18, 19}"
proof -
  have "{..<LOGSIZE} = {0, 1, 2, 3, 4, 5, 6, 7, 8, 9}" by (auto simp: LOGSIZE_def)
  then show ?thesis by (simp add: log_area_def log20_def)
qed

lemma disk20_at: "ide_at 20 {} (ide_view disk20) [] disk20"
  by (simp add: ide_at_def disk20_def disk_wf_def)

lemma disk20_view: "ide_view disk20 9 = replicate 512 0"
  by (simp add: ide_view_def disk20_def sector_of_def)

lemma log20_facts:
  "log_wf (\<lambda>b. b < 20) log20" "log_busy log20" "lh_n (log_lh log20) = 0" "log_size log20 = 11"
  "head_n log20 (ide_view disk20) = 0" "home (\<lambda>b. b < 20) log20 3" "home (\<lambda>b. b < 20) log20 4"
proof -
  show "log_wf (\<lambda>b. b < 20) log20" unfolding log_wf_def area20 by (simp add: log20_def ROOTDEV_def LOGSIZE_def)
  show "home (\<lambda>b. b < 20) log20 3" "home (\<lambda>b. b < 20) log20 4" unfolding home_def area20 by simp_all
  have "log_start log20 = 9" by (simp add: log20_def)
  then show "head_n log20 (ide_view disk20) = 0" by (simp add: head_n_def disk20_view get32_def)
qed (simp_all add: log20_def)

section \<open>Properties\<close>

text \<open>
  C1: transactions are atomic. Over any buffer cache that keeps its contract, a transaction on a clean
  log (at most \<open>LOGSIZE\<close> block writes, all outside the log) runs without a panic and commits; and
  whichever of its disk writes is the last before a crash, recovery then finds either none of its
  writes or all of them in place; when the commit has returned, all of them are.
\<close>

theorem log_commit_atomic:
  assumes "block_io io valid at" and "at {} d h s"
    and "log_wf valid lg" and "log_busy lg" and "lh_n (log_lh lg) = 0" and "head_n lg d = 0"
    and "\<And>b v. (b, v) \<in> set ops \<Longrightarrow> home valid lg b \<and> length v = BSIZE"
    and "length ops \<le> LOGSIZE" and "int (length ops) \<le> log_size lg - 1"
  shows "\<exists>lg1 s1 lg2 s2 ws V. log_ops io ops lg s = Inr (lg1, s1) \<and> commit_disk io lg1 s1 = Inr (lg2, s2) \<and>
     at {} V (h @ ws) s2 \<and> lh_n (log_lh lg2) = 0 \<and> head_n lg (play d ws) = 0 \<and>
     home_eq valid lg (play d ws) (play d ops) \<and>
     (\<forall>k. home_eq valid lg (recovered lg (play d (take k ws))) d \<or>
          home_eq valid lg (recovered lg (play d (take k ws))) (play d ops))"
  by (rule block_io.trans_crash [OF assms])

theorem log_commit_atomic_witness:
  "\<exists>lg1 s1 lg2 s2 ws V. log_ops ide_io [(3, replicate 512 7), (4, replicate 512 8), (3, replicate 512 9)] log20 disk20
      = Inr (lg1, s1) \<and> commit_disk ide_io lg1 s1 = Inr (lg2, s2) \<and>
     ide_at 20 {} V ([] @ ws) s2 \<and> lh_n (log_lh lg2) = 0 \<and> head_n log20 (play (ide_view disk20) ws) = 0 \<and>
     home_eq (\<lambda>b. b < 20) log20 (play (ide_view disk20) ws)
       (play (ide_view disk20) [(3, replicate 512 7), (4, replicate 512 8), (3, replicate 512 9)]) \<and>
     (\<forall>k. home_eq (\<lambda>b. b < 20) log20 (recovered log20 (play (ide_view disk20) (take k ws))) (ide_view disk20) \<or>
          home_eq (\<lambda>b. b < 20) log20 (recovered log20 (play (ide_view disk20) (take k ws)))
            (play (ide_view disk20) [(3, replicate 512 7), (4, replicate 512 8), (3, replicate 512 9)]))"
  by (rule log_commit_atomic [OF idelog.block_io_axioms disk20_at])
    (use log20_facts in \<open>auto simp only: set_simps insert_iff empty_iff prod.inject length_replicate BSIZE_def
      LOGSIZE_def list.size\<close>)

text \<open>
  C2: recovery is idempotent. From any disk whose log header names blocks outside the log,
  \<^verbatim>\<open>recover_from_log\<close> installs what the log holds and clears it; and if it crashes after any of its
  writes, running it again gives the same contents.
\<close>

theorem recover_idempotent:
  assumes "block_io io valid at" and "log_wf valid lg" and "at {} d h s" and "head_n lg d \<le> LOGSIZE"
    and "\<And>i. i < head_n lg d \<Longrightarrow> home valid lg (get32 (d (log_start lg)) (4 + 4 * i))"
  shows "\<exists>lg' s' ws. recover_from_log io lg s = Inr (lg', s') \<and> at {} (play d ws) (h @ ws) s' \<and>
     head_n lg (play d ws) = 0 \<and> home_eq valid lg (play d ws) (recovered lg d) \<and>
     (\<forall>k. home_eq valid lg (recovered lg (play d (take k ws))) (recovered lg d))"
  by (rule block_io.recover_crash [OF assms])

theorem recover_idempotent_witness:
  "\<exists>lg' s' ws. recover_from_log ide_io log20 disk20 = Inr (lg', s') \<and> ide_at 20 {} (play (ide_view disk20) ws) ([] @ ws) s' \<and>
     head_n log20 (play (ide_view disk20) ws) = 0 \<and>
     home_eq (\<lambda>b. b < 20) log20 (play (ide_view disk20) ws) (recovered log20 (ide_view disk20)) \<and>
     (\<forall>k. home_eq (\<lambda>b. b < 20) log20 (recovered log20 (play (ide_view disk20) (take k ws)))
        (recovered log20 (ide_view disk20)))"
  by (rule recover_idempotent [OF idelog.block_io_axioms log20_facts(1) disk20_at]) (simp_all add: log20_facts(5))

end
