(* ===== verification/Ulib.thy ===== *)
theory Ulib
  imports Console
begin

text \<open>
  The user library: the string routines of \<^verbatim>\<open>ulib.c\<close> over a byte memory, its input and conversion
  routines, and the formatted output of \<^verbatim>\<open>printf.c\<close>. System calls are the record \<open>usys\<close>, a parameter.
\<close>

section \<open>System calls\<close>

type_synonym cmem = "u32 \<Rightarrow> char"

text \<open>
  What a user program can ask of the kernel, over a state \<open>'w\<close> of the world; a read returns its result
  with the bytes it stored, \<open>u_fstat\<close> the fields of the \<^verbatim>\<open>struct stat\<close>, \<open>u_pipe\<close> the two descriptors.
  \<open>u_fork\<close> is seen from one process: it returns 0 in the child. \<open>u_exec\<close> says whether the program
  was replaced; when it was, the call does not come back.
\<close>

record stat_buf =
  st_type :: int
  st_dev :: int
  st_ino :: u32
  st_nlink :: int
  st_size :: u32

record 'w usys =
  u_read :: "int \<Rightarrow> int \<Rightarrow> 'w \<Rightarrow> int \<times> string \<times> 'w"
  u_write :: "int \<Rightarrow> string \<Rightarrow> 'w \<Rightarrow> int \<times> 'w"
  u_open :: "string \<Rightarrow> int \<Rightarrow> 'w \<Rightarrow> int \<times> 'w"
  u_close :: "int \<Rightarrow> 'w \<Rightarrow> int \<times> 'w"
  u_fstat :: "int \<Rightarrow> 'w \<Rightarrow> int \<times> stat_buf \<times> 'w"
  u_unlink :: "string \<Rightarrow> 'w \<Rightarrow> int \<times> 'w"
  u_mkdir :: "string \<Rightarrow> 'w \<Rightarrow> int \<times> 'w"
  u_link :: "string \<Rightarrow> string \<Rightarrow> 'w \<Rightarrow> int \<times> 'w"
  u_mknod :: "string \<Rightarrow> int \<Rightarrow> int \<Rightarrow> 'w \<Rightarrow> int \<times> 'w"
  u_chdir :: "string \<Rightarrow> 'w \<Rightarrow> int \<times> 'w"
  u_dup :: "int \<Rightarrow> 'w \<Rightarrow> int \<times> 'w"
  u_pipe :: "'w \<Rightarrow> int \<times> (int \<times> int) \<times> 'w"
  u_fork :: "'w \<Rightarrow> int \<times> 'w"
  u_wait :: "'w \<Rightarrow> int \<times> 'w"
  u_kill :: "int \<Rightarrow> 'w \<Rightarrow> int \<times> 'w"
  u_sleep :: "int \<Rightarrow> 'w \<Rightarrow> int \<times> 'w"
  u_exec :: "string \<Rightarrow> string list \<Rightarrow> 'w \<Rightarrow> bool \<times> 'w"

text \<open>A kernel that refuses every call, as a starting point for the worlds of the witnesses.\<close>

definition null_sys :: "'w usys" where
  "null_sys = \<lparr>u_read = (\<lambda>fd n w. (- 1, [], w)), u_write = (\<lambda>fd s w. (- 1, w)), u_open = (\<lambda>p m w. (- 1, w)),
     u_close = (\<lambda>fd w. (- 1, w)), u_fstat = (\<lambda>fd w. (- 1, \<lparr>st_type = 0, st_dev = 0, st_ino = 0, st_nlink = 0, st_size = 0\<rparr>, w)),
     u_unlink = (\<lambda>p w. (- 1, w)), u_mkdir = (\<lambda>p w. (- 1, w)), u_link = (\<lambda>p q w. (- 1, w)),
     u_mknod = (\<lambda>p a b w. (- 1, w)), u_chdir = (\<lambda>p w. (- 1, w)), u_dup = (\<lambda>fd w. (- 1, w)),
     u_pipe = (\<lambda>w. (- 1, (0, 0), w)), u_fork = (\<lambda>w. (- 1, w)), u_wait = (\<lambda>w. (- 1, w)),
     u_kill = (\<lambda>p w. (- 1, w)), u_sleep = (\<lambda>n w. (- 1, w)), u_exec = (\<lambda>p a w. (False, w))\<rparr>"

text \<open>A file that is read at once, and an output, for the witnesses.\<close>

definition file_sys :: "(string \<times> string) usys" where
  "file_sys = null_sys\<lparr>u_read := (\<lambda>fd n w. (int (length (fst w)), fst w, ([], snd w))),
     u_write := (\<lambda>fd s w. (int (length s), (fst w, snd w @ s)))\<rparr>"

section \<open>ulib.c\<close>

partial_function (option) strcpy_loop :: "cmem \<Rightarrow> u32 \<Rightarrow> u32 \<Rightarrow> cmem option" where
  "strcpy_loop m s t =
     (let c = m t; m1 = m(s := c) in if c \<noteq> CHR 0x00 then strcpy_loop m1 (s + 1) (t + 1) else Some m1)"

definition strcpy :: "cmem \<Rightarrow> u32 \<Rightarrow> u32 \<Rightarrow> (u32 \<times> cmem) option" where
  "strcpy m s t = map_option (\<lambda>m1. (s, m1)) (strcpy_loop m s t)"

partial_function (option) strcmp :: "cmem \<Rightarrow> u32 \<Rightarrow> u32 \<Rightarrow> int option" where
  "strcmp m p q =
     (if m p \<noteq> CHR 0x00 \<and> m p = m q then strcmp m (p + 1) (q + 1)
      else Some (int (of_char (m p)) - int (of_char (m q))))"

text \<open>The counter of \<^verbatim>\<open>strlen\<close> is a 32-bit integer, here its bits.\<close>

partial_function (option) strlen_loop :: "cmem \<Rightarrow> u32 \<Rightarrow> u32 \<Rightarrow> u32 option" where
  "strlen_loop m s n = (if m (s + n) \<noteq> CHR 0x00 then strlen_loop m s (n + 1) else Some n)"

definition strlen :: "cmem \<Rightarrow> u32 \<Rightarrow> u32 option" where
  "strlen m s = strlen_loop m s 0"

text \<open>The string instruction behind \<^verbatim>\<open>stosb\<close> (commented out in \<^verbatim>\<open>x86.h\<close>) is a parameter.\<close>

definition umemset :: "(cmem \<Rightarrow> u32 \<Rightarrow> u32 \<Rightarrow> u32 \<Rightarrow> cmem) \<Rightarrow> cmem \<Rightarrow> u32 \<Rightarrow> u32 \<Rightarrow> u32 \<Rightarrow> u32 \<times> cmem" where
  "umemset stosb m dst c n = (dst, stosb m dst c n)"

text \<open>The null pointer that \<^verbatim>\<open>strchr\<close> returns is 0.\<close>

partial_function (option) strchr :: "cmem \<Rightarrow> u32 \<Rightarrow> char \<Rightarrow> u32 option" where
  "strchr m s c =
     (if m s = CHR 0x00 then Some 0 else if m s = c then Some s else strchr m (s + 1) c)"

text \<open>\<^verbatim>\<open>gets\<close> with room for \<open>n\<close> more bytes before the terminator; the result is the string left in \<^verbatim>\<open>buf\<close>.\<close>

fun gets_loop :: "'w usys \<Rightarrow> nat \<Rightarrow> 'w \<Rightarrow> string \<times> 'w" where
  "gets_loop u 0 w = ([], w)"
| "gets_loop u (Suc n) w =
     (case u_read u 0 1 w of (cc, bs, w) \<Rightarrow>
      if cc < 1 then ([], w)
      else let c = hd bs in
        if c = CHR 0x0A \<or> c = CHR 0x0D then ([c], w)
        else case gets_loop u n w of (s, w) \<Rightarrow> (c # s, w))"

definition gets :: "'w usys \<Rightarrow> int \<Rightarrow> 'w \<Rightarrow> string \<times> 'w" where
  "gets u mx w = gets_loop u (nat (mx - 1)) w"

definition stat :: "'w usys \<Rightarrow> string \<Rightarrow> 'w \<Rightarrow> int \<times> stat_buf option \<times> 'w" where
  "stat u n w =
     (case u_open u n 0 w of (fd, w) \<Rightarrow>
      if fd < 0 then (- 1, None, w)
      else case u_fstat u fd w of (r, st, w) \<Rightarrow>
        case u_close u fd w of (_, w) \<Rightarrow> (r, Some st, w))"

text \<open>\<^verbatim>\<open>atoi\<close> on the characters from \<open>s\<close> on; the sum wraps at 32 bits.\<close>

fun atoi_loop :: "string \<Rightarrow> u32 \<Rightarrow> u32" where
  "atoi_loop [] n = n"
| "atoi_loop (c # s) n =
     (if 48 \<le> (of_char c :: nat) \<and> (of_char c :: nat) \<le> 57 then atoi_loop s (n * 10 + of_char c - 48) else n)"

definition atoi :: "string \<Rightarrow> int" where
  "atoi s = sint (atoi_loop s 0)"

fun memmove_loop :: "cmem \<Rightarrow> u32 \<Rightarrow> u32 \<Rightarrow> nat \<Rightarrow> cmem" where
  "memmove_loop m dst src 0 = m"
| "memmove_loop m dst src (Suc n) = memmove_loop (m(dst := m src)) (dst + 1) (src + 1) n"

definition umemmove :: "cmem \<Rightarrow> u32 \<Rightarrow> u32 \<Rightarrow> int \<Rightarrow> u32 \<times> cmem" where
  "umemmove m vdst vsrc n = (vdst, memmove_loop m vdst vsrc (nat n))"

section \<open>printf.c\<close>

definition putc :: "'w usys \<Rightarrow> int \<Rightarrow> char \<Rightarrow> 'w \<Rightarrow> 'w" where
  "putc u fd c w = snd (u_write u fd [c] w)"

fun putcs :: "'w usys \<Rightarrow> int \<Rightarrow> string \<Rightarrow> 'w \<Rightarrow> 'w" where
  "putcs u fd [] w = w"
| "putcs u fd (c # s) w = putcs u fd s (putc u fd c w)"

definition udigits :: string where "udigits = ''0123456789ABCDEF''"

definition uprintint :: "'w usys \<Rightarrow> int \<Rightarrow> u32 \<Rightarrow> u32 \<Rightarrow> bool \<Rightarrow> 'w \<Rightarrow> 'w res" where
  "uprintint u fd xx base sg w =
     (let neg = (sg \<and> sint xx < 0); x = (if neg then - xx else xx)
      in bindR (itoa_loop 16 udigits x base []) (\<lambda>buf.
         if neg then (if length buf < 16 then Inr (putcs u fd (rev (buf @ ''-'')) w) else Inl Undefined)
         else Inr (putcs u fd (rev buf) w)))"

text \<open>
  \<^verbatim>\<open>printf\<close> on the rest of the format, with the state that a percent sign leaves; \<open>str\<close> reads a string
  from an address. Fetching an argument that was not passed is undefined.
\<close>

fun printf_loop :: "'w usys \<Rightarrow> int \<Rightarrow> (u32 \<Rightarrow> string) \<Rightarrow> bool \<Rightarrow> string \<Rightarrow> u32 list \<Rightarrow> 'w \<Rightarrow> 'w res" where
  "printf_loop u fd str pct [] ap w = Inr w"
| "printf_loop u fd str False (c # fmt) ap w =
     (if c = CHR ''%'' then printf_loop u fd str True fmt ap w
      else printf_loop u fd str False fmt ap (putc u fd c w))"
| "printf_loop u fd str True (c # fmt) ap w =
     (if c = CHR ''d'' then
        (case ap of [] \<Rightarrow> Inl Undefined
         | a # ap1 \<Rightarrow> bindR (uprintint u fd a 10 True w) (\<lambda>w. printf_loop u fd str False fmt ap1 w))
      else if c = CHR ''x'' \<or> c = CHR ''p'' then
        (case ap of [] \<Rightarrow> Inl Undefined
         | a # ap1 \<Rightarrow> bindR (uprintint u fd a 16 False w) (\<lambda>w. printf_loop u fd str False fmt ap1 w))
      else if c = CHR ''s'' then
        (case ap of [] \<Rightarrow> Inl Undefined
         | a # ap1 \<Rightarrow> printf_loop u fd str False fmt ap1 (putcs u fd (if a = 0 then ''(null)'' else str a) w))
      else if c = CHR ''c'' then
        (case ap of [] \<Rightarrow> Inl Undefined
         | a # ap1 \<Rightarrow> printf_loop u fd str False fmt ap1 (putc u fd (char_of (unat a)) w))
      else if c = CHR ''%'' then printf_loop u fd str False fmt ap (putc u fd c w)
      else printf_loop u fd str False fmt ap (putc u fd c (putc u fd (CHR ''%'') w)))"

definition printf :: "'w usys \<Rightarrow> int \<Rightarrow> (u32 \<Rightarrow> string) \<Rightarrow> string \<Rightarrow> u32 list \<Rightarrow> 'w \<Rightarrow> 'w res" where
  "printf u fd str fmt ap w = printf_loop u fd str False fmt ap w"

section \<open>Strings in memory\<close>

text \<open>The string \<open>xs\<close> with its terminator at \<open>a\<close>.\<close>

fun cstr :: "cmem \<Rightarrow> u32 \<Rightarrow> string \<Rightarrow> bool" where
  "cstr m a [] = (m a = CHR 0x00)"
| "cstr m a (c # xs) = (c \<noteq> CHR 0x00 \<and> m a = c \<and> cstr m (a + 1) xs)"

lemma strlen_cstr: "cstr m s xs \<Longrightarrow> strlen m s = Some (of_nat (length xs))"
proof -
  have "cstr m (s + n) xs \<Longrightarrow> strlen_loop m s n = Some (n + of_nat (length xs))" for n
  proof (induction xs arbitrary: n)
    case Nil
    then show ?case by (simp add: strlen_loop.simps)
  next
    case (Cons c xs)
    then have "strlen_loop m s n = strlen_loop m s (n + 1)"
      by (subst strlen_loop.simps) simp
    with Cons.IH [of "n + 1"] Cons.prems show ?case by (simp add: add.assoc)
  qed
  from this [of 0] show "cstr m s xs \<Longrightarrow> strlen m s = Some (of_nat (length xs))" by (simp add: strlen_def)
qed

lemma strchr_cstr:
  "cstr m s xs \<Longrightarrow> strchr m s c = Some (if c \<in> set xs then s + of_nat (length (takeWhile (\<lambda>x. x \<noteq> c) xs)) else 0)"
proof (induction xs arbitrary: s)
  case Nil
  then show ?case by (simp add: strchr.simps)
next
  case (Cons a xs)
  show ?case
  proof (cases "a = c")
    case True
    with Cons show ?thesis by (subst strchr.simps) simp
  next
    case False
    with Cons have "strchr m s c = strchr m (s + 1) c" by (subst strchr.simps) simp
    with Cons False show ?thesis by (auto simp: add.assoc)
  qed
qed

text \<open>The order of \<^verbatim>\<open>strcmp\<close>: by the first byte that differs, the terminator being the least.\<close>

definition char_less :: "(char \<times> char) set" where
  "char_less = {(a, b). (of_char a :: nat) < of_char b}"

lemma of_char_pos:
  assumes "c \<noteq> CHR 0x00"
  shows "0 < (of_char c :: nat)"
proof (rule gr0I)
  assume "(of_char c :: nat) = 0"
  then have "(of_char c :: nat) = of_char (CHR 0x00)" by simp
  with assms show False by (simp only: of_char_eq_iff)
qed

lemma strcmp_cstr:
  "cstr m p xs \<Longrightarrow> cstr m q ys \<Longrightarrow>
     \<exists>r. strcmp m p q = Some r \<and> (r = 0 \<longleftrightarrow> xs = ys) \<and> (r < 0 \<longleftrightarrow> (xs, ys) \<in> lexord char_less)"
proof (induction xs arbitrary: p q ys)
  case Nil
  show ?case
  proof (cases ys)
    case Nil
    with \<open>cstr m p []\<close> \<open>cstr m q ys\<close> show ?thesis by (subst strcmp.simps) simp
  next
    case (Cons c zs)
    with \<open>cstr m p []\<close> \<open>cstr m q ys\<close> of_char_pos [of c] show ?thesis by (subst strcmp.simps) simp
  qed
next
  case (Cons a xs)
  show ?case
  proof (cases "m q = a")
    case True
    with Cons.prems obtain zs where ys: "ys = a # zs" "cstr m (q + 1) zs" by (cases ys) auto
    moreover have "strcmp m p q = strcmp m (p + 1) (q + 1)"
      using Cons.prems True by (subst strcmp.simps) simp
    ultimately show ?thesis using Cons.IH [of "p + 1" "q + 1" zs] Cons.prems by (auto simp: char_less_def)
  next
    case False
    then have "strcmp m p q = Some (int (of_char a) - int (of_char (m q)))"
      using Cons.prems by (subst strcmp.simps) auto
    moreover have "(of_char a :: nat) \<noteq> of_char (m q)" using False by simp
    moreover have "cstr m q ys" by (rule Cons.prems(2))
    ultimately show ?thesis using False Cons.prems(1) of_char_pos [of a] by (cases ys) (auto simp: char_less_def)
  qed
qed

text \<open>A forward copy is right when no byte is overwritten before it is read.\<close>

definition copy_safe :: "u32 \<Rightarrow> u32 \<Rightarrow> nat \<Rightarrow> bool" where
  "copy_safe dst src n \<longleftrightarrow> (\<forall>j<n. \<forall>i<j. dst + of_nat i \<noteq> src + of_nat j)"

lemma copy_safe_Suc:
  assumes "copy_safe dst src (Suc n)"
  shows "copy_safe (dst + 1) (src + 1) n" and "j < n \<Longrightarrow> dst \<noteq> src + 1 + of_nat j"
proof -
  show "copy_safe (dst + 1) (src + 1) n"
    unfolding copy_safe_def
  proof (intro allI impI)
    fix j i assume "j < n" "i < j"
    then have "dst + of_nat (Suc i) \<noteq> src + of_nat (Suc j)" using assms unfolding copy_safe_def by blast
    then show "dst + 1 + of_nat i \<noteq> src + 1 + of_nat j" by (simp add: algebra_simps)
  qed
  assume "j < n"
  then have "dst + of_nat 0 \<noteq> src + of_nat (Suc j)" using assms unfolding copy_safe_def by blast
  then show "dst \<noteq> src + 1 + of_nat j" by (simp add: algebra_simps)
qed

lemma memmove_loop_out:
  "(\<And>i. i < n \<Longrightarrow> a \<noteq> dst + of_nat i) \<Longrightarrow> memmove_loop m dst src n a = m a"
proof (induction n arbitrary: m dst src)
  case 0
  then show ?case by simp
next
  case (Suc n)
  have "a \<noteq> dst" using Suc.prems [of 0] by simp
  moreover have "a \<noteq> dst + 1 + of_nat i" if "i < n" for i
    using Suc.prems [of "Suc i"] that by (simp add: algebra_simps)
  ultimately show ?case using Suc.IH by simp
qed

lemma memmove_loop_copies:
  "copy_safe dst src n \<Longrightarrow> n \<le> 4294967296 \<Longrightarrow> i < n \<Longrightarrow>
     memmove_loop m dst src n (dst + of_nat i) = m (src + of_nat i)"
proof (induction n arbitrary: m dst src i)
  case 0
  then show ?case by simp
next
  case (Suc n)
  show ?case
  proof (cases i)
    case 0
    have "dst \<noteq> dst + 1 + of_nat k" if "k < n" for k
    proof
      assume "dst = dst + 1 + of_nat k"
      then have "(of_nat (Suc k) :: u32) = 0" by (simp add: algebra_simps)
      moreover have "unat (of_nat (Suc k) :: u32) = Suc k" using that Suc.prems(2) by (intro unat_of_nat32) simp
      ultimately show False by simp
    qed
    then have "memmove_loop (m(dst := m src)) (dst + 1) (src + 1) n dst = m src"
      by (subst memmove_loop_out) simp_all
    with 0 show ?thesis by simp
  next
    case (Suc k)
    with Suc.prems have k: "k < n" by simp
    have "memmove_loop (m(dst := m src)) (dst + 1) (src + 1) n (dst + 1 + of_nat k) = (m(dst := m src)) (src + 1 + of_nat k)"
      by (rule Suc.IH [OF copy_safe_Suc(1) [OF Suc.prems(1)] _ k]) (use Suc.prems(2) in simp)
    with Suc copy_safe_Suc(2) [OF Suc.prems(1) k] show ?thesis by (simp add: algebra_simps)
  qed
qed

lemma cstr_cong:
  "(\<And>i. i \<le> length xs \<Longrightarrow> m' (a + of_nat i) = m (a + of_nat i)) \<Longrightarrow> cstr m' a xs = cstr m a xs"
proof (induction xs arbitrary: a)
  case Nil
  then show ?case using Nil [of 0] by simp
next
  case (Cons c xs)
  have "m' (a + 1 + of_nat i) = m (a + 1 + of_nat i)" if "i \<le> length xs" for i
    using Cons.prems [of "Suc i"] that by (simp add: algebra_simps)
  with Cons.IH [of "a + 1"] Cons.prems [of 0] show ?case by simp
qed

lemma strcpy_loop_copies:
  "cstr m t xs \<Longrightarrow> length xs < 4294967295 \<Longrightarrow> (\<And>i j. i \<le> length xs \<Longrightarrow> j \<le> length xs \<Longrightarrow> s + of_nat i \<noteq> t + of_nat j) \<Longrightarrow>
   \<exists>m'. strcpy_loop m s t = Some m' \<and> cstr m' s xs \<and> (\<forall>a. (\<forall>i\<le>length xs. a \<noteq> s + of_nat i) \<longrightarrow> m' a = m a)"
proof (induction xs arbitrary: m s t)
  case Nil
  then show ?case by (subst strcpy_loop.simps) (auto dest: spec [of _ 0])
next
  case (Cons c xs)
  let ?m = "m(s := c)"
  have st: "s \<noteq> t + 1 + of_nat j" if "j \<le> length xs" for j
    using Cons.prems(3) [of 0 "Suc j"] that by (simp add: algebra_simps)
  have "cstr ?m (t + 1) xs = cstr m (t + 1) xs"
    by (rule cstr_cong) (use st in \<open>auto simp: eq_commute [of _ s]\<close>)
  then have c1: "cstr ?m (t + 1) xs" using Cons.prems(1) by simp
  have dis: "s + 1 + of_nat i \<noteq> t + 1 + of_nat j" if "i \<le> length xs" "j \<le> length xs" for i j
    using Cons.prems(3) [of "Suc i" "Suc j"] that by (simp add: algebra_simps)
  have len: "length xs < 4294967295" using Cons.prems(2) by simp
  from Cons.IH [OF c1 len dis] obtain m' where m': "strcpy_loop ?m (s + 1) (t + 1) = Some m'" "cstr m' (s + 1) xs"
      "\<forall>a. (\<forall>i\<le>length xs. a \<noteq> s + 1 + of_nat i) \<longrightarrow> m' a = ?m a"
    by blast
  have "s \<noteq> s + 1 + of_nat i" if "i \<le> length xs" for i
  proof
    assume "s = s + 1 + of_nat i"
    then have "(of_nat (Suc i) :: u32) = 0" by (simp add: algebra_simps)
    moreover have "unat (of_nat (Suc i) :: u32) = Suc i" using that Cons.prems(2) by (intro unat_of_nat32) simp
    ultimately show False by simp
  qed
  with m'(3) have "m' s = c" by simp
  moreover have "strcpy_loop m s t = Some m'" using Cons.prems(1) m'(1) by (subst strcpy_loop.simps) simp
  moreover have "m' a = m a" if "\<forall>i\<le>length (c # xs). a \<noteq> s + of_nat i" for a
  proof -
    have "a \<noteq> s + 1 + of_nat i" if "i \<le> length xs" for i
      using \<open>\<forall>i\<le>length (c # xs). a \<noteq> s + of_nat i\<close> [rule_format, of "Suc i"] that by (simp add: algebra_simps)
    moreover have "a \<noteq> s" using that [rule_format, of 0] by simp
    ultimately show ?thesis using m'(3) by simp
  qed
  ultimately show ?case using m'(2) Cons.prems(1) by simp
qed

section \<open>Conversions\<close>

lemma udigits_value: "d < 10 \<Longrightarrow> (of_char (udigits ! d) :: nat) = 48 + d"
proof -
  assume "d < 10"
  then have "d \<in> {0, 1, 2, 3, 4, 5, 6, 7, 8, 9}" by auto
  then show ?thesis unfolding udigits_def by (elim insertE) (simp_all)
qed

lemma atoi_loop_digits:
  assumes "rest = [] \<or> \<not> (48 \<le> (of_char (hd rest) :: nat) \<and> (of_char (hd rest) :: nat) \<le> 57)"
  shows "\<forall>d\<in>set ds. d < 10 \<Longrightarrow>
    atoi_loop (map (\<lambda>d. udigits ! d) ds @ rest) (of_nat k) = of_nat (fold (\<lambda>d acc. acc * 10 + d) ds k)"
proof (induction ds arbitrary: k)
  case Nil
  then show ?case using assms by (cases rest) auto
next
  case (Cons d ds)
  have v: "(of_char (udigits ! d) :: nat) = 48 + d" using Cons.prems by (simp add: udigits_value)
  then have "(of_char (udigits ! d) :: u32) = 48 + of_nat d" by (metis of_nat_of_char of_nat_add of_nat_numeral)
  then have e: "(of_nat k * 10 + of_char (udigits ! d) - 48 :: u32) = of_nat (k * 10 + d)" by simp
  have "atoi_loop (map (\<lambda>d. udigits ! d) (d # ds) @ rest) (of_nat k) =
      atoi_loop (map (\<lambda>d. udigits ! d) ds @ rest) (of_nat k * 10 + of_char (udigits ! d) - 48)"
    using v Cons.prems by simp
  with Cons.IH [of "k * 10 + d"] Cons.prems show ?case unfolding e by simp
qed

lemma atoi_num_str:
  assumes "n < 2147483648" and "rest = [] \<or> \<not> (48 \<le> (of_char (hd rest) :: nat) \<and> (of_char (hd rest) :: nat) \<le> 57)"
  shows "atoi (num_str udigits 10 n @ rest) = int n"
proof -
  have "atoi_loop (num_str udigits 10 n @ rest) (of_nat 0) = of_nat (num_val 10 (rev (digits_rev 10 n)))"
    unfolding num_str_def num_val_def using digits_rev_lt [of 10 n] by (intro atoi_loop_digits [OF assms(2)]) auto
  then have "atoi_loop (num_str udigits 10 n @ rest) 0 = of_nat n" by (simp add: num_val_digits)
  moreover have "sint (word_of_int (int n) :: u32) = int n"
    unfolding sint_sbintrunc' by (rule signed_take_bit_int_eq_self) (use assms(1) in simp_all)
  then have "sint (of_nat n :: u32) = int n" by simp
  ultimately show ?thesis by (simp add: atoi_def)
qed

section \<open>printf\<close>

lemma putcs_append: "putcs u fd (s @ t) w = putcs u fd t (putcs u fd s w)"
  by (induction s arbitrary: w) simp_all

lemma uprintint_text:
  assumes "unat base = 10 \<or> unat base = 16"
  shows "uprintint u fd xx base sg w =
    Inr (putcs u fd (num_int udigits (unat base) (if sg then sint xx else int (unat xx))) w)"
proof -
  have it: "itoa_loop 16 udigits x base [] = Inr (map (\<lambda>d. udigits ! d) (digits_rev (unat base) (unat x)))"
    and len: "length (digits_rev (unat base) (unat x)) < 16" for x
    using itoa_loop_correct [of base udigits x 16 "[]"] digits_rev_u32 [of x] assms
    by (auto simp: udigits_def)
  show ?thesis
  proof (cases "sg \<and> bit xx 31")
    case True
    then have "sint xx < 0" by (simp add: sint_sign)
    with True show ?thesis
      using it [of "- xx"] len [of "- xx"] unat_neg [of xx]
      by (simp add: uprintint_def Let_def num_int_def num_str_def rev_map)
  next
    case False
    then have "sg \<Longrightarrow> nat (sint xx) = unat xx \<and> \<not> sint xx < 0"
      using unat_nonneg [of xx] by (simp add: sint_sign)
    with False show ?thesis
      using it [of xx] by (auto simp: uprintint_def Let_def num_int_def num_str_def rev_map)
  qed
qed

text \<open>The text that \<^verbatim>\<open>printf\<close> means by a format; undefined when an argument is missing.\<close>

fun ufmt_text :: "(u32 \<Rightarrow> string) \<Rightarrow> string \<Rightarrow> u32 list \<Rightarrow> string option" where
  "ufmt_text str [] args = Some []"
| "ufmt_text str [c] args = Some (if c = CHR ''%'' then [] else [c])"
| "ufmt_text str (c # d # fmt) args =
     (if c \<noteq> CHR ''%'' then map_option ((#) c) (ufmt_text str (d # fmt) args)
      else if d \<in> {CHR ''d'', CHR ''x'', CHR ''p'', CHR ''s'', CHR ''c''} then
        (case args of [] \<Rightarrow> None
         | a # as \<Rightarrow> map_option
             ((@) (if d = CHR ''d'' then num_int udigits 10 (sint a)
                   else if d = CHR ''s'' then (if a = 0 then ''(null)'' else str a)
                   else if d = CHR ''c'' then [char_of (unat a)]
                   else num_str udigits 16 (unat a))) (ufmt_text str fmt as))
      else map_option ((@) (if d = CHR ''%'' then ''%'' else [CHR ''%'', d])) (ufmt_text str fmt args))"

definition fmt_res :: "'w usys \<Rightarrow> int \<Rightarrow> string option \<Rightarrow> 'w \<Rightarrow> 'w res" where
  "fmt_res u fd t w = (case t of None \<Rightarrow> Inl Undefined | Some s \<Rightarrow> Inr (putcs u fd s w))"

lemma fmt_res_map [simp]:
  "fmt_res u fd (map_option ((@) s) t) w = fmt_res u fd t (putcs u fd s w)"
  "fmt_res u fd (map_option ((#) c) t) w = fmt_res u fd t (putc u fd c w)"
  "fmt_res u fd None w = Inl Undefined" "fmt_res u fd (Some []) w = Inr w"
  by (simp_all add: fmt_res_def putcs_append split: option.split)

lemma printf_loop_text: "printf_loop u fd str False fmt args w = fmt_res u fd (ufmt_text str fmt args) w"
proof (induction str fmt args arbitrary: w rule: ufmt_text.induct)
  case (3 str c d fmt args)
  note ih = 3
  have x: "uprintint u fd a 16 False w' = Inr (putcs u fd (num_str udigits 16 (unat a)) w')"
    "uprintint u fd a 10 True w' = Inr (putcs u fd (num_int udigits 10 (sint a)) w')" for a w'
    using uprintint_text [of 16 u fd a False w'] uprintint_text [of 10 u fd a True w'] by (simp_all add: num_int_def)
  consider "c \<noteq> CHR ''%''" | "c = CHR ''%''" "d \<in> {CHR ''d'', CHR ''x'', CHR ''p'', CHR ''s'', CHR ''c''}" "args = []"
    | a as where "c = CHR ''%''" "d \<in> {CHR ''d'', CHR ''x'', CHR ''p'', CHR ''s'', CHR ''c''}" "args = a # as"
    | "c = CHR ''%''" "d \<notin> {CHR ''d'', CHR ''x'', CHR ''p'', CHR ''s'', CHR ''c''}"
    by (cases args) auto
  then show ?case
  proof cases
    case 1
    then show ?thesis using ih(1) [OF 1] by simp
  next
    case 2
    then show ?thesis by auto
  next
    case 3
    then have "printf_loop u fd str False fmt as w' = fmt_res u fd (ufmt_text str fmt as) w'" for w'
      using ih(2) by simp
    with 3 x show ?thesis by auto
  next
    case 4
    then have "printf_loop u fd str False fmt args w' = fmt_res u fd (ufmt_text str fmt args) w'" for w'
      using ih(3) by simp
    with 4 show ?thesis by auto
  qed
qed (simp_all add: fmt_res_def)

section \<open>Properties\<close>


definition echo_sys :: "string usys" where
  "echo_sys = null_sys\<lparr>u_write := (\<lambda>fd s w. (int (length s), w @ s))\<rparr>"


text \<open>
  \<^verbatim>\<open>memmove\<close> of the user library copies forward, so it moves the bytes whenever no byte of the source
  is overwritten before it is read, overlapping or not, and changes nothing else; moving three bytes up
  by one repeats the first byte instead.
\<close>

lemma umemmove_forward:
  assumes "copy_safe dst src (nat n)" and "n \<le> 4294967296"
  shows "(\<forall>i<nat n. snd (umemmove m dst src n) (dst + of_nat i) = m (src + of_nat i))
     \<and> (\<forall>a. a \<notin> (\<lambda>i. dst + of_nat i) ` {..<nat n} \<longrightarrow> snd (umemmove m dst src n) a = m a)
     \<and> snd (umemmove m 1 0 3) 3 = m 0"
proof (intro conjI allI impI)
  fix i assume "i < nat n"
  then show "snd (umemmove m dst src n) (dst + of_nat i) = m (src + of_nat i)"
    using memmove_loop_copies [OF assms(1)] assms(2) by (simp add: umemmove_def)
next
  fix a assume "a \<notin> (\<lambda>i. dst + of_nat i) ` {..<nat n}"
  then show "snd (umemmove m dst src n) a = m a"
    unfolding umemmove_def snd_conv by (intro memmove_loop_out) auto
next
  show "snd (umemmove m 1 0 3) 3 = m 0" by (simp add: umemmove_def numeral_3_eq_3)
qed

end
