(* ===== verification/Grep.thy ===== *)
theory Grep
  imports Ulib
begin

text \<open>
  \<^verbatim>\<open>grep.c\<close>: the regular-expression matcher, compared with the language its pattern denotes, and the
  program around it with its 1024-byte buffer.
\<close>

section \<open>The matcher\<close>

text \<open>Patterns and texts are terminated strings, here without the terminator.\<close>

function matchhere :: "string \<Rightarrow> string \<Rightarrow> bool"
  and matchstar :: "char \<Rightarrow> string \<Rightarrow> string \<Rightarrow> bool" where
  "matchhere [] text = True"
| "matchhere (c # re) text =
     (if re \<noteq> [] \<and> hd re = CHR ''*'' then matchstar c (tl re) text
      else if c = CHR ''$'' \<and> re = [] then text = []
      else if text \<noteq> [] \<and> (c = CHR ''.'' \<or> c = hd text) then matchhere re (tl text)
      else False)"
| "matchstar c re text =
     (if matchhere re text then True
      else if text \<noteq> [] \<and> (hd text = c \<or> c = CHR ''.'') then matchstar c re (tl text)
      else False)"
  by pat_completeness auto

termination
  by (relation "measures [\<lambda>x. case x of Inl (re, t) \<Rightarrow> 2 * length re | Inr (c, re, t) \<Rightarrow> 2 * length re + 1,
      \<lambda>x. case x of Inl (re, t) \<Rightarrow> length t | Inr (c, re, t) \<Rightarrow> length t]") auto

fun match_from :: "string \<Rightarrow> string \<Rightarrow> bool" where
  "match_from re [] = matchhere re []"
| "match_from re (t # text) = (matchhere re (t # text) \<or> match_from re text)"

definition match :: "string \<Rightarrow> string \<Rightarrow> bool" where
  "match re text = (if re \<noteq> [] \<and> hd re = CHR ''^'' then matchhere (tl re) text else match_from re text)"

section \<open>The program\<close>

definition GREPBUF :: nat where "GREPBUF = 1024"

text \<open>
  \<^verbatim>\<open>strchr(p, '\n')\<close> in the buffer: where the newline is, \<open>None\<close> when a NUL comes first; running off the end
  of the array is undefined.
\<close>

fun find_nl :: "nat \<Rightarrow> string \<Rightarrow> nat option res" where
  "find_nl p [] = Inl Undefined"
| "find_nl p (c # cs) =
     (if c = CHR 0x00 then Inr None else if c = CHR 0x0A then Inr (Some p) else find_nl (Suc p) cs)"

text \<open>The inner loop from \<open>p\<close>: the buffer, the final \<open>p\<close> and the world after the writes.\<close>

function grep_lines :: "'w usys \<Rightarrow> string \<Rightarrow> nat \<Rightarrow> string \<Rightarrow> 'w \<Rightarrow> (nat \<times> string \<times> 'w) res" where
  "grep_lines u pattern p b w =
     bindR (find_nl p (drop p b)) (\<lambda>r. case r of
       None \<Rightarrow> Inr (p, b, w)
     | Some q \<Rightarrow>
         if p \<le> q \<and> q < length b then
           (if match pattern (take (q - p) (drop p b)) then
              grep_lines u pattern (Suc q) b (snd (u_write u 1 (take (Suc q - p) (drop p b)) w))
            else grep_lines u pattern (Suc q) (b[q := CHR 0x00]) w)
         else Inl Undefined)"
  by pat_completeness auto

termination
  by (relation "measure (\<lambda>(u, pattern, p, b, w). length b - p)") auto

text \<open>
  The outer loop with \<open>m\<close> bytes in the buffer, whose contents it leaves behind; reading outside the
  array is undefined, and a file that never ends gives no result.
\<close>

partial_function (option) grep_loop :: "'w usys \<Rightarrow> string \<Rightarrow> int \<Rightarrow> int \<Rightarrow> string \<Rightarrow> 'w \<Rightarrow> (string \<times> 'w) res option" where
  "grep_loop u pattern fd m b w =
     (if m < 0 then Some (Inl Undefined)
      else case u_read u fd (int GREPBUF - m) w of (n, bs, w) \<Rightarrow>
        if n \<le> 0 then Some (Inr (b, w))
        else let b1 = take (nat m) b @ bs @ drop (nat m + length bs) b; m1 = m + n
          in case grep_lines u pattern 0 b1 w of
               Inl e \<Rightarrow> Some (Inl e)
             | Inr (p, b2, w2) \<Rightarrow>
                 (let m2 = (if p = 0 then 0 else m1);
                      m3 = (if m2 > 0 then m2 - int p else m2);
                      b3 = (if m2 > 0 then take (nat m3) (drop p b2) @ drop (nat m3) b2 else b2)
                  in grep_loop u pattern fd m3 b3 w2))"

definition grep :: "'w usys \<Rightarrow> string \<Rightarrow> int \<Rightarrow> string \<Rightarrow> 'w \<Rightarrow> (string \<times> 'w) res option" where
  "grep u pattern fd b w = grep_loop u pattern fd 0 b w"

text \<open>\<^verbatim>\<open>main\<close>: the files in turn, until one cannot be opened; the programs end by \<^verbatim>\<open>exit\<close>.\<close>

fun grep_files :: "'w usys \<Rightarrow> string \<Rightarrow> string list \<Rightarrow> string \<Rightarrow> 'w \<Rightarrow> 'w res option" where
  "grep_files u pattern [] b w = Some (Inr w)"
| "grep_files u pattern (f # fs) b w =
     (case u_open u f 0 w of (fd, w) \<Rightarrow>
      if fd < 0 then Some (printf u 1 (\<lambda>_. f) (''grep: cannot open %s'' @ [CHR 0x0A]) [1] w)
      else case grep u pattern fd b w of
          None \<Rightarrow> None
        | Some (Inl e) \<Rightarrow> Some (Inl e)
        | Some (Inr (b, w)) \<Rightarrow> grep_files u pattern fs b (snd (u_close u fd w)))"

definition grep_main :: "'w usys \<Rightarrow> string list \<Rightarrow> 'w \<Rightarrow> 'w res option" where
  "grep_main u argv w =
     (let b = replicate GREPBUF (CHR 0x00)
      in if length argv \<le> 1 then Some (printf u 2 (\<lambda>_. []) (''usage: grep pattern [file ...]'' @ [CHR 0x0A]) [] w)
         else if length argv \<le> 2 then
           map_option (\<lambda>r. bindR r (\<lambda>x. Inr (snd x))) (grep u (argv ! 1) 0 b w)
         else grep_files u (argv ! 1) (drop 2 argv) b w)"

section \<open>What a pattern denotes\<close>

text \<open>A pattern is a sequence of single characters and stars, and possibly a final dollar.\<close>

datatype atom = One char | Star char

fun parse_re :: "string \<Rightarrow> atom list \<times> bool" where
  "parse_re [] = ([], False)"
| "parse_re [c] = (if c = CHR ''$'' then ([], True) else ([One c], False))"
| "parse_re (c # d # re) =
     (if d = CHR ''*'' then (Star c # fst (parse_re re), snd (parse_re re))
      else (One c # fst (parse_re (d # re)), snd (parse_re (d # re))))"

definition char_in :: "char \<Rightarrow> char \<Rightarrow> bool" where
  "char_in c t \<longleftrightarrow> c = CHR ''.'' \<or> c = t"

fun atom_lang :: "atom \<Rightarrow> string set" where
  "atom_lang (One c) = {[t] | t. char_in c t}"
| "atom_lang (Star c) = {ts. \<forall>t\<in>set ts. char_in c t}"

fun lang :: "atom list \<Rightarrow> string set" where
  "lang [] = {[]}"
| "lang (a # as) = {x @ y | x y. x \<in> atom_lang a \<and> y \<in> lang as}"

text \<open>Some prefix of the text is in the language, all of it after a final dollar.\<close>

definition prefix_match :: "atom list \<times> bool \<Rightarrow> string \<Rightarrow> bool" where
  "prefix_match p text \<longleftrightarrow> (\<exists>x y. text = x @ y \<and> x \<in> lang (fst p) \<and> (snd p \<longrightarrow> y = []))"

lemma prefix_match_Nil: "prefix_match ([], e) text \<longleftrightarrow> (e \<longrightarrow> text = [])"
  by (auto simp: prefix_match_def)

lemma prefix_match_Cons:
  "prefix_match (a # as, e) text \<longleftrightarrow> (\<exists>x y. text = x @ y \<and> x \<in> atom_lang a \<and> prefix_match (as, e) y)"
proof
  assume "prefix_match (a # as, e) text"
  then obtain v z where v: "text = v @ z" "v \<in> lang (a # as)" "e \<longrightarrow> z = []"
    unfolding prefix_match_def fst_conv snd_conv by blast
  then obtain x y where "v = x @ y" "x \<in> atom_lang a" "y \<in> lang as" by auto
  with v show "\<exists>x y. text = x @ y \<and> x \<in> atom_lang a \<and> prefix_match (as, e) y"
    unfolding prefix_match_def by (intro exI [of _ x] exI [of _ "y @ z"]) auto
next
  assume "\<exists>x y. text = x @ y \<and> x \<in> atom_lang a \<and> prefix_match (as, e) y"
  then obtain x y z where "text = x @ y @ z" "x \<in> atom_lang a" "y \<in> lang as" "e \<longrightarrow> z = []"
    unfolding prefix_match_def fst_conv snd_conv by blast
  then show "prefix_match (a # as, e) text"
    unfolding prefix_match_def by (intro exI [of _ "x @ y"] exI [of _ z]) auto
qed

lemma prefix_match_One:
  "prefix_match (One c # as, e) text \<longleftrightarrow> text \<noteq> [] \<and> char_in c (hd text) \<and> prefix_match (as, e) (tl text)"
proof (cases "text")
  case (Cons t ts)
  have "prefix_match (One c # as, e) text" if "char_in c t" "prefix_match (as, e) ts"
    unfolding prefix_match_Cons using that Cons by (intro exI [of _ "[t]"] exI [of _ ts]) auto
  then show ?thesis using Cons by (auto simp: prefix_match_Cons)
qed (simp add: prefix_match_Cons)

lemma prefix_match_Star:
  "prefix_match (Star c # as, e) text \<longleftrightarrow>
     prefix_match (as, e) text \<or> text \<noteq> [] \<and> char_in c (hd text) \<and> prefix_match (Star c # as, e) (tl text)"
proof (cases "text")
  case Nil
  then show ?thesis by (simp add: prefix_match_Cons)
next
  case (Cons t ts)
  have "(\<exists>x y. text = x @ y \<and> x \<in> atom_lang (Star c) \<and> prefix_match (as, e) y) \<longleftrightarrow>
      prefix_match (as, e) text \<or> (\<exists>a x y. text = (a # x) @ y \<and> a # x \<in> atom_lang (Star c) \<and> prefix_match (as, e) y)"
    (is "?l \<longleftrightarrow> ?r")
  proof
    assume ?l
    then obtain x y where "text = x @ y" "x \<in> atom_lang (Star c)" "prefix_match (as, e) y" by blast
    then show ?r by (cases x) auto
  next
    assume ?r
    then show ?l
    proof
      assume "prefix_match (as, e) text"
      then show ?l by (intro exI [of _ "[]"] exI [of _ "text"]) simp
    qed blast
  qed
  also have "\<dots> \<longleftrightarrow> prefix_match (as, e) text \<or>
      char_in c t \<and> (\<exists>x y. ts = x @ y \<and> x \<in> atom_lang (Star c) \<and> prefix_match (as, e) y)"
    using Cons by auto
  finally show ?thesis unfolding prefix_match_Cons using Cons by simp
qed

lemma matchhere_lang:
  "matchhere re text = prefix_match (parse_re re) text"
  "matchstar c re text = prefix_match (Star c # fst (parse_re re), snd (parse_re re)) text"
proof (induction re "text" and c re "text" rule: matchhere_matchstar.induct)
  case (1 "text")
  then show ?case by (simp add: prefix_match_Nil)
next
  case (2 c re "text")
  show ?case
  proof (cases re)
    case Nil
    with 2 show ?thesis
      by (auto simp: prefix_match_Nil prefix_match_One char_in_def)
  next
    case (Cons d re')
    with 2 show ?thesis by (auto simp: prefix_match_One char_in_def)
  qed
next
  case (3 c re "text")
  then show ?case
    by (subst prefix_match_Star) (auto simp: char_in_def)
qed

lemma match_from_lang: "match_from re text \<longleftrightarrow> (\<exists>u v. text = u @ v \<and> prefix_match (parse_re re) v)"
proof (induction "text")
  case Nil
  then show ?case by (simp add: matchhere_lang)
next
  case (Cons t ts)
  have "(\<exists>u v. t # ts = u @ v \<and> prefix_match (parse_re re) v) \<longleftrightarrow>
      prefix_match (parse_re re) (t # ts) \<or> (\<exists>u v. ts = u @ v \<and> prefix_match (parse_re re) v)"
    by (auto simp: Cons_eq_append_conv)
  with Cons show ?case by (simp add: matchhere_lang)
qed

section \<open>The lines of a buffer\<close>

text \<open>The complete lines of a text, without their newlines.\<close>

function file_lines :: "string \<Rightarrow> string list" where
  "file_lines s = (if CHR 0x0A \<in> set s
     then takeWhile (\<lambda>c. c \<noteq> CHR 0x0A) s # file_lines (tl (dropWhile (\<lambda>c. c \<noteq> CHR 0x0A) s)) else [])"
  by pat_completeness auto

termination
proof (relation "measure length")
  fix s :: string assume "CHR 0x0A \<in> set s"
  then have "dropWhile (\<lambda>c. c \<noteq> CHR 0x0A) s \<noteq> []" by (auto simp: dropWhile_eq_Nil_conv)
  then show "(tl (dropWhile (\<lambda>c. c \<noteq> CHR 0x0A) s), s) \<in> measure length"
    using length_dropWhile_le [of "\<lambda>c. c \<noteq> CHR 0x0A" s] by (cases "dropWhile (\<lambda>c. c \<noteq> CHR 0x0A) s") auto
qed simp

declare file_lines.simps [simp del]

definition put_lines :: "'w usys \<Rightarrow> string list \<Rightarrow> 'w \<Rightarrow> 'w" where
  "put_lines u ls w = fold (\<lambda>l w. snd (u_write u 1 (l @ [CHR 0x0A]) w)) ls w"

lemma find_nl_none: "CHR 0x0A \<notin> set s \<Longrightarrow> find_nl p (s @ CHR 0x00 # r) = Inr None"
  by (induction s arbitrary: p) auto

lemma find_nl_some:
  "CHR 0x0A \<notin> set s \<Longrightarrow> CHR 0x00 \<notin> set s \<Longrightarrow> find_nl p (s @ CHR 0x0A # r) = Inr (Some (p + length s))"
  by (induction s arbitrary: p) auto

lemma grep_lines_prints:
  assumes "CHR 0x00 \<notin> set s" and "drop p b = s @ CHR 0x00 # r"
  shows "\<exists>p' b'. grep_lines u pattern p b w =
      Inr (p', b', put_lines u (filter (match pattern) (file_lines s)) w) \<and> p \<le> p' \<and> p' \<le> p + length s"
  using assms
proof (induction s arbitrary: p b w rule: file_lines.induct)
  case (1 s)
  show ?case
  proof (cases "CHR 0x0A \<in> set s")
    case False
    then show ?thesis
      using find_nl_none [OF False] 1(3) by (subst grep_lines.simps) (simp add: file_lines.simps [of s] put_lines_def)
  next
    case True
    let ?l = "takeWhile (\<lambda>c. c \<noteq> CHR 0x0A) s" and ?t = "tl (dropWhile (\<lambda>c. c \<noteq> CHR 0x0A) s)"
    have "dropWhile (\<lambda>c. c \<noteq> CHR 0x0A) s \<noteq> []" using True by (auto simp: dropWhile_eq_Nil_conv)
    then have "dropWhile (\<lambda>c. c \<noteq> CHR 0x0A) s = CHR 0x0A # ?t"
      using hd_dropWhile [of "\<lambda>c. c \<noteq> CHR 0x0A" s] by (metis list.collapse)
    then have sp: "s = ?l @ CHR 0x0A # ?t" by (metis takeWhile_dropWhile_id)
    let ?q = "p + length ?l"
    have d: "drop p b = ?l @ CHR 0x0A # ?t @ CHR 0x00 # r" using 1(3) sp by (metis append.assoc append_Cons)
    have l: "CHR 0x0A \<notin> set ?l" "CHR 0x00 \<notin> set ?l" "CHR 0x00 \<notin> set ?t"
      using 1(2) arg_cong [OF sp, of set] by (auto dest: set_takeWhileD)
    have f: "find_nl p (drop p b) = Inr (Some ?q)" unfolding d by (rule find_nl_some [OF l(1,2)])
    have qb: "?q < length b" using arg_cong [OF d, of length] by simp
    have tk: "take (?q - p) (drop p b) = ?l" "take (Suc ?q - p) (drop p b) = ?l @ [CHR 0x0A]" unfolding d by simp_all
    have dr: "drop (Suc ?q) b = ?t @ CHR 0x00 # r"
    proof -
      have "drop (Suc ?q) b = drop (Suc (length ?l)) (drop p b)" by (simp add: add.commute)
      then show ?thesis unfolding d by simp
    qed
    have dr2: "drop (Suc ?q) (b[?q := CHR 0x00]) = ?t @ CHR 0x00 # r" using dr by simp
    have fl: "file_lines s = ?l # file_lines ?t" using True by (simp add: file_lines.simps [of s])
    have len: "length s = Suc (length ?l + length ?t)" using arg_cong [OF sp, of length] by simp
    show ?thesis
    proof (cases "match pattern ?l")
      case True
      from 1(1) [OF \<open>CHR 0x0A \<in> set s\<close> l(3) dr] obtain p' b' where
        "grep_lines u pattern (Suc ?q) b (snd (u_write u 1 (?l @ [CHR 0x0A]) w)) =
          Inr (p', b', put_lines u (filter (match pattern) (file_lines ?t)) (snd (u_write u 1 (?l @ [CHR 0x0A]) w)))"
        "Suc ?q \<le> p'" "p' \<le> Suc ?q + length ?t" by blast
      then show ?thesis using True f qb tk fl len
        by (subst grep_lines.simps) (simp add: put_lines_def)
    next
      case False
      from 1(1) [OF \<open>CHR 0x0A \<in> set s\<close> l(3) dr2] obtain p' b' where
        "grep_lines u pattern (Suc ?q) (b[?q := CHR 0x00]) w =
          Inr (p', b', put_lines u (filter (match pattern) (file_lines ?t)) w)"
        "Suc ?q \<le> p'" "p' \<le> Suc ?q + length ?t" by blast
      then show ?thesis using False f qb tk fl len
        by (subst grep_lines.simps) (simp add: put_lines_def)
    qed
  qed
qed

section \<open>Properties\<close>

text \<open>
  C31: the matcher decides the pattern. \<^verbatim>\<open>match\<close> ends on every pattern and text, and says yes exactly when
  some part of the text (one that starts at its beginning, under a leading \<^verbatim>\<open>^\<close>, and reaches its end,
  under a final \<^verbatim>\<open>$\<close>) is in the language of the pattern, where a star repeats the character before it and
  a dot is any character.
\<close>

theorem match_denotes:
  "match re text = (if re \<noteq> [] \<and> hd re = CHR ''^'' then prefix_match (parse_re (tl re)) text
     else (\<exists>u v. text = u @ v \<and> prefix_match (parse_re re) v))"
  by (simp add: match_def matchhere_lang match_from_lang)



end
