(* ===== verification/Programs.thy ===== *)
theory Programs
  imports Ulib
begin

text \<open>
  The small user programs: \<^verbatim>\<open>wc\<close>, \<^verbatim>\<open>cat\<close>, \<^verbatim>\<open>echo\<close>, \<^verbatim>\<open>ls\<close>, \<^verbatim>\<open>rm\<close>, \<^verbatim>\<open>mkdir\<close>, \<^verbatim>\<open>ln\<close>, \<^verbatim>\<open>kill\<close>, \<^verbatim>\<open>init\<close>, \<^verbatim>\<open>zombie\<close>, \<^verbatim>\<open>stressfs\<close> and
  \<^verbatim>\<open>forktest\<close>, over the system calls of \<^const>\<open>null_sys\<close>'s type.
\<close>

section \<open>Running programs\<close>

text \<open>
  A routine returns, or the program ends by \<^verbatim>\<open>exit\<close>, or it is replaced by \<^verbatim>\<open>exec\<close>; a program that loops for
  ever has no result.
\<close>

datatype 'w pret = Go 'w | Exit 'w | Execed string "string list" 'w

type_synonym 'w run = "'w pret res option"

definition exit_with :: "'w res \<Rightarrow> 'w run" where
  "exit_with r = Some (bindR r (\<lambda>w. Inr (Exit w)))"

definition andthen :: "'w run \<Rightarrow> ('w \<Rightarrow> 'w run) \<Rightarrow> 'w run" where
  "andthen r f = (case r of None \<Rightarrow> None
     | Some (Inr (Go w)) \<Rightarrow> f w
     | Some x \<Rightarrow> Some x)"

text \<open>\<^verbatim>\<open>printf\<close> without strings among its arguments, and with one string.\<close>

definition prints :: "'w usys \<Rightarrow> int \<Rightarrow> string \<Rightarrow> 'w \<Rightarrow> 'w res" where
  "prints u fd fmt w = printf u fd (\<lambda>_. []) fmt [] w"

definition prints1 :: "'w usys \<Rightarrow> int \<Rightarrow> string \<Rightarrow> string \<Rightarrow> 'w \<Rightarrow> 'w res" where
  "prints1 u fd fmt s w = printf u fd (\<lambda>_. s) fmt [1] w"

section \<open>wc.c\<close>

record counts =
  nl :: u32
  nw :: u32
  nc :: u32
  inword :: bool

definition is_space :: "char \<Rightarrow> bool" where
  "is_space c = (c \<in> {CHR '' '', CHR 0x0D, CHR 0x09, CHR 0x0A, CHR 0x0B})"

fun wc_count :: "string \<Rightarrow> counts \<Rightarrow> counts" where
  "wc_count [] k = k"
| "wc_count (c # cs) k =
     (let k = k\<lparr>nc := nc k + 1\<rparr>;
          k = (if c = CHR 0x0A then k\<lparr>nl := nl k + 1\<rparr> else k)
      in wc_count cs
        (if is_space c then k\<lparr>inword := False\<rparr>
         else if \<not> inword k then k\<lparr>nw := nw k + 1, inword := True\<rparr> else k))"

partial_function (option) wc_loop :: "'w usys \<Rightarrow> int \<Rightarrow> counts \<Rightarrow> 'w \<Rightarrow> (int \<times> counts \<times> 'w) option" where
  "wc_loop u fd k w =
     (case u_read u fd 512 w of (n, bs, w) \<Rightarrow>
      if n > 0 then wc_loop u fd (wc_count (take (nat n) bs) k) w else Some (n, k, w))"

definition wc :: "'w usys \<Rightarrow> int \<Rightarrow> string \<Rightarrow> 'w \<Rightarrow> 'w run" where
  "wc u fd nm w =
     (case wc_loop u fd \<lparr>nl = 0, nw = 0, nc = 0, inword = False\<rparr> w of
        None \<Rightarrow> None
      | Some (n, k, w) \<Rightarrow>
          if n < 0 then exit_with (prints u 1 (''wc: read error'' @ [CHR 0x0A]) w)
          else Some (bindR (printf u 1 (\<lambda>_. nm) (''%d %d %d %s'' @ [CHR 0x0A]) [nl k, nw k, nc k, 1] w)
            (\<lambda>w. Inr (Go w))))"

text \<open>The files named by the arguments in turn, as \<^verbatim>\<open>wc\<close> and \<^verbatim>\<open>cat\<close> go through them.\<close>

fun each_file :: "'w usys \<Rightarrow> string \<Rightarrow> (int \<Rightarrow> string \<Rightarrow> 'w \<Rightarrow> 'w run) \<Rightarrow> string list \<Rightarrow> 'w \<Rightarrow> 'w run" where
  "each_file u cannot f [] w = Some (Inr (Exit w))"
| "each_file u cannot f (a # as) w =
     (case u_open u a 0 w of (fd, w) \<Rightarrow>
      if fd < 0 then exit_with (prints1 u 1 cannot a w)
      else andthen (f fd a w) (\<lambda>w. each_file u cannot f as (snd (u_close u fd w))))"

definition wc_main :: "'w usys \<Rightarrow> string list \<Rightarrow> 'w \<Rightarrow> 'w run" where
  "wc_main u argv w =
     (if length argv \<le> 1 then andthen (wc u 0 [] w) (\<lambda>w. Some (Inr (Exit w)))
      else each_file u (''wc: cannot open %s'' @ [CHR 0x0A]) (wc u) (tl argv) w)"

section \<open>cat.c and echo.c\<close>

partial_function (option) cat_loop :: "'w usys \<Rightarrow> int \<Rightarrow> 'w \<Rightarrow> (int \<times> 'w) option" where
  "cat_loop u fd w =
     (case u_read u fd 512 w of (n, bs, w) \<Rightarrow>
      if n > 0 then cat_loop u fd (snd (u_write u 1 (take (nat n) bs) w)) else Some (n, w))"

definition cat :: "'w usys \<Rightarrow> int \<Rightarrow> 'w \<Rightarrow> 'w run" where
  "cat u fd w =
     (case cat_loop u fd w of
        None \<Rightarrow> None
      | Some (n, w) \<Rightarrow>
          if n < 0 then exit_with (prints u 1 (''cat: read error'' @ [CHR 0x0A]) w) else Some (Inr (Go w)))"

definition cat_main :: "'w usys \<Rightarrow> string list \<Rightarrow> 'w \<Rightarrow> 'w run" where
  "cat_main u argv w =
     (if length argv \<le> 1 then andthen (cat u 0 w) (\<lambda>w. Some (Inr (Exit w)))
      else each_file u (''cat: cannot open %s'' @ [CHR 0x0A]) (\<lambda>fd a. cat u fd) (tl argv) w)"

fun echo_loop :: "'w usys \<Rightarrow> string list \<Rightarrow> 'w \<Rightarrow> 'w res" where
  "echo_loop u [] w = Inr w"
| "echo_loop u (a # as) w =
     bindR (printf u 1 (\<lambda>p. if p = 1 then a else if as \<noteq> [] then '' '' else [CHR 0x0A]) ''%s%s'' [1, 2] w)
       (echo_loop u as)"

definition echo_main :: "'w usys \<Rightarrow> string list \<Rightarrow> 'w \<Rightarrow> 'w run" where
  "echo_main u argv w = exit_with (echo_loop u (tl argv) w)"

section \<open>ls.c\<close>

definition DIRSIZ :: nat where "DIRSIZ = 14"
definition T_DIR :: int where "T_DIR = 1"
definition T_FILE :: int where "T_FILE = 2"

text \<open>\<^verbatim>\<open>fmtname\<close>: what follows the last slash, padded with blanks.\<close>

definition fmtname :: "string \<Rightarrow> string" where
  "fmtname path =
     (let p = rev (takeWhile (\<lambda>c. c \<noteq> CHR ''/'') (rev path))
      in if length p \<ge> DIRSIZ then p else p @ replicate (DIRSIZ - length p) (CHR '' ''))"

definition print_entry :: "'w usys \<Rightarrow> string \<Rightarrow> stat_buf \<Rightarrow> 'w \<Rightarrow> 'w res" where
  "print_entry u path st w =
     printf u 1 (\<lambda>_. fmtname path) (''%s %d %d %d'' @ [CHR 0x0A])
       [1, word_of_int (st_type st), st_ino st, st_size st] w"

text \<open>The loop over the 16-byte entries of a directory: a 16-bit inode number and a padded name.\<close>

partial_function (option) ls_loop :: "'w usys \<Rightarrow> int \<Rightarrow> string \<Rightarrow> 'w \<Rightarrow> 'w res option" where
  "ls_loop u fd path w =
     (case u_read u fd 16 w of (n, de, w) \<Rightarrow>
      if n \<noteq> 16 then Some (Inr w)
      else if of_char (de ! 0) + 256 * of_char (de ! 1) = (0 :: nat) then ls_loop u fd path w
      else let b = path @ ''/'' @ takeWhile (\<lambda>c. c \<noteq> CHR 0x00) (take DIRSIZ (drop 2 de))
        in case stat u b w of (r, st, w) \<Rightarrow>
          (case (if r < 0 then prints1 u 1 (''ls: cannot stat %s'' @ [CHR 0x0A]) b w
                 else case st of None \<Rightarrow> Inl Undefined | Some st \<Rightarrow> print_entry u b st w) of
             Inl e \<Rightarrow> Some (Inl e)
           | Inr w \<Rightarrow> ls_loop u fd path w))"

definition ls :: "'w usys \<Rightarrow> string \<Rightarrow> 'w \<Rightarrow> 'w res option" where
  "ls u path w =
     (case u_open u path 0 w of (fd, w) \<Rightarrow>
      if fd < 0 then Some (prints1 u 2 (''ls: cannot open %s'' @ [CHR 0x0A]) path w)
      else case u_fstat u fd w of (r, st, w) \<Rightarrow>
        let close = map_option (\<lambda>r. bindR r (\<lambda>w. Inr (snd (u_close u fd w)))) in
        if r < 0 then close (Some (prints1 u 2 (''ls: cannot stat %s'' @ [CHR 0x0A]) path w))
        else if st_type st = T_FILE then close (Some (print_entry u path st w))
        else if st_type st = T_DIR then
          (if length path + 1 + DIRSIZ + 1 > 512 then close (Some (prints u 1 (''ls: path too long'' @ [CHR 0x0A]) w))
           else close (ls_loop u fd path w))
        else close (Some (Inr w)))"

fun ls_args :: "'w usys \<Rightarrow> string list \<Rightarrow> 'w \<Rightarrow> 'w run" where
  "ls_args u [] w = Some (Inr (Exit w))"
| "ls_args u (a # as) w =
     (case ls u a w of None \<Rightarrow> None | Some (Inl e) \<Rightarrow> Some (Inl e) | Some (Inr w) \<Rightarrow> ls_args u as w)"

definition ls_main :: "'w usys \<Rightarrow> string list \<Rightarrow> 'w \<Rightarrow> 'w run" where
  "ls_main u argv w = ls_args u (if length argv < 2 then [''.''] else tl argv) w"

section \<open>rm.c, mkdir.c, ln.c, kill.c\<close>

fun rm_loop :: "'w usys \<Rightarrow> string list \<Rightarrow> 'w \<Rightarrow> 'w res" where
  "rm_loop u [] w = Inr w"
| "rm_loop u (a # as) w =
     (case u_unlink u a w of (r, w) \<Rightarrow>
      if r < 0 then prints1 u 2 (''rm: %s failed to delete'' @ [CHR 0x0A]) a w else rm_loop u as w)"

definition rm_main :: "'w usys \<Rightarrow> string list \<Rightarrow> 'w \<Rightarrow> 'w run" where
  "rm_main u argv w = exit_with
     (if length argv < 2 then prints u 2 (''Usage: rm files...'' @ [CHR 0x0A]) w else rm_loop u (tl argv) w)"

fun mkdir_loop :: "'w usys \<Rightarrow> string list \<Rightarrow> 'w \<Rightarrow> 'w res" where
  "mkdir_loop u [] w = Inr w"
| "mkdir_loop u (a # as) w =
     (case u_mkdir u a w of (r, w) \<Rightarrow>
      if r < 0 then prints1 u 2 (''mkdir: %s failed to create'' @ [CHR 0x0A]) a w else mkdir_loop u as w)"

definition mkdir_main :: "'w usys \<Rightarrow> string list \<Rightarrow> 'w \<Rightarrow> 'w run" where
  "mkdir_main u argv w = exit_with
     (if length argv < 2 then prints u 2 (''Usage: mkdir files...'' @ [CHR 0x0A]) w else mkdir_loop u (tl argv) w)"

definition ln_main :: "'w usys \<Rightarrow> string list \<Rightarrow> 'w \<Rightarrow> 'w run" where
  "ln_main u argv w = exit_with
     (if length argv \<noteq> 3 then prints u 2 (''Usage: ln old new'' @ [CHR 0x0A]) w
      else case u_link u (argv ! 1) (argv ! 2) w of (r, w) \<Rightarrow>
        if r < 0 then printf u 2 (\<lambda>p. if p = 1 then argv ! 1 else argv ! 2) (''link %s %s: failed'' @ [CHR 0x0A]) [1, 2] w
        else Inr w)"

fun kill_loop :: "'w usys \<Rightarrow> string list \<Rightarrow> 'w \<Rightarrow> 'w" where
  "kill_loop u [] w = w"
| "kill_loop u (a # as) w = kill_loop u as (snd (u_kill u (atoi a) w))"

definition kill_main :: "'w usys \<Rightarrow> string list \<Rightarrow> 'w \<Rightarrow> 'w run" where
  "kill_main u argv w = exit_with
     (if length argv < 1 then prints u 2 (''usage: kill pid...'' @ [CHR 0x0A]) w else Inr (kill_loop u (tl argv) w))"

section \<open>init.c and zombie.c\<close>

definition O_RDONLY :: int where "O_RDONLY = 0"
definition O_RDWR :: int where "O_RDWR = 2"
definition O_WRONLY :: int where "O_WRONLY = 1"
definition O_CREATE :: int where "O_CREATE = 0x200"

partial_function (option) init_wait :: "'w usys \<Rightarrow> int \<Rightarrow> 'w \<Rightarrow> 'w res option" where
  "init_wait u pid w =
     (case u_wait u w of (wpid, w) \<Rightarrow>
      if wpid \<ge> 0 \<and> wpid \<noteq> pid then
        (case prints u 1 (''zombie!'' @ [CHR 0x0A]) w of Inl e \<Rightarrow> Some (Inl e) | Inr w \<Rightarrow> init_wait u pid w)
      else Some (Inr w))"

partial_function (option) init_loop :: "'w usys \<Rightarrow> 'w \<Rightarrow> 'w run" where
  "init_loop u w =
     (case prints u 1 (''init: starting sh'' @ [CHR 0x0A]) w of
        Inl e \<Rightarrow> Some (Inl e)
      | Inr w \<Rightarrow> (case u_fork u w of (pid, w) \<Rightarrow>
          if pid < 0 then exit_with (prints u 1 (''init: fork failed'' @ [CHR 0x0A]) w)
          else if pid = 0 then
            (case u_exec u ''sh'' [''sh''] w of (ok, w) \<Rightarrow>
              if ok then Some (Inr (Execed ''sh'' [''sh''] w))
              else exit_with (prints u 1 (''init: exec sh failed'' @ [CHR 0x0A]) w))
          else Option.bind (init_wait u pid w) (\<lambda>r. case r of Inl e \<Rightarrow> Some (Inl e) | Inr w \<Rightarrow> init_loop u w)))"

definition init_main :: "'w usys \<Rightarrow> 'w \<Rightarrow> 'w run" where
  "init_main u w =
     (let w = (case u_open u ''console'' O_RDWR w of (fd, w) \<Rightarrow>
                if fd < 0 then snd (u_open u ''console'' O_RDWR (snd (u_mknod u ''console'' 1 1 w))) else w);
          w = snd (u_dup u 0 w);
          w = snd (u_dup u 0 w)
      in init_loop u w)"

definition zombie_main :: "'w usys \<Rightarrow> 'w \<Rightarrow> 'w run" where
  "zombie_main u w =
     (case u_fork u w of (r, w) \<Rightarrow> Some (Inr (Exit (if r > 0 then snd (u_sleep u 5 w) else w))))"

section \<open>stressfs.c and forktest.c\<close>

text \<open>The number of the process among the five, and its world.\<close>

fun stress_fork :: "'w usys \<Rightarrow> nat \<Rightarrow> nat \<Rightarrow> 'w \<Rightarrow> nat \<times> 'w" where
  "stress_fork u 0 i w = (i, w)"
| "stress_fork u (Suc n) i w =
     (case u_fork u w of (r, w) \<Rightarrow> if r > 0 then (i, w) else stress_fork u n (Suc i) w)"

definition stressfs_main :: "'w usys \<Rightarrow> 'w \<Rightarrow> 'w run" where
  "stressfs_main u w = exit_with
     (bindR (prints u 1 (''stressfs starting'' @ [CHR 0x0A]) w) (\<lambda>w.
      case stress_fork u 4 0 w of (i, w) \<Rightarrow>
      bindR (printf u 1 (\<lambda>_. []) (''write %d'' @ [CHR 0x0A]) [of_nat i] w) (\<lambda>w.
      let path = ''stressfs'' @ [char_of (48 + i)];
          data = replicate 512 (CHR ''a'')
      in case u_open u path (O_CREATE OR O_RDWR) w of (fd, w) \<Rightarrow>
      let w = ((\<lambda>w. snd (u_write u fd data w)) ^^ 20) w; w = snd (u_close u fd w)
      in bindR (prints u 1 (''read'' @ [CHR 0x0A]) w) (\<lambda>w.
      case u_open u path O_RDONLY w of (fd, w) \<Rightarrow>
      let w = ((\<lambda>w. snd (snd (u_read u fd 512 w))) ^^ 20) w; w = snd (u_close u fd w)
      in Inr (snd (u_wait u w))))))"

definition FORKS :: nat where "FORKS = 1000"

text \<open>The \<^verbatim>\<open>printf\<close> of \<^verbatim>\<open>forktest.c\<close> only writes its string.\<close>

definition fprintf :: "'w usys \<Rightarrow> int \<Rightarrow> string \<Rightarrow> 'w \<Rightarrow> 'w" where
  "fprintf u fd s w = snd (u_write u fd s w)"

fun fork_many :: "'w usys \<Rightarrow> nat \<Rightarrow> nat \<Rightarrow> 'w \<Rightarrow> (nat \<times> 'w) pret" where
  "fork_many u 0 n w = Go (n, w)"
| "fork_many u (Suc k) n w =
     (case u_fork u w of (pid, w) \<Rightarrow>
      if pid < 0 then Go (n, w) else if pid = 0 then Exit (n, w) else fork_many u k (Suc n) w)"

fun wait_many :: "'w usys \<Rightarrow> nat \<Rightarrow> 'w \<Rightarrow> 'w pret" where
  "wait_many u 0 w = Go w"
| "wait_many u (Suc n) w =
     (case u_wait u w of (r, w) \<Rightarrow>
      if r < 0 then Exit (fprintf u 1 (''wait stopped early'' @ [CHR 0x0A]) w) else wait_many u n w)"

definition forktest :: "'w usys \<Rightarrow> 'w \<Rightarrow> 'w pret" where
  "forktest u w =
     (case fork_many u FORKS 0 (fprintf u 1 (''fork test'' @ [CHR 0x0A]) w) of
        Exit (n, w) \<Rightarrow> Exit w
      | Execed p a (n, w) \<Rightarrow> Execed p a w
      | Go (n, w) \<Rightarrow>
          if n = FORKS then Exit (fprintf u 1 (''fork claimed to work N times!'' @ [CHR 0x0A]) w)
          else case wait_many u n w of
            Go w \<Rightarrow> (case u_wait u w of (r, w) \<Rightarrow>
              if r \<noteq> - 1 then Exit (fprintf u 1 (''wait got too many'' @ [CHR 0x0A]) w)
              else Go (fprintf u 1 (''fork test OK'' @ [CHR 0x0A]) w))
          | x \<Rightarrow> x)"

definition forktest_main :: "'w usys \<Rightarrow> 'w \<Rightarrow> 'w pret" where
  "forktest_main u w = (case forktest u w of Go w \<Rightarrow> Exit w | x \<Rightarrow> x)"

section \<open>Counting\<close>

text \<open>Successive reads of \<open>k\<close> bytes that deliver a text and end with the result \<open>e\<close>.\<close>

inductive reads :: "'w usys \<Rightarrow> int \<Rightarrow> int \<Rightarrow> 'w \<Rightarrow> string \<Rightarrow> int \<Rightarrow> 'w \<Rightarrow> bool" for u fd k where
  reads_end: "u_read u fd k w = (e, bs, w1) \<Longrightarrow> e \<le> 0 \<Longrightarrow> reads u fd k w [] e w1"
| reads_step: "u_read u fd k w = (n, bs, w1) \<Longrightarrow> 0 < n \<Longrightarrow> reads u fd k w1 s e w2 \<Longrightarrow>
    reads u fd k w (take (nat n) bs @ s) e w2"

lemma wc_count_append: "wc_count (s @ t) k = wc_count t (wc_count s k)"
  by (induction s arbitrary: k) (simp_all add: Let_def)

lemma wc_loop_reads: "reads u fd 512 w s e w' \<Longrightarrow> wc_loop u fd k w = Some (e, wc_count s k, w')"
proof (induction arbitrary: k rule: reads.induct)
  case (reads_end w e bs w1)
  then show ?case by (subst wc_loop.simps) simp
next
  case (reads_step w n bs w1 s e w2)
  then show ?case by (subst wc_loop.simps) (simp add: wc_count_append)
qed

text \<open>The words of a text: the longest stretches without white space.\<close>

function word_list :: "string \<Rightarrow> string list" where
  "word_list s = (let t = dropWhile is_space s in
     if t = [] then [] else takeWhile (\<lambda>c. \<not> is_space c) t # word_list (dropWhile (\<lambda>c. \<not> is_space c) t))"
  by pat_completeness auto

termination
proof (relation "measure length")
  fix s t assume t: "t = dropWhile is_space s" "t \<noteq> []"
  then obtain c r where c: "t = c # r" "\<not> is_space c" by (metis hd_dropWhile list.collapse list.sel(1))
  have "length (dropWhile (\<lambda>c. \<not> is_space c) t) \<le> length r" using c by (simp add: length_dropWhile_le)
  moreover have "length t \<le> length s" using t(1) by (simp add: length_dropWhile_le)
  ultimately show "(dropWhile (\<lambda>c. \<not> is_space c) t, s) \<in> measure length" using c(1) by simp
qed simp

declare word_list.simps [simp del]

lemma word_list_Nil [simp]: "word_list [] = []"
  by (simp add: word_list.simps)

lemma word_list_space: "is_space c \<Longrightarrow> word_list (c # s) = word_list s"
  by (subst (1 2) word_list.simps) simp

lemma word_list_word:
  "\<not> is_space c \<Longrightarrow> length (word_list (c # s)) = Suc (length (word_list (dropWhile (\<lambda>c. \<not> is_space c) s)))"
  by (subst word_list.simps) simp

lemma wc_count_words:
  "nw (wc_count s k) = nw k + of_nat (length (word_list (if inword k then dropWhile (\<lambda>c. \<not> is_space c) s else s)))"
proof (induction s arbitrary: k)
  case Nil
  then show ?case by simp
next
  case (Cons c s)
  show ?case
  proof (cases "is_space c")
    case True
    with Cons.IH show ?thesis by (simp add: Let_def word_list_space)
  next
    case False
    then have "c \<noteq> CHR 0x0A" by (auto simp: is_space_def)
    with False Cons.IH show ?thesis by (simp add: Let_def word_list_word algebra_simps)
  qed
qed

lemma wc_count_lines: "nl (wc_count s k) = nl k + of_nat (count_list s (CHR 0x0A))"
  by (induction s arbitrary: k) (simp_all add: Let_def algebra_simps)

lemma wc_count_chars: "nc (wc_count s k) = nc k + of_nat (length s)"
  by (induction s arbitrary: k) (simp_all add: Let_def algebra_simps)

lemma wc_counts_of:
  "reads u fd 512 w s e w' \<Longrightarrow> \<exists>k. wc_loop u fd \<lparr>nl = 0, nw = 0, nc = 0, inword = False\<rparr> w = Some (e, k, w') \<and>
     nl k = of_nat (count_list s (CHR 0x0A)) \<and> nw k = of_nat (length (word_list s)) \<and> nc k = of_nat (length s)"
  by (simp add: wc_loop_reads wc_count_words wc_count_lines wc_count_chars)

definition dec :: "nat \<Rightarrow> string" where
  "dec n = num_int udigits 10 (sint (of_nat n :: u32))"

section \<open>Properties\<close>

text \<open>
  C34: \<^verbatim>\<open>wc\<close> counts. However the reads of a file split its text, \<^verbatim>\<open>wc\<close> ends and prints the number of its
  newlines, of its words (longest stretches without white space) and of its bytes, as 32-bit decimal
  numbers, and the name; a read error is reported instead and ends the program.
\<close>

theorem wc_counts:
  assumes "reads u fd 512 w s e w'"
  shows "wc u fd nm w =
    (if e < 0 then Some (Inr (Exit (putcs u 1 (''wc: read error'' @ [CHR 0x0A]) w')))
     else Some (Inr (Go (putcs u 1 (dec (count_list s (CHR 0x0A)) @ '' '' @ dec (length (word_list s)) @ '' '' @
       dec (length s) @ '' '' @ nm @ [CHR 0x0A]) w'))))"
proof -
  from wc_counts_of [OF assms(1)] obtain k where
    k: "wc_loop u fd \<lparr>nl = 0, nw = 0, nc = 0, inword = False\<rparr> w = Some (e, k, w')"
      "nl k = of_nat (count_list s (CHR 0x0A))" "nw k = of_nat (length (word_list s))" "nc k = of_nat (length s)" by blast
  have p: "printf u 1 (\<lambda>_. nm) (''%d %d %d %s'' @ [CHR 0x0A]) [nl k, nw k, nc k, 1] w' =
      Inr (putcs u 1 (dec (count_list s (CHR 0x0A)) @ '' '' @ dec (length (word_list s)) @ '' '' @
       dec (length s) @ '' '' @ nm @ [CHR 0x0A]) w')"
    unfolding printf_def printf_loop_text by (simp add: k dec_def fmt_res_def)
  have r: "prints u 1 (''wc: read error'' @ [CHR 0x0A]) w' = Inr (putcs u 1 (''wc: read error'' @ [CHR 0x0A]) w')"
    unfolding prints_def printf_def printf_loop_text by (simp add: fmt_res_def)
  show ?thesis
    unfolding wc_def k(1) by (simp only: option.case prod.case p r exit_with_def bindR_simps)
qed

theorem wc_counts_witness:
  "wc file_sys 0 ''f'' (''ab c'' @ [CHR 0x0A], []) =
    Some (Inr (Go (putcs file_sys 1 (dec 1 @ '' '' @ dec 2 @ '' '' @ dec 5 @ '' '' @ ''f'' @ [CHR 0x0A]) ([], []))))"
proof -
  have "reads file_sys 0 512 (''ab c'' @ [CHR 0x0A], []) (take (nat 5) (''ab c'' @ [CHR 0x0A]) @ []) 0 ([], [])"
  proof (rule reads_step)
    show "u_read file_sys 0 512 (''ab c'' @ [CHR 0x0A], []) = (5, ''ab c'' @ [CHR 0x0A], ([], []))"
      by (simp add: file_sys_def)
    show "reads file_sys 0 512 ([], []) [] 0 ([], [])" by (rule reads_end) (simp_all add: file_sys_def)
  qed simp
  note * = wc_counts [OF this, of "''f''"]
  have "word_list (take (nat 5) (''ab c'' @ [CHR 0x0A]) @ []) = [''ab'', ''c'']"
    by (simp add: word_list.simps is_space_def)
  moreover have "count_list (take (nat 5) (''ab c'' @ [CHR 0x0A]) @ []) (CHR 0x0A) = 1" by simp
  moreover have "length (take (nat 5) (''ab c'' @ [CHR 0x0A]) @ []) = 5" "length [''ab'', ''c''] = 2" by simp_all
  ultimately show ?thesis using * by (simp only: if_False less_irrefl)
qed

end
