(* ===== verification/Syscall.thy ===== *)
theory Syscall
  imports Ulib
begin

text \<open>
  System calls: fetching arguments from user memory (\<^verbatim>\<open>syscall.c\<close>), the dispatcher, and the calls about
  processes (\<^verbatim>\<open>sysproc.c\<close>). The process machinery they call (\<^verbatim>\<open>fork\<close>, \<^verbatim>\<open>wait\<close>, \<^verbatim>\<open>kill\<close>, \<^verbatim>\<open>growproc\<close>, commented
  out in \<^verbatim>\<open>proc.c\<close>) is a parameter.
\<close>

section \<open>The calling process\<close>

text \<open>
  The parts of \<^verbatim>\<open>struct proc\<close> and its trap frame that the calls use, the memory they see, the clock, and
  the rest of the kernel as \<open>'k\<close>.
\<close>

record 'k uproc =
  usz :: u32
  uesp :: u32
  ueax :: u32
  upid :: u32
  uname :: string
  ukilled :: bool
  uofile :: "u32 list"
  ucwd :: u32
  umem :: cmem
  ucpu :: cpu
  tickslock :: spinlock
  ticks :: u32
  kst :: 'k

section \<open>syscall.c\<close>

definition load_int :: "cmem \<Rightarrow> u32 \<Rightarrow> u32" where
  "load_int m a = of_char (m a) + 256 * of_char (m (a + 1)) + 65536 * of_char (m (a + 2)) + 16777216 * of_char (m (a + 3))"

text \<open>\<open>None\<close> is the error return \<open>-1\<close>.\<close>

definition fetchint :: "'k uproc \<Rightarrow> u32 \<Rightarrow> u32 option" where
  "fetchint p addr = (if addr \<ge> usz p \<or> addr + 4 > usz p then None else Some (load_int (umem p) addr))"

function fetchstr_loop :: "cmem \<Rightarrow> u32 \<Rightarrow> u32 \<Rightarrow> u32 \<Rightarrow> u32 option" where
  "fetchstr_loop m pp ep s =
     (if s < ep then (if m s = CHR 0x00 then Some (s - pp) else fetchstr_loop m pp ep (s + 1)) else None)"
  by pat_completeness auto

termination
proof (relation "measure (\<lambda>(m, pp, ep, s). unat ep - unat s)")
  fix m :: cmem and pp ep s :: u32
  assume "s < ep"
  then have "unat s < unat ep" by (simp add: word_less_nat_alt)
  moreover from this have "unat (s + 1) = unat s + 1"
    using unat_add32_small [of s 1] unat_lt32 [of ep] by (simp del: unat_lt32)
  ultimately show "((m, pp, ep, s + 1), m, pp, ep, s) \<in> measure (\<lambda>(m, pp, ep, s). unat ep - unat s)" by simp
qed simp

declare fetchstr_loop.simps [simp del]

text \<open>The length of the string and where it is.\<close>

definition fetchstr :: "'k uproc \<Rightarrow> u32 \<Rightarrow> (u32 \<times> u32) option" where
  "fetchstr p addr =
     (if addr \<ge> usz p then None else map_option (\<lambda>n. (n, addr)) (fetchstr_loop (umem p) addr (usz p) addr))"

definition argint :: "'k uproc \<Rightarrow> u32 \<Rightarrow> u32 option" where
  "argint p n = fetchint p (uesp p + 4 + 4 * n)"

definition argptr :: "'k uproc \<Rightarrow> u32 \<Rightarrow> u32 \<Rightarrow> u32 option" where
  "argptr p n sz =
     (case argint p n of None \<Rightarrow> None
      | Some i \<Rightarrow> if i \<ge> usz p \<or> i + sz > usz p then None else Some i)"

definition argstr :: "'k uproc \<Rightarrow> u32 \<Rightarrow> (u32 \<times> u32) option" where
  "argstr p n = (case argint p n of None \<Rightarrow> None | Some addr \<Rightarrow> fetchstr p addr)"

text \<open>A call returns a value, or sleeps and goes on later.\<close>

datatype sysout = Done u32 | Sleeping

type_synonym 'k handler = "'k uproc \<Rightarrow> (sysout \<times> 'k uproc) res"

text \<open>
  The dispatcher over a table of handlers, whose entry 0 is null; the unknown call prints a line, kept
  by \<open>warn\<close>.
\<close>

definition syscall :: "'k handler option list \<Rightarrow> ('k uproc \<Rightarrow> u32 \<Rightarrow> 'k uproc) \<Rightarrow> 'k uproc \<Rightarrow> 'k uproc res" where
  "syscall syscalls warn p =
     (let num = sint (ueax p)
      in case (if 0 < num \<and> num < int (length syscalls) then syscalls ! nat num else None) of
           Some h \<Rightarrow> bindR (h p) (\<lambda>r. case r of
               (Done v, p) \<Rightarrow> Inr (p\<lparr>ueax := v\<rparr>)
             | (Sleeping, p) \<Rightarrow> Inr p)
         | None \<Rightarrow> Inr ((warn p (ueax p))\<lparr>ueax := - 1\<rparr>))"

section \<open>sysproc.c\<close>

text \<open>\<^verbatim>\<open>fork\<close>, \<^verbatim>\<open>wait\<close>, \<^verbatim>\<open>kill\<close> and \<^verbatim>\<open>growproc\<close>, with the process as they leave it.\<close>

definition sys_fork :: "'k handler \<Rightarrow> 'k handler" where
  "sys_fork fork p = fork p"

definition sys_exit :: "('k uproc \<Rightarrow> 'k uproc res) \<Rightarrow> 'k handler" where
  "sys_exit exit p = bindR (exit p) (\<lambda>p. Inr (Done 0, p))"

definition sys_wait :: "'k handler \<Rightarrow> 'k handler" where
  "sys_wait wait p = wait p"

definition sys_kill :: "(u32 \<Rightarrow> 'k handler) \<Rightarrow> 'k handler" where
  "sys_kill kill p = (case argint p 0 of None \<Rightarrow> Inr (Done (- 1), p) | Some pid \<Rightarrow> kill pid p)"

definition sys_getpid :: "'k handler" where
  "sys_getpid p = Inr (Done (upid p), p)"

definition sys_sbrk :: "(u32 \<Rightarrow> 'k uproc \<Rightarrow> (int \<times> 'k uproc) res) \<Rightarrow> 'k handler" where
  "sys_sbrk growproc p =
     (case argint p 0 of None \<Rightarrow> Inr (Done (- 1), p)
      | Some n \<Rightarrow> let addr = usz p in
          bindR (growproc n p) (\<lambda>r. case r of (e, p) \<Rightarrow> if e < 0 then Inr (Done (- 1), p) else Inr (Done addr, p)))"

text \<open>The loop of \<^verbatim>\<open>sys_sleep\<close> from its test to its return or its sleep; the comparison is unsigned.\<close>

definition acquire_ticks :: "'k uproc \<Rightarrow> 'k uproc" where
  "acquire_ticks p = (case acquire (ucpu p, tickslock p) of (c, l) \<Rightarrow> p\<lparr>ucpu := c, tickslock := l\<rparr>)"

definition release_ticks :: "'k uproc \<Rightarrow> 'k uproc res" where
  "release_ticks p = bindR (release (ucpu p, tickslock p)) (\<lambda>r. case r of (c, l) \<Rightarrow> Inr (p\<lparr>ucpu := c, tickslock := l\<rparr>))"

definition sleep_loop :: "u32 \<Rightarrow> u32 \<Rightarrow> 'k handler" where
  "sleep_loop ticks0 n p =
     (if ticks p - ticks0 < n then
        (if ukilled p then bindR (release_ticks p) (\<lambda>p. Inr (Done (- 1), p))
         else bindR (release_ticks p) (\<lambda>p. Inr (Sleeping, p)))
      else bindR (release_ticks p) (\<lambda>p. Inr (Done 0, p)))"

definition sys_sleep :: "'k handler" where
  "sys_sleep p =
     (case argint p 0 of None \<Rightarrow> Inr (Done (- 1), p)
      | Some n \<Rightarrow> let p = acquire_ticks p in sleep_loop (ticks p) n p)"

definition sys_sleep_wake :: "u32 \<Rightarrow> u32 \<Rightarrow> 'k handler" where
  "sys_sleep_wake ticks0 n p = sleep_loop ticks0 n (acquire_ticks p)"

definition sys_uptime :: "'k handler" where
  "sys_uptime p = (let p = acquire_ticks p; xticks = ticks p in bindR (release_ticks p) (\<lambda>p. Inr (Done xticks, p)))"

section \<open>What the checks guarantee\<close>

lemma fetchstr_loop_correct:
  "fetchstr_loop m pp ep s = Some n \<Longrightarrow> pp \<le> s \<Longrightarrow>
     \<exists>e. n = e - pp \<and> s \<le> e \<and> e < ep \<and> m e = CHR 0x00 \<and> (\<forall>a. s \<le> a \<and> a < e \<longrightarrow> m a \<noteq> CHR 0x00)"
proof (induction m pp ep s rule: fetchstr_loop.induct)
  case (1 m pp ep s)
  from 1(2) have lt: "s < ep" by (subst (asm) fetchstr_loop.simps) (simp split: if_splits)
  show ?case
  proof (cases "m s = CHR 0x00")
    case True
    with 1(2) lt have "n = s - pp" by (subst (asm) fetchstr_loop.simps) simp
    with True lt show ?thesis by (intro exI [of _ s]) auto
  next
    case False
    have u: "unat (s + 1) = unat s + 1"
      using lt unat_add32_small [of s 1] unat_lt32 [of ep] by (simp add: word_less_nat_alt del: unat_lt32)
    have "fetchstr_loop m pp ep (s + 1) = Some n"
      using 1(2) lt False by (subst (asm) fetchstr_loop.simps) simp
    moreover have "pp \<le> s + 1" using 1(3) u by (simp add: word_le_nat_alt)
    ultimately obtain e where e: "n = e - pp" "s + 1 \<le> e" "e < ep" "m e = CHR 0x00"
      "\<forall>a. s + 1 \<le> a \<and> a < e \<longrightarrow> m a \<noteq> CHR 0x00" using 1(1) [OF lt False] by blast
    have "m a \<noteq> CHR 0x00" if "s \<le> a" "a < e" for a
    proof (cases "a = s")
      case True
      with False show ?thesis by simp
    next
      case ne: False
      then have "s + 1 \<le> a" using that(1) u by (simp add: word_le_nat_alt word_unat_eq_iff)
      with e(5) that(2) show ?thesis by blast
    qed
    moreover have "s \<le> e" using e(2) u by (simp add: word_le_nat_alt)
    ultimately show ?thesis using e by blast
  qed
qed

lemma unat_le_add:
  assumes "a < sz" and "unat sz \<le> 2147483648" and "unat n < 2147483648" and "\<not> a + n > (sz :: u32)"
  shows "unat a + unat n \<le> unat sz"
proof -
  have "unat a < unat sz" using assms(1) by (simp add: word_less_nat_alt)
  then have "unat (a + n) = unat a + unat n" using assms(2,3) by (intro unat_add32_small) linarith
  with assms(4) show ?thesis by (simp add: word_less_nat_alt not_less)
qed

section \<open>Properties\<close>


definition proc100 :: "unit uproc" where
  "proc100 = \<lparr>usz = 100, uesp = 8, ueax = 0, upid = 1, uname = ''p'', ukilled = False, uofile = [], ucwd = 0,
     umem = (\<lambda>_. CHR 0x00), ucpu = \<lparr>cpsr = 0, ncli = 0, intena = False\<rparr>,
     tickslock = \<lparr>locked = 0, name = ''time'', lk_cpu = 0, pcs = []\<rparr>, ticks = 0, kst = ()\<rparr>"


end
