(* ===== verification/Sysfile.thy ===== *)
theory Sysfile
  imports Syscall Programs "HOL-Library.Multiset"
begin

text \<open>
  The file-system calls (\<^verbatim>\<open>sysfile.c\<close>). What they call in \<^verbatim>\<open>file.c\<close>, \<^verbatim>\<open>fs.c\<close>, \<^verbatim>\<open>log.c\<close>, \<^verbatim>\<open>pipe.c\<close> and \<^verbatim>\<open>exec.c\<close> is the
  record \<open>kcalls\<close> of functions over the kernel state, a parameter: those files are mostly commented out.
\<close>

section \<open>The kernel below\<close>

definition NOFILE :: nat where "NOFILE = 16"
definition MAXARG :: nat where "MAXARG = 32"
definition T_DEV :: int where "T_DEV = 3"

text \<open>The fields of \<^verbatim>\<open>struct inode\<close> and of \<^verbatim>\<open>struct file\<close> that the calls read or set.\<close>

record inode =
  idev :: u32
  inum :: u32
  itype :: int
  imajor :: u32
  iminor :: u32
  inlink :: int
  isize :: u32

record kfile =
  f_ip :: u32
  f_off :: u32
  f_readable :: bool
  f_writable :: bool

text \<open>
  Inodes and files are pointers, 0 the null pointer. \<open>inode_of\<close> and \<open>set_inode\<close> reach the fields of a
  locked inode, \<open>set_file\<close> those of an open file.
\<close>

record 'k kcalls =
  begin_tr :: "'k \<Rightarrow> 'k"
  commit_tr :: "'k \<Rightarrow> 'k"
  namei :: "string \<Rightarrow> 'k \<Rightarrow> u32 \<times> 'k"
  nameiparent :: "string \<Rightarrow> 'k \<Rightarrow> u32 \<times> string \<times> 'k"
  ilock :: "u32 \<Rightarrow> 'k \<Rightarrow> 'k"
  iunlock :: "u32 \<Rightarrow> 'k \<Rightarrow> 'k"
  iunlockput :: "u32 \<Rightarrow> 'k \<Rightarrow> 'k"
  iput :: "u32 \<Rightarrow> 'k \<Rightarrow> 'k"
  iupdate :: "u32 \<Rightarrow> 'k \<Rightarrow> 'k"
  ialloc :: "u32 \<Rightarrow> int \<Rightarrow> 'k \<Rightarrow> u32 \<times> 'k"
  dirlookup :: "u32 \<Rightarrow> string \<Rightarrow> 'k \<Rightarrow> u32 \<times> u32 \<times> 'k"
  dirlink :: "u32 \<Rightarrow> string \<Rightarrow> u32 \<Rightarrow> 'k \<Rightarrow> int \<times> 'k"
  readi :: "u32 \<Rightarrow> u32 \<Rightarrow> u32 \<Rightarrow> 'k \<Rightarrow> int \<times> u8 list \<times> 'k"
  writei :: "u32 \<Rightarrow> u8 list \<Rightarrow> u32 \<Rightarrow> 'k \<Rightarrow> int \<times> 'k"
  namecmp :: "string \<Rightarrow> string \<Rightarrow> int"
  inode_of :: "u32 \<Rightarrow> 'k \<Rightarrow> inode"
  set_inode :: "u32 \<Rightarrow> inode \<Rightarrow> 'k \<Rightarrow> 'k"
  filealloc :: "'k \<Rightarrow> u32 \<times> 'k"
  fileclose :: "u32 \<Rightarrow> 'k \<Rightarrow> 'k"
  filedup :: "u32 \<Rightarrow> 'k \<Rightarrow> 'k"
  fileread :: "u32 \<Rightarrow> u32 \<Rightarrow> u32 \<Rightarrow> 'k handler"
  filewrite :: "u32 \<Rightarrow> u32 \<Rightarrow> u32 \<Rightarrow> 'k handler"
  filestat :: "u32 \<Rightarrow> u32 \<Rightarrow> 'k handler"
  set_file :: "u32 \<Rightarrow> kfile \<Rightarrow> 'k \<Rightarrow> 'k"
  pipe_alloc :: "'k \<Rightarrow> (int \<times> u32 \<times> u32) \<times> 'k"
  kexec :: "u32 \<Rightarrow> u32 list \<Rightarrow> 'k handler"

definition upd :: "('k \<Rightarrow> 'k) \<Rightarrow> 'k uproc \<Rightarrow> 'k uproc" where
  "upd f p = p\<lparr>kst := f (kst p)\<rparr>"

text \<open>The string that \<^verbatim>\<open>argstr\<close> found.\<close>

definition ustring :: "'k uproc \<Rightarrow> u32 \<times> u32 \<Rightarrow> string" where
  "ustring p r = map (\<lambda>i. umem p (snd r + of_nat i)) [0..<unat (fst r)]"

abbreviation fail :: "'k uproc \<Rightarrow> (sysout \<times> 'k uproc) res" where
  "fail p \<equiv> Inr (Done (- 1), p)"

text \<open>An early return: go on with the value, if there is one.\<close>

definition need :: "'a option \<Rightarrow> 'b \<Rightarrow> ('a \<Rightarrow> 'b) \<Rightarrow> 'b" where
  "need x early f = (case x of None \<Rightarrow> early | Some a \<Rightarrow> f a)"

section \<open>Descriptors\<close>

text \<open>The descriptor and the file of argument \<open>n\<close>.\<close>

definition argfd :: "'k uproc \<Rightarrow> u32 \<Rightarrow> (nat \<times> u32) option" where
  "argfd p n =
     (case argint p n of None \<Rightarrow> None
      | Some v \<Rightarrow> let fd = sint v in
          if fd < 0 \<or> fd \<ge> int NOFILE \<or> uofile p ! nat fd = 0 then None else Some (nat fd, uofile p ! nat fd))"

fun fdalloc_loop :: "nat list \<Rightarrow> u32 \<Rightarrow> 'k uproc \<Rightarrow> nat option \<times> 'k uproc" where
  "fdalloc_loop [] f p = (None, p)"
| "fdalloc_loop (fd # fds) f p =
     (if uofile p ! fd = 0 then (Some fd, p\<lparr>uofile := (uofile p)[fd := f]\<rparr>) else fdalloc_loop fds f p)"

definition fdalloc :: "u32 \<Rightarrow> 'k uproc \<Rightarrow> nat option \<times> 'k uproc" where
  "fdalloc f p = fdalloc_loop [0..<NOFILE] f p"

definition sys_dup :: "'k kcalls \<Rightarrow> 'k handler" where
  "sys_dup K p =
     (case argfd p 0 of None \<Rightarrow> fail p
      | Some (_, f) \<Rightarrow> (case fdalloc f p of
          (None, p) \<Rightarrow> fail p
        | (Some fd, p) \<Rightarrow> Inr (Done (of_nat fd), upd (filedup K f) p)))"

definition sys_read :: "'k kcalls \<Rightarrow> 'k handler" where
  "sys_read K p =
     (case argfd p 0 of None \<Rightarrow> fail p
      | Some (_, f) \<Rightarrow> (case argint p 2 of None \<Rightarrow> fail p
          | Some n \<Rightarrow> (case argptr p 1 n of None \<Rightarrow> fail p | Some a \<Rightarrow> fileread K f a n p)))"

definition sys_write :: "'k kcalls \<Rightarrow> 'k handler" where
  "sys_write K p =
     (case argfd p 0 of None \<Rightarrow> fail p
      | Some (_, f) \<Rightarrow> (case argint p 2 of None \<Rightarrow> fail p
          | Some n \<Rightarrow> (case argptr p 1 n of None \<Rightarrow> fail p | Some a \<Rightarrow> filewrite K f a n p)))"

definition sys_close :: "'k kcalls \<Rightarrow> 'k handler" where
  "sys_close K p =
     (case argfd p 0 of None \<Rightarrow> fail p
      | Some (fd, f) \<Rightarrow> Inr (Done 0, upd (fileclose K f) (p\<lparr>uofile := (uofile p)[fd := 0]\<rparr>)))"

definition sizeof_stat :: u32 where "sizeof_stat = 20"

definition sys_fstat :: "'k kcalls \<Rightarrow> 'k handler" where
  "sys_fstat K p =
     (case argfd p 0 of None \<Rightarrow> fail p
      | Some (_, f) \<Rightarrow> (case argptr p 1 sizeof_stat of None \<Rightarrow> fail p | Some st \<Rightarrow> filestat K f st p))"

section \<open>Links\<close>

definition sys_link :: "'k kcalls \<Rightarrow> 'k handler" where
  "sys_link K p =
     (need (argstr p 0) (fail p) (\<lambda>old.
      need (argstr p 1) (fail p) (\<lambda>new.
      case namei K (ustring p old) (kst p) of (ip, k) \<Rightarrow>
      if ip = 0 then fail (p\<lparr>kst := k\<rparr>)
      else let k = ilock K ip (begin_tr K k) in
      if itype (inode_of K ip k) = T_DIR then fail (p\<lparr>kst := commit_tr K (iunlockput K ip k)\<rparr>)
      else let k = set_inode K ip ((inode_of K ip k)\<lparr>inlink := inlink (inode_of K ip k) + 1\<rparr>) k;
               k = iunlock K ip (iupdate K ip k);
               bad = (\<lambda>k. let k = ilock K ip k;
                             k = set_inode K ip ((inode_of K ip k)\<lparr>inlink := inlink (inode_of K ip k) - 1\<rparr>) k
                         in fail (p\<lparr>kst := commit_tr K (iunlockput K ip (iupdate K ip k))\<rparr>))
           in case nameiparent K (ustring p new) k of (dp, nm, k) \<Rightarrow>
           if dp = 0 then bad k
           else let k = ilock K dp k in
           if idev (inode_of K dp k) \<noteq> idev (inode_of K ip k) then bad (iunlockput K dp k)
           else case dirlink K dp nm (inum (inode_of K ip k)) k of (r, k) \<Rightarrow>
             if r < 0 then bad (iunlockput K dp k)
             else Inr (Done 0, p\<lparr>kst := commit_tr K (iput K ip (iunlockput K dp k))\<rparr>))))"

text \<open>The loop of \<^verbatim>\<open>isdirempty\<close> over the 16-byte entries behind \<^verbatim>\<open>.\<close> and \<^verbatim>\<open>..\<close>, whose offset is a 32-bit int.\<close>

partial_function (option) isdirempty_loop :: "'k kcalls \<Rightarrow> u32 \<Rightarrow> u32 \<Rightarrow> 'k \<Rightarrow> (bool \<times> 'k) res option" where
  "isdirempty_loop K dp off k =
     (if off < isize (inode_of K dp k) then
        (case readi K dp off 16 k of (r, de, k) \<Rightarrow>
          if r \<noteq> 16 then Some (Inl (Panic ''isdirempty: readi''))
          else if de ! 0 \<noteq> 0 \<or> de ! 1 \<noteq> 0 then Some (Inr (False, k))
          else isdirempty_loop K dp (off + 16) k)
      else Some (Inr (True, k)))"

definition isdirempty :: "'k kcalls \<Rightarrow> u32 \<Rightarrow> 'k \<Rightarrow> (bool \<times> 'k) res" where
  "isdirempty K dp k = (case isdirempty_loop K dp 32 k of Some r \<Rightarrow> r | None \<Rightarrow> Inl Hang)"

text \<open>The rest of \<^verbatim>\<open>sys_unlink\<close>, once both inodes are locked and the directory was looked through.\<close>

definition unlink_tail :: "'k kcalls \<Rightarrow> u32 \<Rightarrow> u32 \<Rightarrow> u32 \<Rightarrow> 'k uproc \<Rightarrow> bool \<Rightarrow> 'k \<Rightarrow> (sysout \<times> 'k uproc) res" where
  "unlink_tail K dp ip off p emp k =
     (if \<not> emp then fail (p\<lparr>kst := commit_tr K (iunlockput K dp (iunlockput K ip k))\<rparr>)
      else case writei K dp (replicate 16 0) off k of (w, k) \<Rightarrow>
      if w \<noteq> 16 then Inl (Panic ''unlink: writei'')
      else let k = (if itype (inode_of K ip k) = T_DIR
                    then iupdate K dp (set_inode K dp ((inode_of K dp k)\<lparr>inlink := inlink (inode_of K dp k) - 1\<rparr>) k)
                    else k);
               k = iunlockput K dp k;
               k = set_inode K ip ((inode_of K ip k)\<lparr>inlink := inlink (inode_of K ip k) - 1\<rparr>) k;
               k = iunlockput K ip (iupdate K ip k)
           in Inr (Done 0, p\<lparr>kst := commit_tr K k\<rparr>))"

definition sys_unlink :: "'k kcalls \<Rightarrow> 'k handler" where
  "sys_unlink K p =
     need (argstr p 0) (fail p) (\<lambda>path.
      case nameiparent K (ustring p path) (kst p) of (dp, nm, k) \<Rightarrow>
      if dp = 0 then fail (p\<lparr>kst := k\<rparr>)
      else let k = ilock K dp (begin_tr K k);
               bad = (\<lambda>k. fail (p\<lparr>kst := commit_tr K (iunlockput K dp k)\<rparr>))
      in if namecmp K nm ''.'' = 0 \<or> namecmp K nm ''..'' = 0 then bad k
      else case dirlookup K dp nm k of (ip, off, k) \<Rightarrow>
      if ip = 0 then bad k
      else let k = ilock K ip k in
      if inlink (inode_of K ip k) < 1 then Inl (Panic ''unlink: nlink < 1'')
      else bindR (if itype (inode_of K ip k) = T_DIR then isdirempty K ip k else Inr (True, k))
        (\<lambda>r. case r of (emp, k) \<Rightarrow> unlink_tail K dp ip off p emp k))"

section \<open>Creating and opening\<close>

definition create :: "'k kcalls \<Rightarrow> string \<Rightarrow> int \<Rightarrow> u32 \<Rightarrow> u32 \<Rightarrow> 'k \<Rightarrow> (u32 \<times> 'k) res" where
  "create K path typ major minor k =
     (case nameiparent K path k of (dp, nm, k) \<Rightarrow>
      if dp = 0 then Inr (0, k)
      else let k = ilock K dp k
      in case dirlookup K dp nm k of (ip, off, k) \<Rightarrow>
      if ip \<noteq> 0 then
        (let k = ilock K ip (iunlockput K dp k)
         in if typ = T_FILE \<and> itype (inode_of K ip k) = T_FILE then Inr (ip, k)
            else Inr (0, iunlockput K ip k))
      else case ialloc K (idev (inode_of K dp k)) typ k of (ip, k) \<Rightarrow>
      if ip = 0 then Inl (Panic ''create: ialloc'')
      else let k = ilock K ip k;
               k = set_inode K ip ((inode_of K ip k)\<lparr>imajor := major, iminor := minor, inlink := 1\<rparr>) k;
               k = iupdate K ip k
      in bindR (if typ = T_DIR then
                  (let k = iupdate K dp (set_inode K dp ((inode_of K dp k)\<lparr>inlink := inlink (inode_of K dp k) + 1\<rparr>) k)
                   in case dirlink K ip ''.'' (inum (inode_of K ip k)) k of (r, k) \<Rightarrow>
                      if r < 0 then Inl (Panic ''create dots'')
                      else case dirlink K ip ''..'' (inum (inode_of K dp k)) k of (r, k) \<Rightarrow>
                      if r < 0 then Inl (Panic ''create dots'') else Inr k)
                else Inr k) (\<lambda>k.
         case dirlink K dp nm (inum (inode_of K ip k)) k of (r, k) \<Rightarrow>
         if r < 0 then Inl (Panic ''create: dirlink'') else Inr (ip, iunlockput K dp k)))"

text \<open>The end of \<^verbatim>\<open>sys_open\<close>, with the locked inode.\<close>

definition open_file :: "'k kcalls \<Rightarrow> int \<Rightarrow> u32 \<Rightarrow> 'k handler" where
  "open_file K omode ip p =
     (case filealloc K (kst p) of (f, k) \<Rightarrow>
      if f = 0 then fail (p\<lparr>kst := iunlockput K ip k\<rparr>)
      else case fdalloc f (p\<lparr>kst := k\<rparr>) of (r, p) \<Rightarrow>
        need r (fail (upd (\<lambda>k. iunlockput K ip (fileclose K f k)) p)) (\<lambda>fd. Inr (Done (of_nat fd),
          upd (\<lambda>k. set_file K f \<lparr>f_ip = ip, f_off = 0, f_readable = (omode AND O_WRONLY = 0),
            f_writable = (omode AND O_WRONLY \<noteq> 0 \<or> omode AND O_RDWR \<noteq> 0)\<rparr> (iunlock K ip k)) p)))"

definition sys_open :: "'k kcalls \<Rightarrow> 'k handler" where
  "sys_open K p =
     (need (argstr p 0) (fail p) (\<lambda>path.
      need (argint p 1) (fail p) (\<lambda>m.
      let omode = sint m in
      if omode AND O_CREATE \<noteq> 0 then
        bindR (create K (ustring p path) T_FILE 0 0 (begin_tr K (kst p))) (\<lambda>r. case r of (ip, k) \<Rightarrow>
        let p = p\<lparr>kst := commit_tr K k\<rparr>
        in if ip = 0 then fail p else open_file K omode ip p)
      else case namei K (ustring p path) (kst p) of (ip, k) \<Rightarrow>
        if ip = 0 then fail (p\<lparr>kst := k\<rparr>)
        else let k = ilock K ip k in
          if itype (inode_of K ip k) = T_DIR \<and> omode \<noteq> O_RDONLY then fail (p\<lparr>kst := iunlockput K ip k\<rparr>)
          else open_file K omode ip (p\<lparr>kst := k\<rparr>))))"

definition sys_mkdir :: "'k kcalls \<Rightarrow> 'k handler" where
  "sys_mkdir K p =
     (let k = begin_tr K (kst p)
      in need (argstr p 0) (fail (p\<lparr>kst := commit_tr K k\<rparr>)) (\<lambda>path.
      bindR (create K (ustring p path) T_DIR 0 0 k) (\<lambda>r. case r of (ip, k) \<Rightarrow>
      if ip = 0 then fail (p\<lparr>kst := commit_tr K k\<rparr>)
      else Inr (Done 0, p\<lparr>kst := commit_tr K (iunlockput K ip k)\<rparr>))))"

definition sys_mknod :: "'k kcalls \<Rightarrow> 'k handler" where
  "sys_mknod K p =
     (let k = begin_tr K (kst p); bad = (\<lambda>k. fail (p\<lparr>kst := commit_tr K k\<rparr>))
      in need (argstr p 0) (bad k) (\<lambda>path.
         need (argint p 1) (bad k) (\<lambda>major.
         need (argint p 2) (bad k) (\<lambda>minor.
         bindR (create K (ustring p path) T_DEV (major AND 0xFFFF) (minor AND 0xFFFF) k) (\<lambda>r. case r of (ip, k) \<Rightarrow>
         if ip = 0 then bad k
         else Inr (Done 0, p\<lparr>kst := commit_tr K (iunlockput K ip k)\<rparr>))))))"

definition sys_chdir :: "'k kcalls \<Rightarrow> 'k handler" where
  "sys_chdir K p =
     (need (argstr p 0) (fail p) (\<lambda>path.
      case namei K (ustring p path) (kst p) of (ip, k) \<Rightarrow>
      if ip = 0 then fail (p\<lparr>kst := k\<rparr>)
      else let k = ilock K ip k in
        if itype (inode_of K ip k) \<noteq> T_DIR then fail (p\<lparr>kst := iunlockput K ip k\<rparr>)
        else Inr (Done 0, p\<lparr>kst := iput K (ucwd p) (iunlock K ip k), ucwd := ip\<rparr>)))"

section \<open>exec and pipe\<close>

text \<open>The argument vector at \<open>uargv\<close>: at most \<open>MAXARG\<close> words including the final null.\<close>

fun exec_args :: "'k uproc \<Rightarrow> u32 \<Rightarrow> nat \<Rightarrow> nat \<Rightarrow> u32 list option" where
  "exec_args p uargv 0 i = None"
| "exec_args p uargv (Suc left) i =
     Option.bind (fetchint p (uargv + 4 * of_nat i)) (\<lambda>uarg.
      if uarg = 0 then Some []
      else Option.bind (fetchstr p uarg) (\<lambda>r. map_option ((#) (snd r)) (exec_args p uargv left (Suc i))))"

definition sys_exec :: "'k kcalls \<Rightarrow> 'k handler" where
  "sys_exec K p =
     (need (argstr p 0) (fail p) (\<lambda>path.
      need (argint p 1) (fail p) (\<lambda>uargv.
      need (exec_args p uargv MAXARG 0) (fail p) (\<lambda>argv. kexec K (snd path) argv p))))"

definition store_int :: "cmem \<Rightarrow> u32 \<Rightarrow> u32 \<Rightarrow> cmem" where
  "store_int m a v = m(a := char_of (unat v mod 256), a + 1 := char_of (unat (v div 256) mod 256),
     a + 2 := char_of (unat (v div 65536) mod 256), a + 3 := char_of (unat (v div 16777216) mod 256))"

definition sys_pipe :: "'k kcalls \<Rightarrow> 'k handler" where
  "sys_pipe K p =
     (need (argptr p 0 8) (fail p) (\<lambda>fd.
      case pipe_alloc K (kst p) of ((r, rfile, wfile), k) \<Rightarrow>
      if r < 0 then fail (p\<lparr>kst := k\<rparr>)
      else let close = upd (\<lambda>k. fileclose K wfile (fileclose K rfile k))
      in case fdalloc rfile (p\<lparr>kst := k\<rparr>) of (r0, p) \<Rightarrow>
         need r0 (fail (close p)) (\<lambda>fd0.
         case fdalloc wfile p of (r1, p) \<Rightarrow>
         need r1 (fail (close (p\<lparr>uofile := (uofile p)[fd0 := 0]\<rparr>))) (\<lambda>fd1. Inr (Done 0,
           p\<lparr>umem := store_int (store_int (umem p) fd (of_nat fd0)) (fd + 4) (of_nat fd1)\<rparr>)))))"

section \<open>The table of calls\<close>

record 'k pcalls =
  p_fork :: "'k handler"
  p_exit :: "'k uproc \<Rightarrow> 'k uproc res"
  p_wait :: "'k handler"
  p_kill :: "u32 \<Rightarrow> 'k handler"
  p_grow :: "u32 \<Rightarrow> 'k uproc \<Rightarrow> (int \<times> 'k uproc) res"

text \<open>The numbers of \<^verbatim>\<open>syscall.h\<close>, and the array \<^verbatim>\<open>syscalls\<close> with an initialiser for each.\<close>

definition SYS_fork :: nat where "SYS_fork = 1"
definition SYS_exit :: nat where "SYS_exit = 2"
definition SYS_wait :: nat where "SYS_wait = 3"
definition SYS_pipe :: nat where "SYS_pipe = 4"
definition SYS_read :: nat where "SYS_read = 5"
definition SYS_kill :: nat where "SYS_kill = 6"
definition SYS_exec :: nat where "SYS_exec = 7"
definition SYS_fstat :: nat where "SYS_fstat = 8"
definition SYS_chdir :: nat where "SYS_chdir = 9"
definition SYS_dup :: nat where "SYS_dup = 10"
definition SYS_getpid :: nat where "SYS_getpid = 11"
definition SYS_sbrk :: nat where "SYS_sbrk = 12"
definition SYS_sleep :: nat where "SYS_sleep = 13"
definition SYS_uptime :: nat where "SYS_uptime = 14"
definition SYS_open :: nat where "SYS_open = 15"
definition SYS_write :: nat where "SYS_write = 16"
definition SYS_mknod :: nat where "SYS_mknod = 17"
definition SYS_unlink :: nat where "SYS_unlink = 18"
definition SYS_link :: nat where "SYS_link = 19"
definition SYS_mkdir :: nat where "SYS_mkdir = 20"
definition SYS_close :: nat where "SYS_close = 21"

lemmas SYS_defs = SYS_fork_def SYS_exit_def SYS_wait_def SYS_pipe_def SYS_read_def SYS_kill_def SYS_exec_def SYS_fstat_def SYS_chdir_def
  SYS_dup_def SYS_getpid_def SYS_sbrk_def SYS_sleep_def SYS_uptime_def SYS_open_def SYS_write_def SYS_mknod_def SYS_unlink_def SYS_link_def SYS_mkdir_def SYS_close_def

definition syscalls :: "'k pcalls \<Rightarrow> 'k kcalls \<Rightarrow> 'k handler option list" where
  "syscalls P K = map (map_of
     [(SYS_fork, sys_fork (p_fork P)), (SYS_exit, sys_exit (p_exit P)), (SYS_wait, sys_wait (p_wait P)),
      (SYS_pipe, sys_pipe K), (SYS_read, sys_read K), (SYS_kill, sys_kill (p_kill P)),
      (SYS_exec, sys_exec K), (SYS_fstat, sys_fstat K), (SYS_chdir, sys_chdir K),
      (SYS_dup, sys_dup K), (SYS_getpid, sys_getpid), (SYS_sbrk, sys_sbrk (p_grow P)),
      (SYS_sleep, sys_sleep), (SYS_uptime, sys_uptime), (SYS_open, sys_open K),
      (SYS_write, sys_write K), (SYS_mknod, sys_mknod K), (SYS_unlink, sys_unlink K),
      (SYS_link, sys_link K), (SYS_mkdir, sys_mkdir K), (SYS_close, sys_close K)])
     [0..<Suc SYS_close]"

lemma length_syscalls: "length (syscalls P K) = 22"
  by (simp add: syscalls_def SYS_close_def)

text \<open>Each of the numbers 1 to 21 has a handler.\<close>

lemma syscalls_handled:
  assumes "0 < n" and "n < 22"
  shows "\<exists>h. syscalls P K ! n = Some h"
proof -
  have "None \<notin> set (tl (syscalls P K))" by (simp add: syscalls_def SYS_defs upt_conv_Cons)
  moreover have "tl (syscalls P K) ! (n - 1) = syscalls P K ! n"
    using assms by (simp add: nth_tl length_syscalls)
  moreover have "n - 1 < length (tl (syscalls P K))" using assms by (simp add: length_syscalls)
  ultimately show ?thesis by (metis not_None_eq nth_mem)
qed

section \<open>Transactions and locks\<close>

text \<open>
  What the callees promise about open transactions and locked inodes: \<^verbatim>\<open>begin_trans\<close> and \<^verbatim>\<open>commit_trans\<close> open
  and close one, \<^verbatim>\<open>ilock\<close>, \<^verbatim>\<open>iunlock\<close> and \<^verbatim>\<open>iunlockput\<close> lock and unlock their inode, and the others leave both as
  they were.
\<close>

definition keeps :: "('k \<Rightarrow> int) \<Rightarrow> ('k \<Rightarrow> u32 multiset) \<Rightarrow> 'k \<Rightarrow> 'k \<Rightarrow> bool" where
  "keeps depth locks k k' \<longleftrightarrow> depth k' = depth k \<and> locks k' = locks k"

definition fs_laws :: "'k kcalls \<Rightarrow> ('k \<Rightarrow> int) \<Rightarrow> ('k \<Rightarrow> u32 multiset) \<Rightarrow> bool" where
  "fs_laws K depth locks \<longleftrightarrow>
     (\<forall>k. depth (begin_tr K k) = depth k + 1 \<and> locks (begin_tr K k) = locks k) \<and>
     (\<forall>k. depth (commit_tr K k) = depth k - 1 \<and> locks (commit_tr K k) = locks k) \<and>
     (\<forall>ip k. depth (ilock K ip k) = depth k \<and> locks (ilock K ip k) = add_mset ip (locks k)) \<and>
     (\<forall>ip k. depth (iunlock K ip k) = depth k \<and> locks (iunlock K ip k) = locks k - {#ip#}) \<and>
     (\<forall>ip k. depth (iunlockput K ip k) = depth k \<and> locks (iunlockput K ip k) = locks k - {#ip#}) \<and>
     (\<forall>ip k. keeps depth locks k (iput K ip k)) \<and> (\<forall>ip k. keeps depth locks k (iupdate K ip k)) \<and>
     (\<forall>ip x k. keeps depth locks k (set_inode K ip x k)) \<and>
     (\<forall>s k. keeps depth locks k (snd (namei K s k))) \<and>
     (\<forall>s k. keeps depth locks k (snd (snd (nameiparent K s k)))) \<and>
     (\<forall>d t k. keeps depth locks k (snd (ialloc K d t k))) \<and>
     (\<forall>d s k. keeps depth locks k (snd (snd (dirlookup K d s k)))) \<and>
     (\<forall>d s i k. keeps depth locks k (snd (dirlink K d s i k))) \<and>
     (\<forall>d off n k. keeps depth locks k (snd (snd (readi K d off n k)))) \<and>
     (\<forall>d bs off k. keeps depth locks k (snd (writei K d bs off k))) \<and>
     (\<forall>k. keeps depth locks k (snd (filealloc K k))) \<and>
     (\<forall>f k. keeps depth locks k (fileclose K f k)) \<and>
     (\<forall>f x k. keeps depth locks k (set_file K f x k))"

lemma fs_simps:
  assumes "fs_laws K depth locks"
  shows "depth (begin_tr K k) = depth k + 1" "locks (begin_tr K k) = locks k"
    "depth (commit_tr K k) = depth k - 1" "locks (commit_tr K k) = locks k"
    "depth (ilock K ip k) = depth k" "locks (ilock K ip k) = add_mset ip (locks k)"
    "depth (iunlock K ip k) = depth k" "locks (iunlock K ip k) = locks k - {#ip#}"
    "depth (iunlockput K ip k) = depth k" "locks (iunlockput K ip k) = locks k - {#ip#}"
    "depth (iput K ip k) = depth k" "locks (iput K ip k) = locks k"
    "depth (iupdate K ip k) = depth k" "locks (iupdate K ip k) = locks k"
    "depth (set_inode K ip x k) = depth k" "locks (set_inode K ip x k) = locks k"
    "depth (fileclose K f k) = depth k" "locks (fileclose K f k) = locks k"
    "depth (set_file K f y k) = depth k" "locks (set_file K f y k) = locks k"
  using assms by (simp_all add: fs_laws_def keeps_def)

lemma fs_projs:
  assumes "fs_laws K depth locks"
  shows "depth (snd (namei K s k)) = depth k" "locks (snd (namei K s k)) = locks k"
    "depth (snd (snd (nameiparent K s k))) = depth k" "locks (snd (snd (nameiparent K s k))) = locks k"
    "depth (snd (ialloc K d t k)) = depth k" "locks (snd (ialloc K d t k)) = locks k"
    "depth (snd (snd (dirlookup K d s k))) = depth k" "locks (snd (snd (dirlookup K d s k))) = locks k"
    "depth (snd (dirlink K d s i k)) = depth k" "locks (snd (dirlink K d s i k)) = locks k"
    "depth (snd (snd (readi K d off n k))) = depth k" "locks (snd (snd (readi K d off n k))) = locks k"
    "depth (snd (writei K d bs off k)) = depth k" "locks (snd (writei K d bs off k)) = locks k"
    "depth (snd (filealloc K k)) = depth k" "locks (snd (filealloc K k)) = locks k"
  using assms by (simp_all add: fs_laws_def keeps_def)

lemma unlock_other [simp]: "add_mset a (add_mset b X) - {#b#} = add_mset a X"
  by (simp add: add_mset_commute)

lemma create_locks:
  assumes "fs_laws K depth locks" and "create K path typ major minor k = Inr (ip, k')"
  shows "depth k' = depth k \<and> locks k' = (if ip = 0 then locks k else add_mset ip (locks k))"
  using assms(2) unfolding create_def
  by (auto simp: Let_def bindR_eq_Inr case_prod_beta fs_simps [OF assms(1)] fs_projs [OF assms(1)] split: if_splits)

lemma fdalloc_kst: "kst (snd (fdalloc f p)) = kst p"
proof -
  have "kst (snd (fdalloc_loop fds f p)) = kst p" for fds by (induction fds) simp_all
  then show ?thesis by (simp add: fdalloc_def)
qed

lemma open_file_locks:
  assumes "fs_laws K depth locks" and "open_file K omode ip p = Inr (r, p')" and "locks (kst p) = add_mset ip X"
  shows "depth (kst p') = depth (kst p) \<and> locks (kst p') = X"
  using assms(2,3) unfolding open_file_def
  by (auto simp: case_prod_beta need_def upd_def fdalloc_kst fs_simps [OF assms(1)] fs_projs [OF assms(1)]
      split: if_splits option.splits)

lemma isdirempty_locks:
  assumes "fs_laws K depth locks" and "isdirempty K dp k = Inr (b, k')"
  shows "depth k' = depth k \<and> locks k' = locks k"
proof -
  have "fs_laws K depth locks \<longrightarrow> (\<forall>b k'. v = Inr (b, k') \<longrightarrow> depth k' = depth k \<and> locks k' = locks k)"
    if "isdirempty_loop K dp off k = Some v" for off v
  proof (rule isdirempty_loop.raw_induct [where P = "\<lambda>K dp off k v. fs_laws K depth locks \<longrightarrow>
      (\<forall>b k'. v = Inr (b, k') \<longrightarrow> depth k' = depth k \<and> locks k' = locks k)", OF _ that])
    fix f :: "'a kcalls \<Rightarrow> u32 \<Rightarrow> u32 \<Rightarrow> 'a \<Rightarrow> (bool \<times> 'a) res option" and K dp off k v
    assume ih: "\<And>K dp off k v. f K dp off k = Some v \<Longrightarrow> fs_laws K depth locks \<longrightarrow>
        (\<forall>b k'. v = Inr (b, k') \<longrightarrow> depth k' = depth k \<and> locks k' = locks k)"
      and e: "(if off < isize (inode_of K dp k) then
          (case readi K dp off 16 k of (r, de, k) \<Rightarrow>
            if r \<noteq> 16 then Some (Inl (Panic ''isdirempty: readi''))
            else if de ! 0 \<noteq> 0 \<or> de ! 1 \<noteq> 0 then Some (Inr (False, k)) else f K dp (off + 16) k)
        else Some (Inr (True, k))) = Some v"
    show "fs_laws K depth locks \<longrightarrow> (\<forall>b k'. v = Inr (b, k') \<longrightarrow> depth k' = depth k \<and> locks k' = locks k)"
      using e ih by (auto simp: case_prod_beta fs_projs split: if_splits)
  qed
  then show ?thesis using assms by (auto simp: isdirempty_def split: option.splits)
qed

lemma sys_link_locks:
  assumes "fs_laws K depth locks" and "sys_link K p = Inr (out, p')"
  shows "depth (kst p') = depth (kst p) \<and> locks (kst p') = locks (kst p)"
  using assms(2) unfolding sys_link_def
  by (auto simp: Let_def case_prod_beta need_def fs_simps [OF assms(1)] fs_projs [OF assms(1)] split: if_splits option.splits)

lemma unlink_bad_locks:
  assumes "fs_laws K depth locks" and "fail (p\<lparr>kst := commit_tr K (iunlockput K dp k)\<rparr>) = Inr (out, p')"
    and "depth k = D + 1" and "locks k = add_mset dp L"
  shows "depth (kst p') = D \<and> locks (kst p') = L"
proof -
  have "p' = p\<lparr>kst := commit_tr K (iunlockput K dp k)\<rparr>" using assms(2) by simp
  with assms(3,4) show ?thesis by (simp add: fs_simps [OF assms(1)])
qed

lemma unlink_tail_locks:
  assumes "fs_laws K depth locks" and "depth k = D + 1" and "locks k = add_mset ip (add_mset dp L)"
    and "unlink_tail K dp ip off p emp k = Inr (out, p')"
  shows "depth (kst p') = D \<and> locks (kst p') = L"
proof (cases emp)
  case False
  with assms(4) have "fail (p\<lparr>kst := commit_tr K (iunlockput K dp (iunlockput K ip k))\<rparr>) = Inr (out, p')"
    by (simp add: unlink_tail_def)
  then show ?thesis by (rule unlink_bad_locks [OF assms(1)]) (simp_all add: fs_simps [OF assms(1)] assms(2,3))
next
  case True
  with assms show ?thesis
    by (auto simp: unlink_tail_def Let_def case_prod_beta fs_simps [OF assms(1)] fs_projs [OF assms(1)] split: if_splits)
qed

lemma sys_unlink_locks:
  assumes "fs_laws K depth locks" and "sys_unlink K p = Inr (out, p')"
  shows "depth (kst p') = depth (kst p) \<and> locks (kst p') = locks (kst p)"
proof (cases "argstr p 0")
  case None
  with assms(2) show ?thesis by (simp add: sys_unlink_def need_def)
next
  case (Some path)
  obtain dp nm k1 where 1: "nameiparent K (ustring p path) (kst p) = (dp, nm, k1)" by (rule prod_cases3)
  have k1: "depth k1 = depth (kst p)" "locks k1 = locks (kst p)"
    using fs_projs(3,4) [OF assms(1), of "ustring p path" "kst p"] 1 by simp_all
  let ?k = "ilock K dp (begin_tr K k1)"
  obtain ip off k2 where 2: "dirlookup K dp nm ?k = (ip, off, k2)" by (rule prod_cases3)
  have k2: "depth k2 = depth (kst p) + 1" "locks k2 = add_mset dp (locks (kst p))"
    using fs_projs(7,8) [OF assms(1), of dp nm ?k] 2 k1 by (simp_all add: fs_simps [OF assms(1)])
  let ?l = "ilock K ip k2"
  have l: "depth ?l = depth (kst p) + 1" "locks ?l = add_mset ip (add_mset dp (locks (kst p)))"
    using k2 by (simp_all add: fs_simps [OF assms(1)])
  note def = assms(2) [unfolded sys_unlink_def need_def Some option.case 1 prod.case Let_def 2]
  consider "dp = 0" | "dp \<noteq> 0" "namecmp K nm ''.'' = 0 \<or> namecmp K nm ''..'' = 0"
    | "dp \<noteq> 0" "\<not> (namecmp K nm ''.'' = 0 \<or> namecmp K nm ''..'' = 0)" "ip = 0"
    | "dp \<noteq> 0" "\<not> (namecmp K nm ''.'' = 0 \<or> namecmp K nm ''..'' = 0)" "ip \<noteq> 0" by blast
  then show ?thesis
  proof cases
    case 1
    with def k1 show ?thesis by auto
  next
    case 2
    with def have "fail (p\<lparr>kst := commit_tr K (iunlockput K dp ?k)\<rparr>) = Inr (out, p')" by auto
    then show ?thesis by (rule unlink_bad_locks [OF assms(1)]) (simp_all add: fs_simps [OF assms(1)] k1)
  next
    case 3
    with def have "fail (p\<lparr>kst := commit_tr K (iunlockput K dp k2)\<rparr>) = Inr (out, p')" by auto
    then show ?thesis by (rule unlink_bad_locks [OF assms(1) _ k2])
  next
    case 4
    let ?i = "if itype (inode_of K ip ?l) = T_DIR then isdirempty K ip ?l else Inr (True, ?l)"
    from 4 def have "bindR ?i (\<lambda>r. case r of (emp, k) \<Rightarrow> unlink_tail K dp ip off p emp k) = Inr (out, p')"
      by (cases "inlink (inode_of K ip ?l) < 1") (simp_all only: if_True if_False sum.distinct)
    then obtain emp k3 where i: "?i = Inr (emp, k3)" and t: "unlink_tail K dp ip off p emp k3 = Inr (out, p')"
      unfolding bindR_eq_Inr by auto
    have "depth k3 = depth ?l \<and> locks k3 = locks ?l"
    proof (cases "itype (inode_of K ip ?l) = T_DIR")
      case True
      with i have "isdirempty K ip ?l = Inr (emp, k3)" by simp
      then show ?thesis by (rule isdirempty_locks [OF assms(1)])
    next
      case False
      with i show ?thesis by simp
    qed
    with l have "depth k3 = depth (kst p) + 1" "locks k3 = add_mset ip (add_mset dp (locks (kst p)))" by simp_all
    from unlink_tail_locks [OF assms(1) this t] show ?thesis .
  qed
qed

lemma sys_open_locks:
  assumes "fs_laws K depth locks" and "sys_open K p = Inr (out, p')"
  shows "depth (kst p') = depth (kst p) \<and> locks (kst p') = locks (kst p)"
  using assms(2) unfolding sys_open_def
  by (auto simp: Let_def case_prod_beta need_def bindR_eq_Inr fs_simps [OF assms(1)] fs_projs [OF assms(1)]
      split: if_splits option.splits dest!: create_locks [OF assms(1)] open_file_locks [OF assms(1)])

text \<open>How \<^verbatim>\<open>sys_mkdir\<close> and \<^verbatim>\<open>sys_mknod\<close> end, once \<^verbatim>\<open>create\<close> has returned.\<close>

lemma create_commit_locks:
  assumes "fs_laws K depth locks"
    and "bindR (create K path typ major minor (begin_tr K (kst p))) (\<lambda>r. case r of (ip, k) \<Rightarrow>
      if ip = 0 then fail (p\<lparr>kst := commit_tr K k\<rparr>)
      else Inr (Done 0, p\<lparr>kst := commit_tr K (iunlockput K ip k)\<rparr>)) = Inr (out, p')"
  shows "depth (kst p') = depth (kst p) \<and> locks (kst p') = locks (kst p)"
proof -
  from assms(2) obtain ip k where c: "create K path typ major minor (begin_tr K (kst p)) = Inr (ip, k)"
    and e: "(if ip = 0 then fail (p\<lparr>kst := commit_tr K k\<rparr>)
      else Inr (Done 0, p\<lparr>kst := commit_tr K (iunlockput K ip k)\<rparr>)) = Inr (out, p')"
    unfolding bindR_eq_Inr by auto
  show ?thesis
  proof (cases "ip = 0")
    case True
    with e have "p' = p\<lparr>kst := commit_tr K k\<rparr>" by simp
    with True create_locks [OF assms(1) c] show ?thesis by (simp add: fs_simps [OF assms(1)])
  next
    case False
    with e have "p' = p\<lparr>kst := commit_tr K (iunlockput K ip k)\<rparr>" by simp
    with False create_locks [OF assms(1) c] show ?thesis by (simp add: fs_simps [OF assms(1)])
  qed
qed

lemma fail_commit_locks:
  assumes "fs_laws K depth locks" and "fail (p\<lparr>kst := commit_tr K (begin_tr K (kst p))\<rparr>) = Inr (out, p')"
  shows "depth (kst p') = depth (kst p) \<and> locks (kst p') = locks (kst p)"
proof -
  have "p' = p\<lparr>kst := commit_tr K (begin_tr K (kst p))\<rparr>" using assms(2) by simp
  then show ?thesis by (simp add: fs_simps [OF assms(1)])
qed

lemma sys_mkdir_locks:
  assumes "fs_laws K depth locks" and "sys_mkdir K p = Inr (out, p')"
  shows "depth (kst p') = depth (kst p) \<and> locks (kst p') = locks (kst p)"
proof (cases "argstr p 0")
  case None
  with assms(2) have "fail (p\<lparr>kst := commit_tr K (begin_tr K (kst p))\<rparr>) = Inr (out, p')"
    unfolding sys_mkdir_def need_def Let_def by simp
  then show ?thesis by (rule fail_commit_locks [OF assms(1)])
next
  case (Some path)
  with assms(2) show ?thesis unfolding sys_mkdir_def need_def Let_def
    by (intro create_commit_locks [OF assms(1), of "ustring p path" T_DIR 0 0 p out]) simp
qed

lemma sys_mknod_locks:
  assumes "fs_laws K depth locks" and "sys_mknod K p = Inr (out, p')"
  shows "depth (kst p') = depth (kst p) \<and> locks (kst p') = locks (kst p)"
proof (cases "argstr p 0 = None \<or> argint p 1 = None \<or> argint p 2 = None")
  case True
  with assms(2) have "fail (p\<lparr>kst := commit_tr K (begin_tr K (kst p))\<rparr>) = Inr (out, p')"
    unfolding sys_mknod_def need_def Let_def by (auto split: option.splits)
  then show ?thesis by (rule fail_commit_locks [OF assms(1)])
next
  case False
  then obtain path ma mi where "argstr p 0 = Some path" "argint p 1 = Some ma" "argint p 2 = Some mi" by auto
  with assms(2) show ?thesis unfolding sys_mknod_def need_def Let_def
    by (intro create_commit_locks [OF assms(1), of "ustring p path" T_DEV "ma AND 0xFFFF" "mi AND 0xFFFF" p out]) simp
qed

lemma sys_chdir_locks:
  assumes "fs_laws K depth locks" and "sys_chdir K p = Inr (out, p')"
  shows "depth (kst p') = depth (kst p) \<and> locks (kst p') = locks (kst p)"
  using assms(2) unfolding sys_chdir_def
  by (auto simp: Let_def case_prod_beta need_def fs_simps [OF assms(1)] fs_projs [OF assms(1)] split: if_splits option.splits)

text \<open>A kernel that only counts, for the witness: its state is the depth and the locked inodes.\<close>

definition count_calls :: "(int \<times> u32 multiset) kcalls" where
  "count_calls = \<lparr>begin_tr = (\<lambda>k. (fst k + 1, snd k)), commit_tr = (\<lambda>k. (fst k - 1, snd k)),
     namei = (\<lambda>s k. (5, k)), nameiparent = (\<lambda>s k. (7, s, k)),
     ilock = (\<lambda>i k. (fst k, add_mset i (snd k))), iunlock = (\<lambda>i k. (fst k, snd k - {#i#})),
     iunlockput = (\<lambda>i k. (fst k, snd k - {#i#})), iput = (\<lambda>i k. k), iupdate = (\<lambda>i k. k),
     ialloc = (\<lambda>d t k. (9, k)), dirlookup = (\<lambda>d s k. (0, 0, k)), dirlink = (\<lambda>d s i k. (0, k)),
     readi = (\<lambda>d off n k. (0, [], k)), writei = (\<lambda>d bs off k. (int (length bs), k)), namecmp = (\<lambda>s t. 1),
     inode_of = (\<lambda>i k. \<lparr>idev = 1, inum = i, itype = 2, imajor = 0, iminor = 0, inlink = 1, isize = 0\<rparr>),
     set_inode = (\<lambda>i x k. k), filealloc = (\<lambda>k. (3, k)), fileclose = (\<lambda>f k. k), filedup = (\<lambda>f k. k),
     fileread = (\<lambda>f a n p. Inr (Done 0, p)), filewrite = (\<lambda>f a n p. Inr (Done 0, p)), filestat = (\<lambda>f a p. Inr (Done 0, p)),
     set_file = (\<lambda>f x k. k), pipe_alloc = (\<lambda>k. ((- 1, 0, 0), k)), kexec = (\<lambda>a v p. Inr (Done 0, p))\<rparr>"

definition proc_files :: "(int \<times> u32 multiset) uproc" where
  "proc_files = \<lparr>usz = 100, uesp = 8, ueax = 0, upid = 1, uname = ''p'', ukilled = False, uofile = replicate 16 0, ucwd = 0,
     umem = (\<lambda>_. CHR 0x00), ucpu = \<lparr>cpsr = 0, ncli = 0, intena = False\<rparr>,
     tickslock = \<lparr>locked = 0, name = ''time'', lk_cpu = 0, pcs = []\<rparr>, ticks = 0, kst = (0, {#})\<rparr>"

section \<open>Properties\<close>

text \<open>
  C8: the calls that change directories are balanced. Whatever path a call of \<^verbatim>\<open>link\<close>, \<^verbatim>\<open>unlink\<close>, \<^verbatim>\<open>open\<close>,
  \<^verbatim>\<open>mkdir\<close>, \<^verbatim>\<open>mknod\<close> or \<^verbatim>\<open>chdir\<close> takes, if it returns at all, it has committed every transaction it began and
  unlocked every inode it locked, and no other.
\<close>

theorem sysfile_balanced:
  assumes "fs_laws K depth locks"
    and "h \<in> {sys_link K, sys_unlink K, sys_open K, sys_mkdir K, sys_mknod K, sys_chdir K}"
    and "h p = Inr (out, p')"
  shows "depth (kst p') = depth (kst p) \<and> locks (kst p') = locks (kst p)"
proof -
  note l = sys_link_locks [OF assms(1)] sys_unlink_locks [OF assms(1)] sys_open_locks [OF assms(1)]
    sys_mkdir_locks [OF assms(1)] sys_mknod_locks [OF assms(1)] sys_chdir_locks [OF assms(1)]
  show ?thesis using assms(2) by (elim insertE emptyE) (use assms(3) l in simp_all)
qed

theorem sysfile_balanced_witness:
  "\<exists>p'. sys_link count_calls proc_files = Inr (Done 0, p') \<and> kst p' = (0, {#})"
proof -
  have laws: "fs_laws count_calls fst snd" by (simp add: fs_laws_def keeps_def count_calls_def)
  have "argint proc_files n = Some 0" if "n = 0 \<or> n = 1" for n
    using that by (auto simp: argint_def fetchint_def load_int_def proc_files_def)
  moreover have "fetchstr proc_files 0 = Some (0, 0)"
    unfolding fetchstr_def by (subst fetchstr_loop.simps) (simp add: proc_files_def)
  ultimately have a: "argstr proc_files 0 = Some (0, 0)" "argstr proc_files 1 = Some (0, 0)"
    by (simp_all add: argstr_def)
  obtain p' where r: "sys_link count_calls proc_files = Inr (Done 0, p')"
    by (simp add: sys_link_def need_def a count_calls_def T_DIR_def Let_def)
  from sysfile_balanced [of count_calls fst snd "sys_link count_calls" proc_files, OF laws _ r] have "kst p' = kst proc_files" by (simp add: prod_eq_iff)
  with r show ?thesis by (simp add: proc_files_def)
qed


end
