(* ===== verification/Shell.thy ===== *)
theory Shell
  imports Programs
begin

unbundle bit_operations_syntax

text \<open>
  The shell (\<^verbatim>\<open>sh.c\<close>). Parsing works on positions of the line buffer, as the code does with pointers: a
  token is the pair of its two ends, and \<^verbatim>\<open>nulterminate\<close> cuts the buffer into strings in place. A parse
  error ends the process, here as the panic it prints. Allocation is taken to succeed.
\<close>

section \<open>Commands\<close>

definition MAXARGS :: nat where "MAXARGS = 10"

type_synonym tok = "nat \<times> nat"

text \<open>The trees over what stands for a string: its two ends in the line, or the string itself.\<close>

datatype 't cmd =
    Exec "'t list"
  | Redir "'t cmd" 't int int
  | Pipe "'t cmd" "'t cmd"
  | List "'t cmd" "'t cmd"
  | Back "'t cmd"

definition execcmd :: "'t cmd" where "execcmd = Exec []"

definition redircmd :: "'t cmd \<Rightarrow> 't \<Rightarrow> int \<Rightarrow> int \<Rightarrow> 't cmd" where
  "redircmd subcmd f mode fd = Redir subcmd f mode fd"

definition pipecmd :: "'t cmd \<Rightarrow> 't cmd \<Rightarrow> 't cmd" where "pipecmd left right = Pipe left right"

definition listcmd :: "'t cmd \<Rightarrow> 't cmd \<Rightarrow> 't cmd" where "listcmd left right = List left right"

definition backcmd :: "'t cmd \<Rightarrow> 't cmd" where "backcmd subcmd = Back subcmd"

section \<open>Tokens\<close>

definition whitespace :: string where "whitespace = [CHR '' '', CHR 0x09, CHR 0x0D, CHR 0x0A, CHR 0x0B]"
definition symbols :: string where "symbols = ''<|>&;()''"

text \<open>The character at a position of the line \<open>b\<close>; its end holds the terminator.\<close>

definition chr_at :: "string \<Rightarrow> nat \<Rightarrow> char" where
  "chr_at b s = (if s < length b then b ! s else CHR 0x00)"

function skip_ws :: "string \<Rightarrow> nat \<Rightarrow> nat" where
  "skip_ws b s = (if s < length b \<and> b ! s \<in> set whitespace then skip_ws b (Suc s) else s)"
  by pat_completeness auto

termination
  by (relation "measure (\<lambda>(b, s). length b - s)") auto

declare skip_ws.simps [simp del]

definition wordchar :: "char \<Rightarrow> bool" where
  "wordchar c \<longleftrightarrow> c \<notin> set whitespace \<and> c \<notin> set symbols"

function skip_word :: "string \<Rightarrow> nat \<Rightarrow> nat" where
  "skip_word b s = (if s < length b \<and> wordchar (b ! s) then skip_word b (Suc s) else s)"
  by pat_completeness auto

termination
  by (relation "measure (\<lambda>(b, s). length b - s)") auto

declare skip_word.simps [simp del]

text \<open>\<^verbatim>\<open>gettoken\<close>: the kind of the token, its two ends, and where to go on.\<close>

definition gettoken :: "string \<Rightarrow> nat \<Rightarrow> char \<times> tok \<times> nat" where
  "gettoken b ps =
     (let s = skip_ws b ps; q = s; c = chr_at b s;
          (ret, s) =
            (if c = CHR 0x00 then (c, s)
             else if c \<in> set ''|();&<'' then (c, Suc s)
             else if c = CHR ''>'' then
               (if chr_at b (Suc s) = CHR ''>'' then (CHR ''+'', Suc (Suc s)) else (c, Suc s))
             else (CHR ''a'', skip_word b s))
      in (ret, (q, s), skip_ws b s))"

definition peek :: "string \<Rightarrow> nat \<Rightarrow> string \<Rightarrow> bool \<times> nat" where
  "peek b ps toks =
     (let s = skip_ws b ps in (chr_at b s \<noteq> CHR 0x00 \<and> chr_at b s \<in> set toks, s))"

lemma skip_ws_ge: "s \<le> skip_ws b s"
  by (induction b s rule: skip_ws.induct) (subst skip_ws.simps, auto)

lemma skip_ws_le: "s \<le> length b \<Longrightarrow> skip_ws b s \<le> length b"
  by (induction b s rule: skip_ws.induct) (subst skip_ws.simps, auto)

lemma skip_word_ge: "s \<le> skip_word b s"
  by (induction b s rule: skip_word.induct) (subst skip_word.simps, auto)

lemma skip_word_le: "s \<le> length b \<Longrightarrow> skip_word b s \<le> length b"
  by (induction b s rule: skip_word.induct) (subst skip_word.simps, auto)

lemma skip_word_gt: "s < length b \<Longrightarrow> wordchar (b ! s) \<Longrightarrow> s < skip_word b s"
  using skip_word_ge [of "Suc s" b] by (subst skip_word.simps) simp

lemma skip_ws_stop: "skip_ws b s < length b \<Longrightarrow> b ! skip_ws b s \<notin> set whitespace"
proof (induction b s rule: skip_ws.induct)
  case (1 b s)
  then show ?case by (cases "s < length b \<and> b ! s \<in> set whitespace") (auto simp: skip_ws.simps [of b s])
qed

lemma gettoken_bounds:
  assumes "gettoken b s = (k, (q, eq), s')" "s \<le> length b"
  shows "s \<le> q" "q \<le> eq" "eq \<le> s'" "s' \<le> length b"
proof -
  let ?t = "skip_ws b s"
  have t: "s \<le> ?t" "?t \<le> length b" using skip_ws_ge skip_ws_le [OF assms(2)] by auto
  have n: "eq = ?t \<or> eq = Suc ?t \<and> ?t < length b \<or> eq = Suc (Suc ?t) \<and> Suc ?t < length b \<or> eq = skip_word b ?t"
    using assms(1) unfolding gettoken_def chr_at_def Let_def by (auto split: if_splits)
  have "q = ?t" "s' = skip_ws b eq" using assms(1) unfolding gettoken_def Let_def by (auto split: if_splits prod.splits)
  moreover have "?t \<le> eq" "eq \<le> length b"
    using n t skip_word_ge [of ?t b] skip_word_le [OF t(2)] by auto
  ultimately show "s \<le> q" "q \<le> eq" "eq \<le> s'" "s' \<le> length b"
    using t skip_ws_ge [of eq b] skip_ws_le [of eq b] by auto
qed

lemma gettoken_eof:
  assumes "gettoken b s = (k, t, s')" "CHR 0x00 \<notin> set b"
  shows "k = CHR 0x00 \<longleftrightarrow> length b \<le> skip_ws b s"
  using assms by (auto simp: gettoken_def Let_def chr_at_def split: if_splits dest: nth_mem)

lemma gettoken_progress:
  assumes "gettoken b s = (k, t, s')" "k \<noteq> CHR 0x00"
  shows "s < s'"
proof -
  let ?t = "skip_ws b s"
  have l: "?t < length b" using assms by (auto simp: gettoken_def Let_def chr_at_def split: if_splits)
  then have w: "b ! ?t \<notin> set whitespace" by (rule skip_ws_stop)
  have s': "s' = skip_ws b (snd t)" using assms(1) unfolding gettoken_def Let_def by (auto split: if_splits prod.splits)
  have n: "snd t = Suc ?t \<or> snd t = Suc (Suc ?t) \<or> snd t = skip_word b ?t \<and> b ! ?t \<notin> set symbols"
    using assms l unfolding gettoken_def chr_at_def Let_def symbols_def by (auto split: if_splits)
  then have "?t < snd t" using skip_word_gt [OF l] w unfolding wordchar_def by auto
  then show ?thesis using s' skip_ws_ge [of s b] skip_ws_ge [of "snd t" b] by linarith
qed

lemma peek_bounds:
  assumes "peek b s toks = (p, s')"
  shows "s \<le> s'" "s \<le> length b \<Longrightarrow> s' \<le> length b"
  using assms skip_ws_ge [of s b] skip_ws_le [of s b] by (auto simp: peek_def Let_def)

lemma skip_ws_idem: "skip_ws b (skip_ws b s) = skip_ws b s"
proof (cases "skip_ws b s < length b")
  case True
  then show ?thesis using skip_ws_stop [OF True] by (subst skip_ws.simps) simp
next
  case False
  then show ?thesis by (subst skip_ws.simps) simp
qed

text \<open>After a successful \<^verbatim>\<open>peek\<close> there is a token to take.\<close>

lemma peek_gettoken:
  assumes "peek b s toks = (True, s1)" "gettoken b s1 = (k, t, s2)"
  shows "s < s2"
proof -
  have s1: "s1 = skip_ws b s" and c: "chr_at b s1 \<noteq> CHR 0x00"
    using assms(1) by (auto simp: peek_def Let_def)
  have "k \<noteq> CHR 0x00" using assms(2) c skip_ws_idem [of b s] unfolding s1 gettoken_def Let_def
    by (auto split: if_splits)
  from gettoken_progress [OF assms(2) this] show ?thesis using skip_ws_ge [of s b] s1 by simp
qed

lemma peek_lt: "peek b s toks = (True, s1) \<Longrightarrow> s < length b"
  using skip_ws_ge [of s b] by (auto simp: peek_def Let_def chr_at_def split: if_splits)

lemma gettoken_lt: "gettoken b s = (k, t, s') \<Longrightarrow> k \<noteq> CHR 0x00 \<Longrightarrow> s < length b"
  using skip_ws_ge [of s b] by (auto simp: gettoken_def Let_def chr_at_def split: if_splits)

lemma redir_measure:
  assumes "(True, s1) = peek b s toks" "(k1, t1, s2) = gettoken b s1" "(CHR ''a'', t2, s3) = gettoken b s2"
  shows "length b - s3 < length b - s"
proof -
  have "s < length b" using peek_lt assms(1) by metis
  moreover have "s < s2" using peek_gettoken assms(1,2) by metis
  moreover have "s2 < s3" using gettoken_progress [of b s2 "CHR ''a''" t2 s3] assms(3) by simp
  ultimately show ?thesis by linarith
qed

lemma back_measure:
  assumes "(True, s1) = peek b s toks" "(k1, t1, s2) = gettoken b s1"
  shows "length b - s2 < length b - s"
proof -
  have "s < length b" using peek_lt assms(1) by metis
  moreover have "s < s2" using peek_gettoken assms(1,2) by metis
  ultimately show ?thesis by linarith
qed

lemma word_measure:
  assumes "(False, s1) = peek b s toks" "(CHR ''a'', t, s2) = gettoken b s1"
  shows "length b - s2 < length b - s" "s < s2"
proof -
  have "s \<le> s1" using peek_bounds assms(1) by metis
  moreover have "s1 < s2" "s1 < length b"
    using gettoken_progress [of b s1 "CHR ''a''" t s2] gettoken_lt [of b s1 "CHR ''a''" t s2] assms(2) by simp_all
  ultimately show "length b - s2 < length b - s" "s < s2" by linarith+
qed

section \<open>The parser\<close>

text \<open>A panic with its message, the unparsed rest of the line, or the recursion bound hit.\<close>

datatype perr = Syntax string | Leftovers string | Fuel

type_synonym 'a parse = "perr + 'a"

definition bindP :: "'a parse \<Rightarrow> ('a \<Rightarrow> 'b parse) \<Rightarrow> 'b parse" where
  "bindP r f = (case r of Inl e \<Rightarrow> Inl e | Inr x \<Rightarrow> f x)"

lemma bindP_simps [simp]: "bindP (Inl e) f = Inl e" "bindP (Inr x) f = f x"
  by (simp_all add: bindP_def)

function parseredirs :: "tok cmd \<Rightarrow> string \<Rightarrow> nat \<Rightarrow> (tok cmd \<times> nat) parse" where
  "parseredirs c b ps =
     (case peek b ps ''<>'' of (False, s) \<Rightarrow> Inr (c, s)
      | (True, s) \<Rightarrow>
         (case gettoken b s of (tok, _, s) \<Rightarrow>
          case gettoken b s of (k, q, s) \<Rightarrow>
          if k \<noteq> CHR ''a'' then Inl (Syntax ''missing file for redirection'')
          else if tok = CHR ''<'' then parseredirs (redircmd c q O_RDONLY 0) b s
          else if tok = CHR ''>'' then parseredirs (redircmd c q (O_WRONLY OR O_CREATE) 1) b s
          else if tok = CHR ''+'' then parseredirs (redircmd c q (O_WRONLY OR O_CREATE) 1) b s
          else parseredirs c b s))"
  by pat_completeness auto

termination
  by (relation "measure (\<lambda>(c, b, s). length b - s)") (auto dest: redir_measure)

declare parseredirs.simps [simp del]

text \<open>The argument stored in the command that \<^verbatim>\<open>execcmd\<close> made, inside the redirections put around it.\<close>

fun add_arg :: "'t \<Rightarrow> 't cmd \<Rightarrow> 't cmd" where
  "add_arg t (Exec ts) = Exec (ts @ [t])"
| "add_arg t (Redir c f m d) = Redir (add_arg t c) f m d"
| "add_arg t c = c"

function parseargs :: "nat \<Rightarrow> tok cmd \<Rightarrow> string \<Rightarrow> nat \<Rightarrow> (tok cmd \<times> nat) parse" where
  "parseargs argc ret b ps =
     (case peek b ps ''|)&;'' of (True, s) \<Rightarrow> Inr (ret, s)
      | (False, s) \<Rightarrow>
         (case gettoken b s of (tok, q, s) \<Rightarrow>
          if tok = CHR 0x00 then Inr (ret, s)
          else if tok \<noteq> CHR ''a'' then Inl (Syntax ''syntax'')
          else if argc + 1 \<ge> MAXARGS then Inl (Syntax ''too many args'')
          else (case parseredirs (add_arg q ret) b s of Inl e \<Rightarrow> Inl e
                | Inr (ret, s) \<Rightarrow> parseargs (argc + 1) ret b s)))"
  by pat_completeness auto

termination
  by (relation "measure (\<lambda>(n, c, b, s). MAXARGS - n)") auto

declare parseargs.simps [simp del]

function parseback :: "tok cmd \<Rightarrow> string \<Rightarrow> nat \<Rightarrow> tok cmd \<times> nat" where
  "parseback c b ps =
     (case peek b ps ''&'' of (False, s) \<Rightarrow> (c, s)
      | (True, s) \<Rightarrow> (case gettoken b s of (_, _, s) \<Rightarrow> parseback (backcmd c) b s))"
  by pat_completeness auto

termination
  by (relation "measure (\<lambda>(c, b, s). length b - s)") (auto dest: back_measure)

declare parseback.simps [simp del]

text \<open>
  The recursive descent, bounded by a number of nested calls; \<^verbatim>\<open>parsecmd\<close> gives it one that always
  suffices (lemma \<open>parser_total\<close>).
\<close>

fun parseline :: "nat \<Rightarrow> string \<Rightarrow> nat \<Rightarrow> (tok cmd \<times> nat) parse"
and parsepipe :: "nat \<Rightarrow> string \<Rightarrow> nat \<Rightarrow> (tok cmd \<times> nat) parse"
and parseexec :: "nat \<Rightarrow> string \<Rightarrow> nat \<Rightarrow> (tok cmd \<times> nat) parse"
and parseblock :: "nat \<Rightarrow> string \<Rightarrow> nat \<Rightarrow> (tok cmd \<times> nat) parse" where
  "parseline 0 b ps = Inl Fuel"
| "parseline (Suc n) b ps =
     bindP (parsepipe n b ps) (\<lambda>(c, s).
       case parseback c b s of (c, s) \<Rightarrow>
       case peek b s '';'' of (False, s) \<Rightarrow> Inr (c, s)
       | (True, s) \<Rightarrow> (case gettoken b s of (_, _, s) \<Rightarrow>
           bindP (parseline n b s) (\<lambda>(r, s). Inr (listcmd c r, s))))"
| "parsepipe 0 b ps = Inl Fuel"
| "parsepipe (Suc n) b ps =
     bindP (parseexec n b ps) (\<lambda>(c, s).
       case peek b s ''|'' of (False, s) \<Rightarrow> Inr (c, s)
       | (True, s) \<Rightarrow> (case gettoken b s of (_, _, s) \<Rightarrow>
           bindP (parsepipe n b s) (\<lambda>(r, s). Inr (pipecmd c r, s))))"
| "parseexec 0 b ps = Inl Fuel"
| "parseexec (Suc n) b ps =
     (case peek b ps ''('' of (True, s) \<Rightarrow> parseblock n b s
      | (False, s) \<Rightarrow> bindP (parseredirs execcmd b s) (\<lambda>(ret, s). parseargs 0 ret b s))"
| "parseblock 0 b ps = Inl Fuel"
| "parseblock (Suc n) b ps =
     (case peek b ps ''('' of (False, s) \<Rightarrow> Inl (Syntax ''parseblock'')
      | (True, s) \<Rightarrow> (case gettoken b s of (_, _, s) \<Rightarrow>
          bindP (parseline n b s) (\<lambda>(c, s).
            case peek b s '')'' of (False, s) \<Rightarrow> Inl (Syntax ''syntax - missing )'')
            | (True, s) \<Rightarrow> (case gettoken b s of (_, _, s) \<Rightarrow> parseredirs c b s))))"

text \<open>\<^verbatim>\<open>nulterminate\<close>: the terminators written into the line.\<close>

fun nulterminate :: "tok cmd \<Rightarrow> string \<Rightarrow> string" where
  "nulterminate (Exec ts) b = foldl (\<lambda>b (q, eq). b[eq := CHR 0x00]) b ts"
| "nulterminate (Redir c f m d) b = (nulterminate c b)[snd f := CHR 0x00]"
| "nulterminate (Pipe l r) b = nulterminate r (nulterminate l b)"
| "nulterminate (List l r) b = nulterminate r (nulterminate l b)"
| "nulterminate (Back c) b = nulterminate c b"

definition parsecmd :: "string \<Rightarrow> (tok cmd \<times> string) parse" where
  "parsecmd b =
     bindP (parseline (4 * length b + 4) b 0) (\<lambda>(c, s).
       case peek b s [] of (_, s) \<Rightarrow>
       if s \<noteq> length b then Inl (Leftovers (drop s b)) else Inr (c, nulterminate c b))"

section \<open>Running commands\<close>

definition sh_panic :: "'w usys \<Rightarrow> string \<Rightarrow> 'w \<Rightarrow> 'w run" where
  "sh_panic u s w = exit_with (prints1 u 2 (''%s'' @ [CHR 0x0A]) s w)"

definition fork1 :: "'w usys \<Rightarrow> 'w \<Rightarrow> (int \<Rightarrow> 'w \<Rightarrow> 'w run) \<Rightarrow> 'w run" where
  "fork1 u w k = (case u_fork u w of (pid, w) \<Rightarrow> if pid = - 1 then sh_panic u ''fork'' w else k pid w)"

text \<open>The string at a position of the cut line.\<close>

definition cstr_at :: "string \<Rightarrow> tok \<Rightarrow> string" where
  "cstr_at buf t = takeWhile (\<lambda>c. c \<noteq> CHR 0x00) (drop (fst t) buf)"

definition go :: "'w \<Rightarrow> 'w run" where
  "go w = Some (Inr (Go w))"

definition wait_for :: "'w usys \<Rightarrow> 'w \<Rightarrow> 'w" where
  "wait_for u w = snd (u_wait u w)"

definition pipe_end :: "'w usys \<Rightarrow> int \<Rightarrow> int \<Rightarrow> int \<times> int \<Rightarrow> 'w \<Rightarrow> 'w" where
  "pipe_end u fd p' p w =
     (let w = snd (u_close u fd w); w = snd (u_dup u p' w); w = snd (u_close u (fst p) w)
      in snd (u_close u (snd p) w))"

fun runcmd :: "'w usys \<Rightarrow> string \<Rightarrow> tok cmd \<Rightarrow> 'w \<Rightarrow> 'w run" where
  "runcmd u buf (Exec ts) w =
     (case ts of [] \<Rightarrow> exit_with (Inr w)
      | t # _ \<Rightarrow>
         (case u_exec u (cstr_at buf t) (map (cstr_at buf) ts) w of
            (True, w) \<Rightarrow> Some (Inr (Execed (cstr_at buf t) (map (cstr_at buf) ts) w))
          | (False, w) \<Rightarrow> exit_with (prints1 u 2 (''exec %s failed'' @ [CHR 0x0A]) (cstr_at buf t) w)))"
| "runcmd u buf (Redir c f mode fd) w =
     (let w = snd (u_close u fd w) in
      case u_open u (cstr_at buf f) mode w of (r, w) \<Rightarrow>
      if r < 0 then exit_with (prints1 u 2 (''open %s failed'' @ [CHR 0x0A]) (cstr_at buf f) w)
      else andthen (runcmd u buf c w) (\<lambda>w. exit_with (Inr w)))"
| "runcmd u buf (List l r) w =
     fork1 u w (\<lambda>pid w.
       andthen (if pid = 0 then runcmd u buf l w else go w) (\<lambda>w.
       andthen (runcmd u buf r (wait_for u w)) (\<lambda>w. exit_with (Inr w))))"
| "runcmd u buf (Pipe l r) w =
     (case u_pipe u w of (e, p, w) \<Rightarrow>
      if e < 0 then sh_panic u ''pipe'' w
      else fork1 u w (\<lambda>pid w.
        andthen (if pid = 0 then runcmd u buf l (pipe_end u 1 (snd p) p w) else go w) (\<lambda>w.
        fork1 u w (\<lambda>pid w.
        andthen (if pid = 0 then runcmd u buf r (pipe_end u 0 (fst p) p w) else go w) (\<lambda>w.
          let w = snd (u_close u (fst p) w); w = snd (u_close u (snd p) w)
          in exit_with (Inr (wait_for u (wait_for u w))))))))"
| "runcmd u buf (Back c) w =
     fork1 u w (\<lambda>pid w.
       andthen (if pid = 0 then runcmd u buf c w else go w) (\<lambda>w. exit_with (Inr w)))"

definition run_line :: "'w usys \<Rightarrow> string \<Rightarrow> 'w \<Rightarrow> 'w run" where
  "run_line u b w =
     (case parsecmd b of
        Inr (c, buf) \<Rightarrow> runcmd u buf c w
      | Inl (Syntax m) \<Rightarrow> sh_panic u m w
      | Inl (Leftovers rest) \<Rightarrow>
          (case prints1 u 2 (''leftovers: %s'' @ [CHR 0x0A]) rest w of
             Inl e \<Rightarrow> Some (Inl e) | Inr w \<Rightarrow> sh_panic u ''syntax'' w)
      | Inl Fuel \<Rightarrow> Some (Inl Hang))"

section \<open>The command loop\<close>

text \<open>\<^verbatim>\<open>getcmd\<close>: \<open>None\<close> at the end of the input, else the line up to its first terminator.\<close>

definition getcmd :: "'w usys \<Rightarrow> int \<Rightarrow> 'w \<Rightarrow> (string option \<times> 'w) res" where
  "getcmd u nbuf w =
     bindR (prints u 2 ''$ '' w) (\<lambda>w.
       case gets u nbuf w of (l, w) \<Rightarrow>
       let b = takeWhile (\<lambda>c. c \<noteq> CHR 0x00) l in Inr (if b = [] then None else Some b, w))"

definition sh_cd :: "'w usys \<Rightarrow> string \<Rightarrow> 'w \<Rightarrow> 'w res" where
  "sh_cd u b w =
     (let d = drop 3 (butlast b) in
      case u_chdir u d w of (r, w) \<Rightarrow>
      if r < 0 then prints1 u 2 (''cannot cd %s'' @ [CHR 0x0A]) d w else Inr w)"

partial_function (option) open_console :: "'w usys \<Rightarrow> 'w \<Rightarrow> 'w option" where
  "open_console u w =
     (case u_open u ''console'' O_RDWR w of (fd, w) \<Rightarrow>
      if fd \<ge> 0 then (if fd \<ge> 3 then Some (snd (u_close u fd w)) else open_console u w) else Some w)"

text \<open>One round of the loop, and the loop.\<close>

definition sh_step :: "'w usys \<Rightarrow> string \<Rightarrow> 'w \<Rightarrow> 'w run" where
  "sh_step u b w =
     (if take 3 b = ''cd '' then Some (bindR (sh_cd u b w) (\<lambda>w. Inr (Go w)))
      else fork1 u w (\<lambda>pid w.
        andthen (if pid = 0 then run_line u b w else go w) (\<lambda>w. go (wait_for u w))))"

partial_function (option) sh_loop :: "'w usys \<Rightarrow> 'w \<Rightarrow> 'w run" where
  "sh_loop u w =
     (case getcmd u 100 w of
        Inl e \<Rightarrow> Some (Inl e)
      | Inr (None, w) \<Rightarrow> exit_with (Inr w)
      | Inr (Some b, w) \<Rightarrow>
          (case sh_step u b w of None \<Rightarrow> None
           | Some (Inr (Go w)) \<Rightarrow> sh_loop u w
           | Some r \<Rightarrow> Some r))"

definition sh_main :: "'w usys \<Rightarrow> 'w \<Rightarrow> 'w run" where
  "sh_main u w = Option.bind (open_console u w) (sh_loop u)"

section \<open>What the parser returns\<close>

text \<open>A word of the line: it holds no separator and is followed by one, or by the end of the line.\<close>

definition word :: "string \<Rightarrow> tok \<Rightarrow> bool" where
  "word b t \<longleftrightarrow> fst t < snd t \<and> snd t \<le> length b \<and> (\<forall>i. fst t \<le> i \<and> i < snd t \<longrightarrow> wordchar (b ! i)) \<and>
     (snd t < length b \<longrightarrow> \<not> wordchar (b ! snd t))"

fun args_ok :: "'t cmd \<Rightarrow> bool" where
  "args_ok (Exec ts) \<longleftrightarrow> length ts < MAXARGS"
| "args_ok (Redir c f m d) \<longleftrightarrow> args_ok c"
| "args_ok (Pipe l r) \<longleftrightarrow> args_ok l \<and> args_ok r"
| "args_ok (List l r) \<longleftrightarrow> args_ok l \<and> args_ok r"
| "args_ok (Back c) \<longleftrightarrow> args_ok c"

definition good :: "string \<Rightarrow> tok cmd \<Rightarrow> bool" where
  "good b c \<longleftrightarrow> (\<forall>t\<in>set_cmd c. word b t) \<and> args_ok c"

definition sound :: "string \<Rightarrow> nat \<Rightarrow> (tok cmd \<times> nat) parse \<Rightarrow> bool" where
  "sound b s r \<longleftrightarrow> (case r of Inl e \<Rightarrow> e \<noteq> Fuel
     | Inr (c, s') \<Rightarrow> s \<le> s' \<and> s' \<le> length b \<and> good b c)"

lemma good_intros:
  "good b execcmd"
  "good b c \<Longrightarrow> word b f \<Longrightarrow> good b (redircmd c f m d)"
  "good b l \<Longrightarrow> good b r \<Longrightarrow> good b (pipecmd l r)"
  "good b l \<Longrightarrow> good b r \<Longrightarrow> good b (listcmd l r)"
  "good b c \<Longrightarrow> good b (backcmd c)"
  by (auto simp: good_def execcmd_def redircmd_def pipecmd_def listcmd_def backcmd_def MAXARGS_def)

lemma sound_Inr [simp]: "sound b s (Inr (c, s')) \<longleftrightarrow> s \<le> s' \<and> s' \<le> length b \<and> good b c"
  and sound_Inl [simp]: "sound b s (Inl e) \<longleftrightarrow> e \<noteq> Fuel"
  by (auto simp: sound_def)

lemma sound_later: "sound b s' r \<Longrightarrow> s \<le> s' \<Longrightarrow> sound b s r"
  by (auto simp: sound_def split: sum.splits)

lemma sound_bind:
  assumes "sound b s r" "\<And>c s'. s \<le> s' \<Longrightarrow> s' \<le> length b \<Longrightarrow> good b c \<Longrightarrow> sound b s (f (c, s'))"
  shows "sound b s (bindP r f)"
  using assms by (cases r) auto

lemma skip_word_eq: "skip_word b s = s + length (takeWhile wordchar (drop s b))"
proof (induction b s rule: skip_word.induct)
  case (1 b s)
  show ?case
  proof (cases "s < length b")
    case True
    then have "drop s b = b ! s # drop (Suc s) b" by (simp add: Cons_nth_drop_Suc)
    then show ?thesis using 1 True by (subst skip_word.simps) simp
  qed (subst skip_word.simps, simp)
qed

lemma skip_ws_eq: "skip_ws b s = s + length (takeWhile (\<lambda>c. c \<in> set whitespace) (drop s b))"
proof (induction b s rule: skip_ws.induct)
  case (1 b s)
  show ?case
  proof (cases "s < length b")
    case True
    then have "drop s b = b ! s # drop (Suc s) b" by (simp add: Cons_nth_drop_Suc)
    then show ?thesis using 1 True by (subst skip_ws.simps) simp
  qed (subst skip_ws.simps, simp)
qed

lemma skip_word_word:
  assumes "s \<le> i" "i < skip_word b s"
  shows "wordchar (b ! i)"
proof -
  have l: "i - s < length (takeWhile wordchar (drop s b))" using assms by (simp add: skip_word_eq)
  then have "wordchar (drop s b ! (i - s))" by (metis nth_mem set_takeWhileD takeWhile_nth)
  moreover have "i < length b" using l assms length_takeWhile_le [of wordchar "drop s b"] by simp
  ultimately show ?thesis using assms by simp
qed

lemma skip_word_stop:
  assumes "skip_word b s < length b"
  shows "\<not> wordchar (b ! skip_word b s)"
proof -
  let ?n = "length (takeWhile wordchar (drop s b))"
  have "?n < length (drop s b)" using assms by (simp add: skip_word_eq)
  then have "\<not> wordchar (drop s b ! ?n)" by (rule nth_length_takeWhile)
  then show ?thesis using assms by (simp add: skip_word_eq)
qed

lemma gettoken_word:
  assumes "gettoken b s = (CHR ''a'', t, s')"
  shows "word b t"
proof -
  let ?t = "skip_ws b s"
  have c: "chr_at b ?t \<noteq> CHR 0x00" "chr_at b ?t \<notin> set symbols" and t: "t = (?t, skip_word b ?t)"
    using assms unfolding gettoken_def Let_def symbols_def by (auto split: if_splits)
  then have l: "?t < length b" by (auto simp: chr_at_def split: if_splits)
  then have "wordchar (b ! ?t)" using c skip_ws_stop [OF l] by (simp add: chr_at_def wordchar_def)
  then show ?thesis
    using t skip_word_gt [OF l] skip_word_le [of ?t b] l skip_word_word [of ?t _ b] skip_word_stop [of b ?t]
    unfolding word_def by auto
qed

text \<open>The rules that follow the loops of the parser.\<close>

lemma sound_token:
  assumes "s \<le> length b" "\<And>k t s2. gettoken b s = (k, t, s2) \<Longrightarrow> s \<le> s2 \<Longrightarrow> s2 \<le> length b \<Longrightarrow> sound b s0 (f k t s2)"
  shows "sound b s0 (case gettoken b s of (k, t, s2) \<Rightarrow> f k t s2)"
proof (cases "gettoken b s")
  case (fields k t s2)
  obtain q e where t: "t = (q, e)" by force
  from gettoken_bounds [OF fields [unfolded t] assms(1)] show ?thesis using fields assms(2) [OF fields] by simp
qed

lemma sound_peek:
  assumes "s \<le> length b" "\<And>s1. peek b s tk = (True, s1) \<Longrightarrow> s \<le> s1 \<Longrightarrow> s1 \<le> length b \<Longrightarrow> sound b s0 (f s1)"
    "\<And>s1. peek b s tk = (False, s1) \<Longrightarrow> s \<le> s1 \<Longrightarrow> s1 \<le> length b \<Longrightarrow> sound b s0 (g s1)"
  shows "sound b s0 (case peek b s tk of (True, s1) \<Rightarrow> f s1 | (False, s1) \<Rightarrow> g s1)"
proof (cases "peek b s tk")
  case (Pair p s1)
  then show ?thesis using assms peek_bounds [OF Pair] by (cases p) auto
qed

lemma parseredirs_sound: "s \<le> length b \<Longrightarrow> good b c \<Longrightarrow> sound b s (parseredirs c b s)"
proof (induction "length b - s" arbitrary: c s rule: less_induct)
  case less
  have step: "sound b s (parseredirs c' b s3)"
    if "peek b s ''<>'' = (True, s1)" "gettoken b s1 = (k, t, s2)" "gettoken b s2 = (CHR ''a'', t2, s3)"
      "s \<le> s3" "s3 \<le> length b" "good b c'" for s1 k t s2 t2 s3 c'
    using sound_later [OF less(1) [OF redir_measure [OF that(1,2,3) [symmetric]] that(5,6)] that(4)] .
  show ?case
  proof (subst parseredirs.simps, rule sound_peek [OF less(2)], rule sound_token, assumption, rule sound_token, assumption)
    fix s1 k t s2 k2 t2 s3
    assume a: "peek b s ''<>'' = (True, s1)" "gettoken b s1 = (k, t, s2)" "gettoken b s2 = (k2, t2, s3)"
      "s \<le> s1" "s1 \<le> s2" "s2 \<le> s3" "s3 \<le> length b"
    show "sound b s (if k2 \<noteq> CHR ''a'' then Inl (Syntax ''missing file for redirection'')
          else if k = CHR ''<'' then parseredirs (redircmd c t2 O_RDONLY 0) b s3
          else if k = CHR ''>'' then parseredirs (redircmd c t2 (O_WRONLY OR O_CREATE) 1) b s3
          else if k = CHR ''+'' then parseredirs (redircmd c t2 (O_WRONLY OR O_CREATE) 1) b s3
          else parseredirs c b s3)"
    proof (cases "k2 = CHR ''a''")
      case True
      then have "gettoken b s2 = (CHR ''a'', t2, s3)" "s \<le> s3" using a by auto
      note st = step [OF a(1,2) this a(7)] and w = good_intros(2) [OF less(3) gettoken_word [OF this(1)]]
      show ?thesis using st [OF w] st [OF less(3)] True by simp
    qed simp
  qed (use less(2,3) in simp)
qed

text \<open>The command \<^verbatim>\<open>parseexec\<close> builds: redirections around the command with the arguments.\<close>

fun simple :: "'t cmd \<Rightarrow> 't list \<Rightarrow> bool" where
  "simple (Exec ts) as \<longleftrightarrow> ts = as"
| "simple (Redir c f m d) as \<longleftrightarrow> simple c as"
| "simple c as \<longleftrightarrow> False"

lemma simple_add_arg: "simple c as \<Longrightarrow> simple (add_arg t c) (as @ [t])"
  by (induction c as rule: simple.induct) auto

lemma good_add_arg:
  "simple c as \<Longrightarrow> good b c \<Longrightarrow> word b t \<Longrightarrow> length as + 1 < MAXARGS \<Longrightarrow> good b (add_arg t c)"
  by (induction c as rule: simple.induct) (auto simp: good_def)

lemma parseredirs_simple:
  "simple c as \<Longrightarrow> parseredirs c b s = Inr (c', s') \<Longrightarrow> simple c' as"
proof (induction "length b - s" arbitrary: c s rule: less_induct)
  case less
  obtain p s1 where p: "peek b s ''<>'' = (p, s1)" by force
  obtain k t s2 where g: "gettoken b s1 = (k, t, s2)" by (metis prod_cases3)
  obtain k2 t2 s3 where h: "gettoken b s2 = (k2, t2, s3)" by (metis prod_cases3)
  have step: "simple c'' as \<Longrightarrow> parseredirs c'' b s3 = Inr (c', s') \<Longrightarrow> p \<Longrightarrow> k2 = CHR ''a'' \<Longrightarrow> simple c' as" for c''
    using less(1) [OF redir_measure [of s1 b s "''<>''" k t s2 t2 s3]] p g h by simp
  show ?case using less(3) less(2) unfolding parseredirs.simps [of c b s] p g h prod.case
    by (cases p) (auto split: if_splits dest: step [rotated] simp: redircmd_def)
qed

lemma parseargs_sound:
  "s \<le> length b \<Longrightarrow> good b c \<Longrightarrow> simple c as \<Longrightarrow> length as = n \<Longrightarrow> sound b s (parseargs n c b s)"
proof (induction "MAXARGS - n" arbitrary: n c s as rule: less_induct)
  case less
  show ?case
  proof (subst parseargs.simps, rule sound_peek [OF less(2)])
    fix s1
    assume a: "s \<le> s1" "s1 \<le> length b"
    show "sound b s (Inr (c, s1))" using a less(3) by simp
    show "sound b s (case gettoken b s1 of (tok, q, s) \<Rightarrow>
          if tok = CHR 0x00 then Inr (c, s)
          else if tok \<noteq> CHR ''a'' then Inl (Syntax ''syntax'')
          else if n + 1 \<ge> MAXARGS then Inl (Syntax ''too many args'')
          else (case parseredirs (add_arg q c) b s of Inl e \<Rightarrow> Inl e
                | Inr (ret, s) \<Rightarrow> parseargs (n + 1) ret b s))"
    proof (rule sound_token [OF a(2)])
      fix k t s2
      assume g: "gettoken b s1 = (k, t, s2)" "s1 \<le> s2" "s2 \<le> length b"
      show "sound b s (if k = CHR 0x00 then Inr (c, s2)
          else if k \<noteq> CHR ''a'' then Inl (Syntax ''syntax'')
          else if n + 1 \<ge> MAXARGS then Inl (Syntax ''too many args'')
          else (case parseredirs (add_arg t c) b s2 of Inl e \<Rightarrow> Inl e
                | Inr (ret, s) \<Rightarrow> parseargs (n + 1) ret b s))"
      proof (cases "k = CHR ''a'' \<and> n + 1 < MAXARGS")
        case True
        then have gd: "good b (add_arg t c)" using good_add_arg [OF less(4,3)] gettoken_word g less(5) by auto
        note sd = parseredirs_sound [OF g(3) gd]
        show ?thesis
        proof (cases "parseredirs (add_arg t c) b s2")
          case (Inl e)
          then show ?thesis using True sd by simp
        next
          case (Inr r)
          obtain ret s3 where r: "r = (ret, s3)" by force
          have "sound b s3 (parseargs (n + 1) ret b s3)"
          proof (rule less(1))
            show "simple ret (as @ [t])" using parseredirs_simple [OF simple_add_arg [OF less(4)]] Inr r by blast
          qed (use True sd Inr r less(5) in auto)
          from sound_later [OF this, of s] show ?thesis using True sd Inr r a(1) g(2) by simp
        qed
      qed (use a g less(2-5) in auto)
    qed
  qed
qed

lemma parseback_sound:
  "s \<le> length b \<Longrightarrow> good b c \<Longrightarrow> parseback c b s = (c', s') \<Longrightarrow> s \<le> s' \<and> s' \<le> length b \<and> good b c'"
proof (induction "length b - s" arbitrary: c s rule: less_induct)
  case less
  obtain p s1 where p: "peek b s ''&'' = (p, s1)" by force
  obtain k q e s2 where g: "gettoken b s1 = (k, (q, e), s2)" by (metis prod.exhaust)
  have b1: "s \<le> s1" "s1 \<le> length b" using peek_bounds [OF p] less(2) by auto
  have b2: "s1 \<le> s2" "s2 \<le> length b" using gettoken_bounds [OF g b1(2)] by auto
  show ?case
  proof (cases p)
    case True
    have "parseback (backcmd c) b s2 = (c', s')"
      using less(4) p g True by (simp add: parseback.simps [of c b s])
    from less(1) [OF back_measure b2(2) good_intros(5) [OF less(3)] this, of s1 "''&''" k "(q, e)"] p g True b1 b2
    show ?thesis by simp
  next
    case False
    then show ?thesis using less(3,4) b1 unfolding parseback.simps [of c b s] p by simp
  qed
qed

text \<open>The four functions of the descent, by induction on the bound.\<close>

definition descent :: "nat \<Rightarrow> string \<Rightarrow> bool" where
  "descent n b \<longleftrightarrow> (\<forall>s \<le> length b.
     (4 * (length b - s) + 4 \<le> n \<longrightarrow> sound b s (parseline n b s)) \<and>
     (4 * (length b - s) + 3 \<le> n \<longrightarrow> sound b s (parsepipe n b s)) \<and>
     (4 * (length b - s) + 2 \<le> n \<longrightarrow> sound b s (parseexec n b s)) \<and>
     (4 * (length b - s) + 1 \<le> n \<longrightarrow> sound b s (parseblock n b s)))"

lemma descentD:
  assumes "descent n b" "s \<le> length b"
  shows "4 * (length b - s) + 4 \<le> n \<Longrightarrow> sound b s (parseline n b s)"
    "4 * (length b - s) + 3 \<le> n \<Longrightarrow> sound b s (parsepipe n b s)"
    "4 * (length b - s) + 2 \<le> n \<Longrightarrow> sound b s (parseexec n b s)"
    "4 * (length b - s) + 1 \<le> n \<Longrightarrow> sound b s (parseblock n b s)"
  using assms by (auto simp: descent_def)

lemma peek_token_measure:
  assumes "peek b s1 tk = (True, s2)" "gettoken b s2 = (k, t, s3)" "s \<le> s1" "s3 \<le> length b"
  shows "4 * (length b - s3) + 4 \<le> 4 * (length b - s)"
  using peek_gettoken [OF assms(1,2)] assms(3,4) by simp

lemma parseline_sound:
  assumes d: "descent n b" and s: "s \<le> length b" "4 * (length b - s) + 4 \<le> Suc n"
  shows "sound b s (parseline (Suc n) b s)"
proof -
  have "sound b s (parsepipe n b s)" using descentD(2) [OF d s(1)] s(2) by simp
  then show ?thesis unfolding parseline.simps
  proof (rule sound_bind, simp only: prod.case)
    fix c s1
    assume 1: "s \<le> s1" "s1 \<le> length b" "good b c"
    obtain c2 s2 where pb: "parseback c b s1 = (c2, s2)" by force
    note 2 = parseback_sound [OF 1(2,3) pb]
    show "sound b s (case parseback c b s1 of (c, s) \<Rightarrow>
       case peek b s '';'' of (False, s) \<Rightarrow> Inr (c, s)
       | (True, s) \<Rightarrow> (case gettoken b s of (_, _, s) \<Rightarrow>
           bindP (parseline n b s) (\<lambda>(r, s). Inr (listcmd c r, s))))"
      unfolding pb prod.case
    proof (rule sound_peek, use 2 in simp, rule sound_token, assumption)
      fix s3 k t s4
      assume a: "peek b s2 '';'' = (True, s3)" "gettoken b s3 = (k, t, s4)" "s2 \<le> s3" "s3 \<le> s4" "s4 \<le> length b"
      have "4 * (length b - s4) + 4 \<le> 4 * (length b - s)" using peek_token_measure a(1,2,5) 1 2 by simp
      then have "sound b s4 (parseline n b s4)" using descentD(1) [OF d a(5)] s(2) by simp
      then have "sound b s (parseline n b s4)" using a 1 2 by (auto intro: sound_later [of b s4])
      then show "sound b s (bindP (parseline n b s4) (\<lambda>(r, s). Inr (listcmd c2 r, s)))"
        by (rule sound_bind) (use 2 good_intros(4) in simp)
    qed (use 1 2 in simp)
  qed
qed

lemma parsepipe_sound:
  assumes d: "descent n b" and s: "s \<le> length b" "4 * (length b - s) + 3 \<le> Suc n"
  shows "sound b s (parsepipe (Suc n) b s)"
proof -
  have "sound b s (parseexec n b s)" using descentD(3) [OF d s(1)] s(2) by simp
  then show ?thesis unfolding parsepipe.simps
  proof (rule sound_bind, simp only: prod.case)
    fix c s2
    assume 2: "s \<le> s2" "s2 \<le> length b" "good b c"
    show "sound b s (case peek b s2 ''|'' of (False, s) \<Rightarrow> Inr (c, s)
       | (True, s) \<Rightarrow> (case gettoken b s of (_, _, s) \<Rightarrow>
           bindP (parsepipe n b s) (\<lambda>(r, s). Inr (pipecmd c r, s))))"
    proof (rule sound_peek [OF 2(2)], rule sound_token, assumption)
      fix s3 k t s4
      assume a: "peek b s2 ''|'' = (True, s3)" "gettoken b s3 = (k, t, s4)" "s2 \<le> s3" "s3 \<le> s4" "s4 \<le> length b"
      have "4 * (length b - s4) + 4 \<le> 4 * (length b - s)" using peek_token_measure a(1,2,5) 2 by simp
      then have "sound b s4 (parsepipe n b s4)" using descentD(2) [OF d a(5)] s(2) by simp
      then have "sound b s (parsepipe n b s4)" using a 2 by (auto intro: sound_later [of b s4])
      then show "sound b s (bindP (parsepipe n b s4) (\<lambda>(r, s). Inr (pipecmd c r, s)))"
        by (rule sound_bind) (use 2 good_intros(3) in simp)
    qed (use 2 in simp)
  qed
qed

lemma parseexec_sound:
  assumes d: "descent n b" and s: "s \<le> length b" "4 * (length b - s) + 2 \<le> Suc n"
  shows "sound b s (parseexec (Suc n) b s)"
  unfolding parseexec.simps
proof (rule sound_peek [OF s(1)])
  fix s1
  assume a: "s \<le> s1" "s1 \<le> length b"
  have "sound b s1 (parseblock n b s1)" using descentD(4) [OF d a(2)] s(2) a(1) by simp
  then show "sound b s (parseblock n b s1)" using a(1) by (rule sound_later)
  have x: "sound b s1 (parseredirs execcmd b s1)" by (rule parseredirs_sound [OF a(2) good_intros(1)])
  show "sound b s (bindP (parseredirs execcmd b s1) (\<lambda>(ret, s). parseargs 0 ret b s))"
  proof (cases "parseredirs execcmd b s1")
    case (Inr r)
    obtain ret s2 where r: "r = (ret, s2)" by force
    have "simple ret []" using parseredirs_simple [of execcmd "[]" b s1] Inr r by (simp add: execcmd_def)
    then have "sound b s2 (parseargs 0 ret b s2)" using parseargs_sound x Inr r by simp
    from sound_later [OF this, of s] show ?thesis using x Inr r a(1) by simp
  qed (use x in simp)
qed

lemma parseblock_sound:
  assumes d: "descent n b" and s: "s \<le> length b" "4 * (length b - s) + 1 \<le> Suc n"
  shows "sound b s (parseblock (Suc n) b s)"
  unfolding parseblock.simps
proof (rule sound_peek [OF s(1)], rule sound_token, assumption)
  fix s1 k t s2
  assume a: "peek b s ''('' = (True, s1)" "gettoken b s1 = (k, t, s2)" "s \<le> s1" "s1 \<le> s2" "s2 \<le> length b"
  have "4 * (length b - s2) + 4 \<le> 4 * (length b - s)" using peek_token_measure a(1,2,5) by simp
  then have "sound b s2 (parseline n b s2)" using descentD(1) [OF d a(5)] s(2) by simp
  then have "sound b s (parseline n b s2)" using a by (auto intro: sound_later [of b s2])
  then show "sound b s (bindP (parseline n b s2) (\<lambda>(c, s).
      case peek b s '')'' of (False, s) \<Rightarrow> Inl (Syntax ''syntax - missing )'')
      | (True, s) \<Rightarrow> (case gettoken b s of (_, _, s) \<Rightarrow> parseredirs c b s)))"
  proof (rule sound_bind, simp only: prod.case)
    fix c s3
    assume 3: "s \<le> s3" "s3 \<le> length b" "good b c"
    show "sound b s (case peek b s3 '')'' of (False, s) \<Rightarrow> Inl (Syntax ''syntax - missing )'')
      | (True, s) \<Rightarrow> (case gettoken b s of (_, _, s) \<Rightarrow> parseredirs c b s))"
    proof (rule sound_peek [OF 3(2)], rule sound_token, assumption)
      fix s4 k t s5
      assume "s3 \<le> s4" "s4 \<le> s5" "s5 \<le> length b"
      then show "sound b s (parseredirs c b s5)" using sound_later [OF parseredirs_sound [OF _ 3(3)], of s5 s] 3(1) by simp
    qed simp
  qed
qed simp

lemma descent_all: "descent n b"
proof (induction n)
  case 0
  show ?case by (simp add: descent_def)
next
  case (Suc n)
  then show ?case unfolding descent_def [of "Suc n"]
    using parseline_sound parsepipe_sound parseexec_sound parseblock_sound by blast
qed

lemma parser_total: "sound b 0 (parseline (4 * length b + 4) b 0)"
  using descentD(1) [OF descent_all, of 0 b] by simp

section \<open>Cutting the line\<close>

lemma length_nulterminate [simp]: "length (nulterminate c b) = length b"
proof (induction c b rule: nulterminate.induct)
  case (1 ts b)
  show ?case by (induction ts arbitrary: b) auto
qed auto

lemma nulterminate_nth:
  "i < length b \<Longrightarrow> nulterminate c b ! i = (if i \<in> snd ` set_cmd c then CHR 0x00 else b ! i)"
proof (induction c b rule: nulterminate.induct)
  case (1 ts b)
  then show ?case by (induction ts arbitrary: b) (auto simp: nth_list_update image_iff split_beta)
next
  case (2 c f m d b)
  then show ?case by (cases "i = snd f") simp_all
qed (simp_all add: image_Un)

definition word_at :: "string \<Rightarrow> tok \<Rightarrow> string" where
  "word_at b t = take (snd t - fst t) (drop (fst t) b)"

lemma cstr_at_nulterminate:
  assumes g: "good b c" and t: "t \<in> set_cmd c" and z: "CHR 0x00 \<notin> set b"
  shows "cstr_at (nulterminate c b) t = word_at b t"
proof -
  let ?d = "nulterminate c b"
  have w: "word b t'" if "t' \<in> set_cmd c" for t' using g that by (simp add: good_def)
  note wt = w [OF t, unfolded word_def]
  have keep: "?d ! i = b ! i" if "fst t \<le> i" "i < snd t" for i
  proof -
    have i: "i < length b" "wordchar (b ! i)" using wt that by auto
    then have "i \<notin> snd ` set_cmd c" using w unfolding word_def by auto
    then show ?thesis using nulterminate_nth [OF i(1), of c] by simp
  qed
  have "takeWhile (\<lambda>c. c \<noteq> CHR 0x00) (drop (fst t) ?d) = take (snd t - fst t) (drop (fst t) ?d)"
  proof (rule takeWhile_eq_take_P_nth)
    fix i
    assume i: "i < snd t - fst t" "i < length (drop (fst t) ?d)"
    then have "drop (fst t) ?d ! i = b ! (fst t + i)" "fst t + i < length b" using keep by auto
    then show "drop (fst t) ?d ! i \<noteq> CHR 0x00" using z nth_mem by metis
  next
    assume "snd t - fst t < length (drop (fst t) ?d)"
    then show "\<not> drop (fst t) ?d ! (snd t - fst t) \<noteq> CHR 0x00"
      using nulterminate_nth [of "snd t" b c] t wt by auto
  qed
  also have "\<dots> = take (snd t - fst t) (drop (fst t) b)"
    using keep wt by (auto intro!: nth_equalityI)
  finally show ?thesis by (simp add: cstr_at_def word_at_def)
qed

lemma parsecmd_cases:
  obtains (error) e where "parsecmd b = Inl e" "e \<noteq> Fuel"
  | (ok) c s where "parsecmd b = Inr (c, nulterminate c b)" "good b c"
      "parseline (4 * length b + 4) b 0 = Inr (c, s)" "skip_ws b s = length b"
proof (cases "parseline (4 * length b + 4) b 0")
  case (Inl e)
  then show ?thesis using parser_total [of b] error by (simp add: parsecmd_def)
next
  case (Inr r)
  obtain c s where "r = (c, s)" by force
  then show ?thesis using parser_total [of b] Inr error ok
    by (cases "skip_ws b s = length b") (simp_all add: parsecmd_def peek_def Let_def)
qed

text \<open>
  C14: The shell's parser terminates on every line: the bound given to the recursive descent is always
  enough, so the line is parsed, refused with a syntax error, or refused for its unparsed rest.
\<close>

theorem sh_parser_terminates: "parsecmd b \<noteq> Inl Fuel"
  by (cases b rule: parsecmd_cases) auto

text \<open>
  C13: The strings of a parsed command. Every argument and every file name is a nonempty word of the line
  without white space or symbols; after \<^verbatim>\<open>nulterminate\<close> has written its terminators into the line, the
  C string at its start is exactly that word (no terminator cuts another string short); and no command
  has more than \<^verbatim>\<open>MAXARGS - 1\<close> arguments.
\<close>

theorem sh_strings_cut:
  assumes "parsecmd b = Inr (c, buf)" "CHR 0x00 \<notin> set b" "t \<in> set_cmd c"
  shows "cstr_at buf t = word_at b t \<and> word_at b t \<noteq> [] \<and> (\<forall>x\<in>set (word_at b t). wordchar x) \<and> args_ok c"
proof -
  from assms(1) have c: "good b c" "buf = nulterminate c b" by (cases b rule: parsecmd_cases; simp)+
  then have "word b t" "args_ok c" using assms(3) by (auto simp: good_def)
  moreover from this(1) have "word_at b t \<noteq> []" "\<forall>x\<in>set (word_at b t). wordchar x"
    by (auto simp: word_at_def word_def in_set_conv_nth)
  ultimately show ?thesis using cstr_at_nulterminate [OF c(1) assms(3,2)] c(2) by simp
qed

theorem sh_strings_cut_witness:
  "cstr_at (snd (projr (parsecmd ''cat <a|wc''))) (0, 3) = ''cat'' \<and> args_ok (fst (projr (parsecmd ''cat <a|wc'')))"
proof -
  let ?b = "''cat <a|wc''"
  let ?c = "Pipe (Redir (Exec [(0, 3)]) (5, 6) 0 0) (Exec [(7, 9)])"
  have p: "parsecmd ?b = Inr (?c, nulterminate ?c ?b)" by code_simp
  have "CHR 0x00 \<notin> set ?b" "(0, 3) \<in> set_cmd ?c" "word_at ?b (0, 3) = ''cat''" by (simp_all add: word_at_def)
  from sh_strings_cut [OF p this(1,2)] this(3) show ?thesis unfolding p by simp
qed

section \<open>Running a command never returns\<close>

text \<open>The runs that end the process or replace its program.\<close>

definition leaves :: "'w run \<Rightarrow> bool" where
  "leaves r \<longleftrightarrow> (\<forall>w. r \<noteq> Some (Inr (Go w)))"

lemma leaves_exit [simp]: "leaves (exit_with r)"
  by (cases r) (auto simp: leaves_def exit_with_def)

lemma leaves_panic [simp]: "leaves (sh_panic u s w)"
  by (simp add: sh_panic_def)

lemma leaves_andthen: "(\<And>w. leaves (f w)) \<Longrightarrow> leaves (andthen r f)"
  by (auto simp: leaves_def andthen_def split: option.splits sum.splits pret.splits)

lemma leaves_fork1: "(\<And>pid w. leaves (f pid w)) \<Longrightarrow> leaves (fork1 u w f)"
  by (auto simp: fork1_def split: prod.splits)

lemma leaves_Execed [simp]: "leaves (Some (Inr (Execed p a w)))"
  by (simp add: leaves_def)

lemmas leaves_rules = leaves_andthen leaves_fork1

text \<open>
  C15: \<^verbatim>\<open>runcmd\<close> never returns to its caller, as its comment says: whatever the system calls answer, on every
  branch of every command tree the process exits or is replaced by the program it executes. So neither
  the child that parses the line nor a child of a pipeline goes on with its parent's code.
\<close>

theorem runcmd_never_returns: "runcmd u buf c w \<noteq> Some (Inr (Go w'))"
proof -
  have "leaves (runcmd u buf c w)"
    by (cases c) (auto simp: Let_def split: list.splits prod.splits bool.splits intro!: leaves_rules)
  then show ?thesis by (simp add: leaves_def)
qed

end
