(* ===== verification/Grammar.thy ===== *)
theory Grammar
  imports Shell
begin

text \<open>
  The language of the shell: the tokens of a line, a context-free grammar over them, and the proof that
  the recursive descent parser of \<^verbatim>\<open>sh.c\<close> accepts exactly the lines of the grammar, with the grammar's tree.
\<close>

section \<open>The tokens of a line\<close>

datatype token = W string | S char

definition token :: "string \<Rightarrow> char \<Rightarrow> tok \<Rightarrow> token" where
  "token b k t = (if k = CHR ''a'' then W (word_at b t) else S k)"

lemma token_measure:
  assumes "(k, t, s') = gettoken b s" "k \<noteq> CHR 0x00"
  shows "length b - s' < length b - s"
  using gettoken_lt [OF assms(1) [symmetric] assms(2)] gettoken_progress [OF assms(1) [symmetric] assms(2)] by simp

function tokens :: "string \<Rightarrow> nat \<Rightarrow> token list" where
  "tokens b s = (case gettoken b s of (k, t, s') \<Rightarrow>
     if k = CHR 0x00 then [] else token b k t # tokens b s')"
  by pat_completeness auto

termination
  by (relation "measure (\<lambda>(b, s). length b - s)") (auto dest: token_measure)

declare tokens.simps [simp del]

lemma tokens_Cons: "gettoken b s = (k, t, s') \<Longrightarrow> k \<noteq> CHR 0x00 \<Longrightarrow> tokens b s = token b k t # tokens b s'"
  by (subst tokens.simps) simp

lemma tokens_Nil: "gettoken b s = (CHR 0x00, t, s') \<Longrightarrow> tokens b s = []"
  by (subst tokens.simps) simp

lemma gettoken_skip [simp]: "gettoken b (skip_ws b s) = gettoken b s"
  by (simp add: gettoken_def skip_ws_idem)

lemma tokens_skip [simp]: "tokens b (skip_ws b s) = tokens b s"
  by (subst (1 2) tokens.simps) simp

lemma gettoken_end:
  assumes "gettoken b s = (CHR 0x00, t, s')"
  shows "s' = skip_ws b s"
  using assms by (auto simp: gettoken_def Let_def skip_ws_idem split: if_splits)

text \<open>The character \<^verbatim>\<open>peek\<close> sees of a token.\<close>

definition front :: "char \<Rightarrow> char" where
  "front k = (if k = CHR ''+'' then CHR ''>'' else k)"

lemma peek_front:
  assumes g: "gettoken b s = (k, t, s')" and tk: "set tk \<subseteq> set symbols"
  shows "peek b s tk = (k \<noteq> CHR ''a'' \<and> front k \<in> set tk, skip_ws b s)"
proof -
  have "CHR 0x00 \<notin> set tk" "CHR ''a'' \<notin> set tk" using tk by (auto simp: symbols_def)
  moreover have "chr_at b (skip_ws b s) \<notin> set symbols" if "k = CHR ''a''"
    using g that by (auto simp: gettoken_def Let_def symbols_def split: if_splits)
  moreover have "front k = chr_at b (skip_ws b s)" if "k \<noteq> CHR ''a''"
    using g that by (auto simp: gettoken_def Let_def front_def split: if_splits)
  ultimately show ?thesis using tk by (cases "k = CHR ''a''") (auto simp: peek_def Let_def)
qed

text \<open>What \<^verbatim>\<open>peek\<close> and \<^verbatim>\<open>gettoken\<close> do, in terms of the tokens ahead.\<close>

definition ahead :: "token list \<Rightarrow> string \<Rightarrow> bool" where
  "ahead ts tk \<longleftrightarrow> (case ts of S k # _ \<Rightarrow> front k \<in> set tk | _ \<Rightarrow> False)"

lemma ahead_simps [simp]:
  "\<not> ahead [] tk" "\<not> ahead (W w # ts) tk" "ahead (S k # ts) tk \<longleftrightarrow> front k \<in> set tk"
  by (auto simp: ahead_def)

lemma peek_tokens:
  assumes "set tk \<subseteq> set symbols"
  shows "peek b s tk = (ahead (tokens b s) tk, skip_ws b s)"
proof (cases "gettoken b s")
  case (fields k t s')
  have "front (CHR 0x00) \<notin> set tk" using assms by (auto simp: front_def symbols_def)
  then show ?thesis using peek_front [OF fields assms] fields
    by (cases "k = CHR 0x00") (auto simp: tokens_Cons tokens_Nil token_def)
qed

lemma gettoken_tokens_S:
  assumes "tokens b s = S k # ts"
  obtains t s' where "gettoken b s = (k, t, s')" "tokens b s' = ts" "k \<noteq> CHR 0x00" "k \<noteq> CHR ''a''"
proof (cases "gettoken b s")
  case (fields k' t s')
  then show ?thesis using assms that
    by (cases "k' = CHR 0x00") (auto simp: tokens_Cons tokens_Nil token_def split: if_splits)
qed

lemma gettoken_tokens_W:
  assumes "tokens b s = W w # ts"
  obtains t s' where "gettoken b s = (CHR ''a'', t, s')" "tokens b s' = ts" "word_at b t = w"
proof (cases "gettoken b s")
  case (fields k' t s')
  then show ?thesis using assms that
    by (cases "k' = CHR 0x00") (auto simp: tokens_Cons tokens_Nil token_def split: if_splits)
qed

lemma length_tokens: "s \<le> length b \<Longrightarrow> length (tokens b s) \<le> length b - s"
proof (induction b s rule: tokens.induct)
  case (1 b s)
  obtain k q e s' where g: "gettoken b s = (k, (q, e), s')" by (metis prod.exhaust)
  show ?case
  proof (cases "k = CHR 0x00")
    case False
    have "s < s'" "s' \<le> length b" using gettoken_progress [OF g False] gettoken_bounds [OF g] 1(2) by auto
    then show ?thesis using 1(1) [OF g [symmetric] _ False] tokens_Cons [OF g False] by auto
  qed (use g tokens_Nil in simp)
qed

section \<open>The grammar\<close>

text \<open>A run of redirections, and a run of ampersands, applied to a command.\<close>

inductive redirs :: "token list \<Rightarrow> string cmd \<Rightarrow> string cmd \<Rightarrow> bool" where
  none: "redirs [] c c"
| inp: "redirs ts (Redir c f O_RDONLY 0) c' \<Longrightarrow> redirs (S (CHR ''<'') # W f # ts) c c'"
| outp: "redirs ts (Redir c f (O_WRONLY OR O_CREATE) 1) c' \<Longrightarrow> k = CHR ''>'' \<or> k = CHR ''+'' \<Longrightarrow>
    redirs (S k # W f # ts) c c'"

inductive backs :: "token list \<Rightarrow> string cmd \<Rightarrow> string cmd \<Rightarrow> bool" where
  none: "backs [] c c"
| amp: "backs ts (Back c) c' \<Longrightarrow> backs (S (CHR ''&'') # ts) c c'"

text \<open>Words, each followed by redirections, added to a command.\<close>

inductive args :: "token list \<Rightarrow> string cmd \<Rightarrow> string cmd \<Rightarrow> bool" where
  none: "args [] c c"
| arg: "redirs rs (add_arg w c) c1 \<Longrightarrow> args ts c1 c2 \<Longrightarrow> args (W w # rs @ ts) c c2"

text \<open>
  A simple command or a block in parentheses; pipelines, which associate to the right; pipelines in the
  background, and lists of them.
\<close>

inductive exec :: "token list \<Rightarrow> string cmd \<Rightarrow> bool"
  and pipe :: "token list \<Rightarrow> string cmd \<Rightarrow> bool"
  and line :: "token list \<Rightarrow> string cmd \<Rightarrow> bool" where
  simple: "redirs rs (Exec []) c \<Longrightarrow> args ts c c' \<Longrightarrow> exec (rs @ ts) c'"
| block: "line ts c \<Longrightarrow> redirs rs c c' \<Longrightarrow> exec (S (CHR ''('') # ts @ S (CHR '')'') # rs) c'"
| one: "exec ts c \<Longrightarrow> pipe ts c"
| pipe: "exec ts l \<Longrightarrow> pipe us r \<Longrightarrow> pipe (ts @ S (CHR ''|'') # us) (Pipe l r)"
| last_one: "pipe ts c \<Longrightarrow> backs bs c c' \<Longrightarrow> line (ts @ bs) c'"
| list: "pipe ts c \<Longrightarrow> backs bs c l \<Longrightarrow> line us r \<Longrightarrow> line (ts @ bs @ S (CHR '';'') # us) (List l r)"

section \<open>The parser is sound\<close>

abbreviation tree :: "string \<Rightarrow> tok cmd \<Rightarrow> string cmd" where
  "tree b \<equiv> map_cmd (word_at b)"

lemma tree_simps [simp]:
  "tree b (redircmd c f m d) = Redir (tree b c) (word_at b f) m d"
  "tree b (pipecmd c d') = Pipe (tree b c) (tree b d')"
  "tree b (listcmd c d') = List (tree b c) (tree b d')"
  "tree b (backcmd c) = Back (tree b c)"
  "tree b execcmd = Exec []"
  by (simp_all add: redircmd_def pipecmd_def listcmd_def backcmd_def execcmd_def)

lemma tree_add_arg: "map_cmd f (add_arg t c) = add_arg (f t) (map_cmd f c)"
  by (induction t c rule: add_arg.induct) auto

lemma peek_tks:
  "peek b s ''<>'' = (ahead (tokens b s) ''<>'', skip_ws b s)"
  "peek b s ''&'' = (ahead (tokens b s) ''&'', skip_ws b s)"
  "peek b s ''|)&;'' = (ahead (tokens b s) ''|)&;'', skip_ws b s)"
  "peek b s '';'' = (ahead (tokens b s) '';'', skip_ws b s)"
  "peek b s ''|'' = (ahead (tokens b s) ''|'', skip_ws b s)"
  "peek b s ''('' = (ahead (tokens b s) ''('', skip_ws b s)"
  "peek b s '')'' = (ahead (tokens b s) '')'', skip_ws b s)"
  by (rule peek_tokens, simp add: symbols_def)+

lemma tokens_front:
  assumes "ahead (tokens b s) tk"
  obtains k t s' where "gettoken b (skip_ws b s) = (k, t, s')" "tokens b s = S k # tokens b s'"
    "front k \<in> set tk"
proof -
  obtain k ts where "tokens b s = S k # ts" "front k \<in> set tk"
    using assms by (auto simp: ahead_def split: list.splits token.splits)
  then show ?thesis using that by (metis gettoken_tokens_S gettoken_skip)
qed

lemma parseredirs_tokens:
  "parseredirs c b s = Inr (c', s') \<Longrightarrow> \<exists>ts. tokens b s = ts @ tokens b s' \<and> redirs ts (tree b c) (tree b c')"
proof (induction "length b - s" arbitrary: c s rule: less_induct)
  case less
  have pk: "peek b s ''<>'' = (ahead (tokens b s) ''<>'', skip_ws b s)" by (rule peek_tks)
  show ?case
  proof (cases "ahead (tokens b s) ''<>''")
    case True
    then obtain k t s1 where g: "gettoken b (skip_ws b s) = (k, t, s1)" and ts: "tokens b s = S k # tokens b s1"
      and k: "k \<in> {CHR ''<'', CHR ''>'', CHR ''+''}" by (rule tokens_front) (auto simp: front_def split: if_splits)
    obtain k2 t2 s2 where h: "gettoken b s1 = (k2, t2, s2)" by (metis prod_cases3)
    define c1 where "c1 = (if k = CHR ''<'' then redircmd c t2 O_RDONLY 0 else redircmd c t2 (O_WRONLY OR O_CREATE) 1)"
    have a: "k2 = CHR ''a''" and r: "parseredirs c1 b s2 = Inr (c', s')"
      using less(2) True pk g h k unfolding c1_def by (auto simp: parseredirs.simps [of c b s] split: if_splits)
    have "length b - s2 < length b - s" using redir_measure pk True g h a by metis
    from less(1) [OF this r] obtain us where us: "tokens b s2 = us @ tokens b s'" "redirs us (tree b c1) (tree b c')"
      by auto
    have "tokens b s = (S k # W (word_at b t2) # us) @ tokens b s'"
      using ts us(1) tokens_Cons [OF h] a by (simp add: token_def)
    moreover have "redirs (S k # W (word_at b t2) # us) (tree b c) (tree b c')"
      using us(2) k unfolding c1_def by (auto intro: redirs.intros split: if_splits)
    ultimately show ?thesis by blast
  next
    case False
    then have "c' = c" "s' = skip_ws b s" using less(2) pk by (auto simp: parseredirs.simps [of c b s])
    then show ?thesis using redirs.none by simp
  qed
qed

lemma parseback_tokens:
  "parseback c b s = (c', s') \<Longrightarrow> \<exists>ts. tokens b s = ts @ tokens b s' \<and> backs ts (tree b c) (tree b c')"
proof (induction "length b - s" arbitrary: c s rule: less_induct)
  case less
  have pk: "peek b s ''&'' = (ahead (tokens b s) ''&'', skip_ws b s)" by (rule peek_tks)
  show ?case
  proof (cases "ahead (tokens b s) ''&''")
    case True
    then obtain k t s1 where g: "gettoken b (skip_ws b s) = (k, t, s1)" and ts: "tokens b s = S k # tokens b s1"
      and k: "k = CHR ''&''" by (rule tokens_front) (auto simp: front_def split: if_splits)
    have r: "parseback (backcmd c) b s1 = (c', s')" using less(2) True pk g by (auto simp: parseback.simps [of c b s])
    have "length b - s1 < length b - s" using back_measure pk True g by metis
    from less(1) [OF this r] obtain us where "tokens b s1 = us @ tokens b s'" "backs us (Back (tree b c)) (tree b c')"
      by auto
    then show ?thesis using ts k backs.amp by (metis append_Cons)
  next
    case False
    then have "c' = c" "s' = skip_ws b s" using less(2) pk by (auto simp: parseback.simps [of c b s])
    then show ?thesis using backs.none by simp
  qed
qed

lemma parseargs_tokens:
  "parseargs n c b s = Inr (c', s') \<Longrightarrow> \<exists>ts. tokens b s = ts @ tokens b s' \<and> args ts (tree b c) (tree b c')"
proof (induction "MAXARGS - n" arbitrary: n c s rule: less_induct)
  case less
  have pk: "peek b s ''|)&;'' = (ahead (tokens b s) ''|)&;'', skip_ws b s)" by (rule peek_tks)
  obtain k t s1 where g: "gettoken b s = (k, t, s1)" by (metis prod_cases3)
  consider (stop) "ahead (tokens b s) ''|)&;''" | (eof) "\<not> ahead (tokens b s) ''|)&;''" "k = CHR 0x00"
    | (word) "\<not> ahead (tokens b s) ''|)&;''" "k \<noteq> CHR 0x00" by blast
  then show ?case
  proof cases
    case stop
    then have "c' = c" "s' = skip_ws b s" using less(2) pk by (auto simp: parseargs.simps [of n c b s])
    then show ?thesis using args.none by simp
  next
    case eof
    then have "c' = c" "s' = s1" using less(2) pk g by (auto simp: parseargs.simps [of n c b s])
    moreover have "tokens b s1 = tokens b s" using gettoken_end [of b s t s1] g eof(2) by simp
    ultimately show ?thesis using args.none by simp
  next
    case word
    then obtain c1 s2 where a: "k = CHR ''a''" "n + 1 < MAXARGS" and r: "parseredirs (add_arg t c) b s1 = Inr (c1, s2)"
      and r2: "parseargs (n + 1) c1 b s2 = Inr (c', s')"
      using less(2) pk g by (auto simp: parseargs.simps [of n c b s] split: if_splits sum.splits)
    from parseredirs_tokens [OF r] obtain rs where rs: "tokens b s1 = rs @ tokens b s2"
      "redirs rs (add_arg (word_at b t) (tree b c)) (tree b c1)" by (auto simp: tree_add_arg)
    have "MAXARGS - (n + 1) < MAXARGS - n" using a(2) by simp
    from less(1) [OF this r2] obtain us where us: "tokens b s2 = us @ tokens b s'" "args us (tree b c1) (tree b c')"
      by auto
    have "tokens b s = (W (word_at b t) # rs @ us) @ tokens b s'"
      using tokens_Cons [OF g word(2)] a(1) rs(1) us(1) by (simp add: token_def)
    then show ?thesis using args.arg [OF rs(2) us(2)] by blast
  qed
qed

text \<open>A symbol ahead, taken: the pattern of the descent.\<close>

lemma take_symbol:
  assumes "ahead (tokens b s) [k]" "gettoken b s = (k', t, s')" "k \<noteq> CHR ''>''"
  shows "tokens b s = S k # tokens b s'"
  using assms(1)
proof (rule tokens_front)
  fix k1 t1 s1
  assume "gettoken b (skip_ws b s) = (k1, t1, s1)" "tokens b s = S k1 # tokens b s1" "front k1 \<in> set [k]"
  then show ?thesis using assms(2,3) by (auto simp: front_def split: if_splits)
qed

definition derives :: "(token list \<Rightarrow> string cmd \<Rightarrow> bool) \<Rightarrow> string \<Rightarrow> nat \<Rightarrow> (tok cmd \<times> nat) parse \<Rightarrow> bool" where
  "derives G b s r \<longleftrightarrow> (\<forall>c s'. r = Inr (c, s') \<longrightarrow> (\<exists>ts. tokens b s = ts @ tokens b s' \<and> G ts (tree b c)))"

lemma derivesD:
  assumes "derives G b s r" "r = Inr (c, s')"
  obtains ts where "tokens b s = ts @ tokens b s'" "G ts (tree b c)"
  using assms unfolding derives_def by blast

lemma parseline_derives:
  assumes p: "\<And>s. derives pipe b s (parsepipe n b s)" and l: "\<And>s. derives line b s (parseline n b s)"
  shows "derives line b s (parseline (Suc n) b s)"
  unfolding derives_def
proof (intro allI impI)
  fix c s'
  assume r: "parseline (Suc n) b s = Inr (c, s')"
  obtain c0 s0 where 0: "parsepipe n b s = Inr (c0, s0)" using r by (cases "parsepipe n b s") auto
  obtain c1 s1 where 1: "parseback c0 b s0 = (c1, s1)" by force
  from derivesD [OF p 0] obtain ts where ts: "tokens b s = ts @ tokens b s0" "pipe ts (tree b c0)" .
  from parseback_tokens [OF 1] obtain bs where bs: "tokens b s0 = bs @ tokens b s1" "backs bs (tree b c0) (tree b c1)"
    by blast
  show "\<exists>ts. tokens b s = ts @ tokens b s' \<and> line ts (tree b c)"
  proof (cases "ahead (tokens b s1) '';''")
    case True
    obtain k t s2 where g: "gettoken b s1 = (k, t, s2)" by (metis prod_cases3)
    obtain d where 2: "parseline n b s2 = Inr (d, s')" and c: "c = listcmd c1 d"
      using r 0 1 True g by (cases "parseline n b s2") (auto simp: peek_tks)
    from derivesD [OF l 2] obtain us where us: "tokens b s2 = us @ tokens b s'" "line us (tree b d)" .
    have "tokens b s = (ts @ bs @ S (CHR '';'') # us) @ tokens b s'"
      using ts(1) bs(1) us(1) take_symbol [OF True g] by simp
    then show ?thesis using list [OF ts(2) bs(2) us(2)] c by auto
  next
    case False
    then have "c = c1" "s' = skip_ws b s1" using r 0 1 by (auto simp: peek_tks)
    then show ?thesis using ts bs last_one [OF ts(2) bs(2)] by auto
  qed
qed

lemma parsepipe_derives:
  assumes e: "\<And>s. derives exec b s (parseexec n b s)" and p: "\<And>s. derives pipe b s (parsepipe n b s)"
  shows "derives pipe b s (parsepipe (Suc n) b s)"
  unfolding derives_def
proof (intro allI impI)
  fix c s'
  assume r: "parsepipe (Suc n) b s = Inr (c, s')"
  obtain c1 s1 where 1: "parseexec n b s = Inr (c1, s1)" using r by (cases "parseexec n b s") auto
  from derivesD [OF e 1] obtain ts where ts: "tokens b s = ts @ tokens b s1" "exec ts (tree b c1)" .
  show "\<exists>ts. tokens b s = ts @ tokens b s' \<and> pipe ts (tree b c)"
  proof (cases "ahead (tokens b s1) ''|''")
    case True
    obtain k t s2 where g: "gettoken b s1 = (k, t, s2)" by (metis prod_cases3)
    obtain d where 2: "parsepipe n b s2 = Inr (d, s')" and c: "c = pipecmd c1 d"
      using r 1 True g by (cases "parsepipe n b s2") (auto simp: peek_tks)
    from derivesD [OF p 2] obtain us where us: "tokens b s2 = us @ tokens b s'" "pipe us (tree b d)" .
    have "tokens b s = (ts @ S (CHR ''|'') # us) @ tokens b s'" using ts(1) us(1) take_symbol [OF True g] by simp
    then show ?thesis using exec_pipe_line.pipe [OF ts(2) us(2)] c by auto
  next
    case False
    then have "c = c1" "s' = skip_ws b s1" using r 1 by (auto simp: peek_tks)
    then show ?thesis using ts one [OF ts(2)] by auto
  qed
qed

lemma parseblock_derives:
  assumes l: "\<And>s. derives line b s (parseline n b s)"
  shows "derives exec b s (parseblock (Suc n) b s)"
  unfolding derives_def
proof (intro allI impI)
  fix c s'
  assume r: "parseblock (Suc n) b s = Inr (c, s')"
  obtain k t s1 where g: "gettoken b s = (k, t, s1)" by (metis prod_cases3)
  have a: "ahead (tokens b s) ''(''" using r by (auto simp: peek_tks split: bool.splits)
  obtain c2 s2 where 2: "parseline n b s1 = Inr (c2, s2)" using r a g by (cases "parseline n b s1") (auto simp: peek_tks)
  obtain k' t' s3 where h: "gettoken b s2 = (k', t', s3)" by (metis prod_cases3)
  have a2: "ahead (tokens b s2) '')''" and 3: "parseredirs c2 b s3 = Inr (c, s')"
    using r a g 2 h by (auto simp: peek_tks split: bool.splits)
  from derivesD [OF l 2] obtain ts where ts: "tokens b s1 = ts @ tokens b s2" "line ts (tree b c2)" .
  from parseredirs_tokens [OF 3] obtain rs where rs: "tokens b s3 = rs @ tokens b s'" "redirs rs (tree b c2) (tree b c)"
    by blast
  have "tokens b s = (S (CHR ''('') # ts @ S (CHR '')'') # rs) @ tokens b s'"
    using take_symbol [OF a g] ts(1) take_symbol [OF a2 h] rs(1) by simp
  then show "\<exists>ts. tokens b s = ts @ tokens b s' \<and> exec ts (tree b c)" using block [OF ts(2) rs(2)] by blast
qed

lemma parseexec_derives:
  assumes k: "\<And>s. derives exec b s (parseblock n b s)"
  shows "derives exec b s (parseexec (Suc n) b s)"
  unfolding derives_def
proof (intro allI impI)
  fix c s'
  assume r: "parseexec (Suc n) b s = Inr (c, s')"
  show "\<exists>ts. tokens b s = ts @ tokens b s' \<and> exec ts (tree b c)"
  proof (cases "ahead (tokens b s) ''(''")
    case True
    then have "parseblock n b (skip_ws b s) = Inr (c, s')" using r by (simp add: peek_tks)
    from derivesD [OF k this] show ?thesis by (metis tokens_skip)
  next
    case False
    then obtain c1 s1 where 1: "parseredirs execcmd b (skip_ws b s) = Inr (c1, s1)"
      and 2: "parseargs 0 c1 b s1 = Inr (c, s')"
      using r by (cases "parseredirs execcmd b (skip_ws b s)") (auto simp: peek_tks)
    from parseredirs_tokens [OF 1] parseargs_tokens [OF 2] show ?thesis using simple
      by (metis append_assoc tokens_skip tree_simps(5))
  qed
qed

lemma descent_derives:
  "derives line b s (parseline n b s) \<and> derives pipe b s (parsepipe n b s) \<and>
   derives exec b s (parseexec n b s) \<and> derives exec b s (parseblock n b s)"
proof (induction n arbitrary: s)
  case 0
  show ?case by (simp add: derives_def)
next
  case (Suc n)
  then show ?case
    using parseline_derives parsepipe_derives parseexec_derives parseblock_derives by blast
qed

section \<open>The parser is complete\<close>

lemma tokens_NilD:
  assumes "tokens b s = []"
  obtains t where "gettoken b s = (CHR 0x00, t, skip_ws b s)"
proof (cases "gettoken b s")
  case (fields k t s')
  then have "k = CHR 0x00" using assms tokens_Cons by (cases "k = CHR 0x00") auto
  then show ?thesis using fields gettoken_end that by auto
qed

definition follows :: "string \<Rightarrow> token list \<Rightarrow> bool" where
  "follows fol rest \<longleftrightarrow> rest = [] \<or> ahead rest fol"

lemma follows_not_ahead: "follows fol rest \<Longrightarrow> set fol \<inter> set tk = {} \<Longrightarrow> \<not> ahead rest tk"
  by (auto simp: follows_def ahead_def split: list.splits token.splits)

lemma follows_mono: "follows fol rest \<Longrightarrow> set fol \<subseteq> set fol' \<Longrightarrow> follows fol' rest"
  by (auto simp: follows_def ahead_def split: list.splits token.splits)

lemma parseredirs_complete:
  "redirs ts c0 c1 \<Longrightarrow> tokens b s = ts @ rest \<Longrightarrow> \<not> ahead rest ''<>'' \<Longrightarrow> tree b c = c0 \<Longrightarrow>
   \<exists>c' s'. parseredirs c b s = Inr (c', s') \<and> tree b c' = c1 \<and> tokens b s' = rest"
proof (induction arbitrary: c s rule: redirs.induct)
  case (none c0)
  then show ?case by (simp add: parseredirs.simps [of c b s] peek_tks)
next
  case (inp ts c0 f c1)
  from inp(3) obtain t s1 where g: "gettoken b s = (CHR ''<'', t, s1)" "tokens b s1 = W f # ts @ rest"
    by (auto elim: gettoken_tokens_S)
  from g(2) obtain q s2 where h: "gettoken b s1 = (CHR ''a'', q, s2)" "tokens b s2 = ts @ rest" "word_at b q = f"
    by (rule gettoken_tokens_W)
  show ?case
    using inp(2) [OF h(2) inp(4), of "redircmd c q O_RDONLY 0"] inp(3,5) g h
    by (simp add: parseredirs.simps [of c b s] peek_tks front_def)
next
  case (outp ts c0 f c1 k)
  from outp(4) obtain t s1 where g: "gettoken b s = (k, t, s1)" "tokens b s1 = W f # ts @ rest"
    by (auto elim: gettoken_tokens_S)
  from g(2) obtain q s2 where h: "gettoken b s1 = (CHR ''a'', q, s2)" "tokens b s2 = ts @ rest" "word_at b q = f"
    by (rule gettoken_tokens_W)
  show ?case
    using outp(3) [OF h(2) outp(5), of "redircmd c q (O_WRONLY OR O_CREATE) 1"] outp(2,4,6) g h
    by (auto simp: parseredirs.simps [of c b s] peek_tks front_def)
qed

lemma parseback_complete:
  "backs ts c0 c1 \<Longrightarrow> tokens b s = ts @ rest \<Longrightarrow> \<not> ahead rest ''&'' \<Longrightarrow> tree b c = c0 \<Longrightarrow>
   \<exists>c' s'. parseback c b s = (c', s') \<and> tree b c' = c1 \<and> tokens b s' = rest"
proof (induction arbitrary: c s rule: backs.induct)
  case (none c0)
  then show ?case by (simp add: parseback.simps [of c b s] peek_tks)
next
  case (amp ts c0 c1)
  from amp(3) obtain t s1 where g: "gettoken b s = (CHR ''&'', t, s1)" "tokens b s1 = ts @ rest"
    by (auto elim: gettoken_tokens_S)
  show ?case using amp(2) [OF g(2) amp(4), of "backcmd c"] amp(3,5) g
    by (simp add: parseback.simps [of c b s] peek_tks front_def)
qed

lemma redirs_keeps: "redirs ts c c' \<Longrightarrow> (simple c xs \<longrightarrow> simple c' xs) \<and> args_ok c' = args_ok c"
  by (induction rule: redirs.induct) auto

lemma args_extends: "args ts c c' \<Longrightarrow> simple c xs \<Longrightarrow> \<exists>ys. simple c' (xs @ ys)"
proof (induction arbitrary: xs rule: args.induct)
  case (none c)
  then show ?case by (intro exI [of _ "[]"]) simp
next
  case (arg rs w c c1 ts c2)
  have "simple c1 (xs @ [w])" using redirs_keeps [OF arg(1)] simple_add_arg [OF arg(4)] by blast
  from arg(3) [OF this] show ?case by auto
qed

lemma simple_args_ok: "simple c xs \<Longrightarrow> args_ok c \<longleftrightarrow> length xs < MAXARGS"
  by (induction c xs rule: simple.induct) auto

lemma args_no_redir: "args ts c c' \<Longrightarrow> follows ''|)&;'' rest \<Longrightarrow> \<not> ahead (ts @ rest) ''<>''"
  by (erule args.cases) (auto dest: follows_not_ahead [where tk = "''<>''"])

lemma parseargs_complete:
  "args ts c0 c1 \<Longrightarrow> tokens b s = ts @ rest \<Longrightarrow> follows ''|)&;'' rest \<Longrightarrow> tree b c = c0 \<Longrightarrow>
   simple c0 xs \<Longrightarrow> length xs = n \<Longrightarrow> args_ok c1 \<Longrightarrow>
   \<exists>c' s'. parseargs n c b s = Inr (c', s') \<and> tree b c' = c1 \<and> tokens b s' = rest"
proof (induction arbitrary: c s xs n rule: args.induct)
  case (none c0)
  show ?case
  proof (cases "ahead rest ''|)&;''")
    case True
    then show ?thesis using none by (simp add: parseargs.simps [of n c b s] peek_tks)
  next
    case False
    then have r: "tokens b s = []" "rest = []" using none by (auto simp: follows_def)
    obtain t where "gettoken b s = (CHR 0x00, t, skip_ws b s)" using r(1) by (rule tokens_NilD)
    then show ?thesis using none r by (simp add: parseargs.simps [of n c b s] peek_tks)
  qed
next
  case (arg rs w c0 c1 ts c2)
  have tk: "tokens b s = W w # rs @ ts @ rest" using arg(4) by simp
  from tk obtain q s1 where g: "gettoken b s = (CHR ''a'', q, s1)" "tokens b s1 = rs @ ts @ rest" "word_at b q = w"
    by (rule gettoken_tokens_W)
  have "tree b (add_arg q c) = add_arg w c0" using g(3) arg(6) by (simp add: tree_add_arg)
  from parseredirs_complete [OF arg(1) g(2) args_no_redir [OF arg(2,5)] this]
  obtain d s2 where d: "parseredirs (add_arg q c) b s1 = Inr (d, s2)" "tree b d = c1" "tokens b s2 = ts @ rest" by blast
  have x: "simple c1 (xs @ [w])" using redirs_keeps [OF arg(1)] simple_add_arg [OF arg(7)] by blast
  then have "n + 1 < MAXARGS" using args_extends [OF arg(2) x] simple_args_ok arg(8,9) by fastforce
  then show ?case using arg(3) [OF d(3) arg(5) d(2) x _ arg(9), of "n + 1"] d g(1) tk arg(8)
    by (simp add: parseargs.simps [of n c b s] peek_tks)
qed

definition completes where
  "completes b p k fol ts c \<longleftrightarrow> (\<forall>s n rest. tokens b s = ts @ rest \<longrightarrow> follows fol rest \<longrightarrow> args_ok c \<longrightarrow>
     4 * length (tokens b s) + k \<le> n \<longrightarrow>
     (\<exists>c' s'. p n b s = (Inr (c', s') :: (tok cmd \<times> nat) parse) \<and> tree b c' = c \<and> tokens b s' = rest))"

lemma completesD:
  assumes "completes b p k fol ts c" "tokens b s = ts @ rest" "follows fol rest" "args_ok c"
    "4 * length (tokens b s) + k \<le> n"
  obtains c' s' where "p n b s = Inr (c', s')" "tree b c' = c" "tokens b s' = rest"
  using assms unfolding completes_def by blast

lemma complete_simple:
  assumes "redirs rs (Exec []) c" "args ts c c1"
  shows "completes b parseexec 2 ''|)&;'' (rs @ ts) c1"
  unfolding completes_def
proof (intro allI impI)
  fix s n rest
  assume a: "tokens b s = (rs @ ts) @ rest" "follows ''|)&;'' rest" "args_ok c1" "4 * length (tokens b s) + 2 \<le> n"
  then obtain m where n: "n = Suc m" by (cases n) auto
  have "\<not> ahead ((rs @ ts) @ rest) ''(''"
    using assms a(2) follows_not_ahead [OF a(2), of "''(''"]
    by (auto elim!: redirs.cases [of rs] args.cases [of ts] simp: front_def)
  then have np: "\<not> ahead (tokens b s) ''(''" using a(1) by simp
  have "tokens b (skip_ws b s) = rs @ ts @ rest" using a(1) by simp
  from parseredirs_complete [OF assms(1) this args_no_redir [OF assms(2) a(2)] tree_simps(5)]
  obtain d s1 where d: "parseredirs execcmd b (skip_ws b s) = Inr (d, s1)" "tree b d = c" "tokens b s1 = ts @ rest"
    by blast
  have "simple c []" using redirs_keeps [OF assms(1), of "[]"] by simp
  from parseargs_complete [OF assms(2) d(3) a(2) d(2) this _ a(3)] d(1) np
  show "\<exists>c' s'. parseexec n b s = Inr (c', s') \<and> tree b c' = c1 \<and> tokens b s' = rest"
    by (simp add: n peek_tks)
qed

lemma complete_block:
  assumes "completes b parseline 4 '')'' ts c" "redirs rs c c1"
  shows "completes b parseexec 2 ''|)&;'' (S (CHR ''('') # ts @ S (CHR '')'') # rs) c1"
  unfolding completes_def
proof (intro allI impI)
  fix s n rest
  assume a: "tokens b s = (S (CHR ''('') # ts @ S (CHR '')'') # rs) @ rest" "follows ''|)&;'' rest" "args_ok c1"
    "4 * length (tokens b s) + 2 \<le> n"
  obtain m where n: "n = Suc (Suc m)" using that [of "n - 2"] a(4) by simp
  have "tokens b s = S (CHR ''('') # ts @ S (CHR '')'') # rs @ rest" using a(1) by simp
  then obtain t s1 where g: "gettoken b s = (CHR ''('', t, s1)" "tokens b s1 = ts @ S (CHR '')'') # rs @ rest"
    by (rule gettoken_tokens_S)
  have ok: "args_ok c" using redirs_keeps [OF assms(2)] a(3) by simp
  have "follows '')'' (S (CHR '')'') # rs @ rest)" by (simp add: follows_def front_def)
  moreover have "4 * length (tokens b s1) + 4 \<le> m" using a(1,4) g(2) n by simp
  ultimately obtain d s2 where d: "parseline m b s1 = Inr (d, s2)" "tree b d = c"
      "tokens b s2 = S (CHR '')'') # rs @ rest"
    using completesD [OF assms(1) g(2) _ ok] by metis
  from d(3) obtain t' s3 where h: "gettoken b s2 = (CHR '')'', t', s3)" "tokens b s3 = rs @ rest"
    by (rule gettoken_tokens_S)
  have "\<not> ahead rest ''<>''" using a(2) by (rule follows_not_ahead) simp
  from parseredirs_complete [OF assms(2) h(2) this d(2)] d h g a(1)
  show "\<exists>c' s'. parseexec n b s = Inr (c', s') \<and> tree b c' = c1 \<and> tokens b s' = rest"
    by (simp add: n peek_tks front_def)
qed

lemma complete_one:
  assumes "completes b parseexec 2 ''|)&;'' ts c"
  shows "completes b parsepipe 3 ''&;)'' ts c"
  unfolding completes_def
proof (intro allI impI)
  fix s n rest
  assume a: "tokens b s = ts @ rest" "follows ''&;)'' rest" "args_ok c" "4 * length (tokens b s) + 3 \<le> n"
  then obtain m where n: "n = Suc m" "4 * length (tokens b s) + 2 \<le> m" by (cases n) auto
  have "follows ''|)&;'' rest" using a(2) by (rule follows_mono) auto
  from completesD [OF assms a(1) this a(3) n(2)] obtain d s1
    where d: "parseexec m b s = Inr (d, s1)" "tree b d = c" "tokens b s1 = rest" .
  have "\<not> ahead rest ''|''" using a(2) by (rule follows_not_ahead) simp
  then show "\<exists>c' s'. parsepipe n b s = Inr (c', s') \<and> tree b c' = c \<and> tokens b s' = rest"
    using d n by (simp add: peek_tks)
qed

lemma complete_pipe:
  assumes "completes b parseexec 2 ''|)&;'' ts l" "completes b parsepipe 3 ''&;)'' us r"
  shows "completes b parsepipe 3 ''&;)'' (ts @ S (CHR ''|'') # us) (Pipe l r)"
  unfolding completes_def
proof (intro allI impI)
  fix s n rest
  assume a: "tokens b s = (ts @ S (CHR ''|'') # us) @ rest" "follows ''&;)'' rest" "args_ok (Pipe l r)"
    "4 * length (tokens b s) + 3 \<le> n"
  then obtain m where n: "n = Suc m" "4 * length (tokens b s) + 2 \<le> m" by (cases n) auto
  have 1: "tokens b s = ts @ S (CHR ''|'') # us @ rest" "args_ok l" "args_ok r" using a by simp_all
  have "follows ''|)&;'' (S (CHR ''|'') # us @ rest)" by (simp add: follows_def front_def)
  from completesD [OF assms(1) 1(1) this 1(2) n(2)] obtain d s1
    where d: "parseexec m b s = Inr (d, s1)" "tree b d = l" "tokens b s1 = S (CHR ''|'') # us @ rest" .
  from d(3) obtain t s2 where g: "gettoken b s1 = (CHR ''|'', t, s2)" "tokens b s2 = us @ rest"
    by (rule gettoken_tokens_S)
  have "4 * length (tokens b s2) + 3 \<le> m" using n(2) a(1) g(2) by simp
  from completesD [OF assms(2) g(2) a(2) 1(3) this] obtain e s3
    where e: "parsepipe m b s2 = Inr (e, s3)" "tree b e = r" "tokens b s3 = rest" .
  show "\<exists>c' s'. parsepipe n b s = Inr (c', s') \<and> tree b c' = Pipe l r \<and> tokens b s' = rest"
    using d g e n by (simp add: peek_tks front_def)
qed

lemma backs_keeps: "backs ts c c' \<Longrightarrow> args_ok c' = args_ok c"
  by (induction rule: backs.induct) auto

lemma backs_follows: "backs ts c c' \<Longrightarrow> follows '';)'' rest \<Longrightarrow> follows ''&;)'' (ts @ rest)"
  by (erule backs.cases) (auto simp: front_def follows_def ahead_def split: list.splits token.splits)

lemma complete_backs:
  assumes "completes b parsepipe 3 ''&;)'' ts c" "backs bs c c1" "tokens b s = ts @ bs @ rest" "follows '';)'' rest"
    "args_ok c1" "4 * length (tokens b s) + 4 \<le> Suc m"
  obtains d s1 e s2 where "parsepipe m b s = Inr (d, s1)" "parseback d b s1 = (e, s2)" "tree b e = c1" "tokens b s2 = rest"
proof -
  have "args_ok c" "4 * length (tokens b s) + 3 \<le> m" using assms(2,5,6) backs_keeps by simp_all
  from completesD [OF assms(1,3) backs_follows [OF assms(2,4)] this] obtain d s1
    where d: "parsepipe m b s = Inr (d, s1)" "tree b d = c" "tokens b s1 = bs @ rest" .
  have "\<not> ahead rest ''&''" using assms(4) by (rule follows_not_ahead) simp
  from parseback_complete [OF assms(2) d(3) this d(2)] show thesis using that d(1) by blast
qed

lemma complete_last_one:
  assumes "completes b parsepipe 3 ''&;)'' ts c" "backs bs c c1"
  shows "completes b parseline 4 '')'' (ts @ bs) c1"
  unfolding completes_def
proof (intro allI impI)
  fix s n rest
  assume a: "tokens b s = (ts @ bs) @ rest" "follows '')'' rest" "args_ok c1" "4 * length (tokens b s) + 4 \<le> n"
  then obtain m where n: "n = Suc m" "4 * length (tokens b s) + 4 \<le> Suc m" by (cases n) auto
  have 1: "tokens b s = ts @ bs @ rest" "follows '';)'' rest" using a(1) follows_mono [OF a(2)] by auto
  from complete_backs [OF assms 1 a(3) n(2)] obtain d s1 e s2
    where d: "parsepipe m b s = Inr (d, s1)" "parseback d b s1 = (e, s2)" "tree b e = c1" "tokens b s2 = rest" .
  have "\<not> ahead rest '';''" using a(2) by (rule follows_not_ahead) simp
  then show "\<exists>c' s'. parseline n b s = Inr (c', s') \<and> tree b c' = c1 \<and> tokens b s' = rest"
    using d n by (simp add: peek_tks)
qed

lemma complete_list:
  assumes "completes b parsepipe 3 ''&;)'' ts c" "backs bs c l" "completes b parseline 4 '')'' us r"
  shows "completes b parseline 4 '')'' (ts @ bs @ S (CHR '';'') # us) (List l r)"
  unfolding completes_def
proof (intro allI impI)
  fix s n rest
  assume a: "tokens b s = (ts @ bs @ S (CHR '';'') # us) @ rest" "follows '')'' rest" "args_ok (List l r)"
    "4 * length (tokens b s) + 4 \<le> n"
  then obtain m where n: "n = Suc m" "4 * length (tokens b s) + 4 \<le> Suc m" by (cases n) auto
  have 1: "tokens b s = ts @ bs @ S (CHR '';'') # us @ rest" "follows '';)'' (S (CHR '';'') # us @ rest)"
      "args_ok l" "args_ok r"
    using a by (simp_all add: follows_def front_def)
  from complete_backs [OF assms(1,2) 1(1,2,3) n(2)] obtain d s1 e s2
    where d: "parsepipe m b s = Inr (d, s1)" "parseback d b s1 = (e, s2)" "tree b e = l"
      "tokens b s2 = S (CHR '';'') # us @ rest" .
  from d(4) obtain t s3 where g: "gettoken b s2 = (CHR '';'', t, s3)" "tokens b s3 = us @ rest"
    by (rule gettoken_tokens_S)
  have "4 * length (tokens b s3) + 4 \<le> m" using n(2) a(1) g(2) by simp
  from completesD [OF assms(3) g(2) a(2) 1(4) this] obtain f s4
    where f: "parseline m b s3 = Inr (f, s4)" "tree b f = r" "tokens b s4 = rest" .
  show "\<exists>c' s'. parseline n b s = Inr (c', s') \<and> tree b c' = List l r \<and> tokens b s' = rest"
    using d g f n by (simp add: peek_tks front_def)
qed

lemma grammar_complete:
  "exec ts c \<Longrightarrow> completes b parseexec 2 ''|)&;'' ts c"
  "pipe ts c \<Longrightarrow> completes b parsepipe 3 ''&;)'' ts c"
  "line ts c \<Longrightarrow> completes b parseline 4 '')'' ts c"
  by (induction rule: exec_pipe_line.inducts)
    (blast intro: complete_simple complete_block complete_one complete_pipe complete_last_one complete_list)+

section \<open>The language of the shell\<close>

lemma args_ok_map [simp]: "args_ok (map_cmd f c) = args_ok c"
  by (induction c) auto

lemma tree_cut:
  assumes "good b c" "CHR 0x00 \<notin> set b"
  shows "map_cmd (cstr_at (nulterminate c b)) c = tree b c"
  using cstr_at_nulterminate [OF assms(1) _ assms(2)] by (rule cmd.map_cong0)

lemma tokens_end:
  assumes "CHR 0x00 \<notin> set b"
  shows "tokens b s = [] \<longleftrightarrow> length b \<le> skip_ws b s"
proof (cases "gettoken b s")
  case (fields k t s')
  show ?thesis using gettoken_eof [OF fields assms] fields
    by (cases "k = CHR 0x00") (auto simp: tokens_Nil tokens_Cons)
qed

text \<open>
  C7: The shell accepts exactly its grammar. For a line without NUL characters, \<^verbatim>\<open>parsecmd\<close> returns a command
  tree whose strings, read from the cut line, form the tree \<open>t\<close> if and only if the grammar derives \<open>t\<close> from
  all the tokens of the line and no command of \<open>t\<close> has \<^verbatim>\<open>MAXARGS\<close> or more arguments. The grammar fixes the
  precedence of \<^verbatim>\<open>|\<close> over \<^verbatim>\<open>&\<close> over \<^verbatim>\<open>;\<close>, the association to the right, parentheses, and redirections anywhere among
  the words of a command. So no such line is refused, none is misread, and a line outside the grammar is
  always reported as an error.
\<close>

theorem sh_parses_grammar:
  assumes z: "CHR 0x00 \<notin> set b"
  shows "(\<exists>c buf. parsecmd b = Inr (c, buf) \<and> map_cmd (cstr_at buf) c = t) \<longleftrightarrow> line (tokens b 0) t \<and> args_ok t"
proof
  assume "\<exists>c buf. parsecmd b = Inr (c, buf) \<and> map_cmd (cstr_at buf) c = t"
  then obtain c buf where c: "parsecmd b = Inr (c, buf)" "map_cmd (cstr_at buf) c = t" by blast
  from c(1) obtain s where s: "good b c" "parseline (4 * length b + 4) b 0 = Inr (c, s)" "skip_ws b s = length b"
    "buf = nulterminate c b" by (cases b rule: parsecmd_cases) auto
  have t: "t = tree b c" using tree_cut [OF s(1) z] c(2) s(4) by simp
  have "tokens b s = []" using tokens_end [OF z] s(3) by simp
  then have "line (tokens b 0) t" using derivesD [OF _ s(2)] descent_derives t by (metis append_Nil2)
  then show "line (tokens b 0) t \<and> args_ok t" using s(1) t by (simp add: good_def)
next
  assume a: "line (tokens b 0) t \<and> args_ok t"
  have "4 * length (tokens b 0) + 4 \<le> 4 * length b + 4" using length_tokens [of 0 b] by simp
  from completesD [OF grammar_complete(3) [OF conjunct1 [OF a]] _ _ conjunct2 [OF a] this, of "[]"]
  obtain c s where c: "parseline (4 * length b + 4) b 0 = Inr (c, s)" "tree b c = t" "tokens b s = []"
    by (auto simp: follows_def)
  have g: "good b c" "s \<le> length b" using parser_total [of b] c(1) by simp_all
  have "skip_ws b s = length b" using tokens_end [OF z, of s] c(3) skip_ws_le [OF g(2)] by simp
  then have "parsecmd b = Inr (c, nulterminate c b)" using c(1) by (simp add: parsecmd_def peek_def Let_def)
  then show "\<exists>c buf. parsecmd b = Inr (c, buf) \<and> map_cmd (cstr_at buf) c = t" using tree_cut [OF g(1) z] c(2) by blast
qed

theorem sh_parses_grammar_witness:
  "line (tokens ''ls|wc;(a)&'' 0) (List (Pipe (Exec [''ls'']) (Exec [''wc''])) (Back (Exec [''a''])))"
proof -
  let ?b = "''ls|wc;(a)&''"
  let ?c = "List (Pipe (Exec [(0, 2)]) (Exec [(3, 5)])) (Back (Exec [(7, 8)]))"
  let ?t = "List (Pipe (Exec [''ls'']) (Exec [''wc''])) (Back (Exec [''a'']))"
  have "parsecmd ?b = Inr (?c, nulterminate ?c ?b)" by code_simp
  moreover have "map_cmd (cstr_at (nulterminate ?c ?b)) ?c = ?t" by code_simp
  moreover have "CHR 0x00 \<notin> set ?b" by simp
  ultimately show ?thesis using sh_parses_grammar [of ?b ?t] by blast
qed

end
