(* ===== verification/Mkfs.thy ===== *)
theory Mkfs
  imports Log Programs
begin

text \<open>
  The program that builds the disk image (\<^verbatim>\<open>mkfs.c\<close>), with the on-disk format of \<^verbatim>\<open>fs.h\<close>. The image is a list
  of 512-byte sectors; an inode in memory is its 64 bytes. The host's file calls are taken not to fail,
  except for a read past the end of the image.
\<close>

section \<open>The on-disk format\<close>

definition NDIRECT :: nat where "NDIRECT = 12"
definition NINDIRECT :: nat where "NINDIRECT = 128"
definition MAXFILE :: nat where "MAXFILE = 140"
definition ROOTINO :: u32 where "ROOTINO = 1"
definition IPB :: nat where "IPB = 8"

definition nblocks :: nat where "nblocks = 985"
definition nlog :: nat where "nlog = LOGSIZE"
definition ninodes :: nat where "ninodes = 200"
definition fssize :: nat where "fssize = 1024"

text \<open>The bytes \<^verbatim>\<open>xshort\<close> and \<^verbatim>\<open>xint\<close> lay out, on a host of either byte order.\<close>

definition xshort :: "u16 \<Rightarrow> u8 list" where
  "xshort x = [ucast x, ucast (drop_bit 8 x)]"

definition xint :: "u32 \<Rightarrow> u8 list" where
  "xint x = [ucast x, ucast (drop_bit 8 x), ucast (drop_bit 16 x), ucast (drop_bit 24 x)]"

text \<open>Bytes stored at an offset of a buffer, as assignments to fields and \<^verbatim>\<open>bcopy\<close> do.\<close>

definition put_at :: "nat \<Rightarrow> u8 list \<Rightarrow> u8 list \<Rightarrow> u8 list" where
  "put_at k bs b = take k b @ bs @ drop (k + length bs) b"

text \<open>The fields of \<^verbatim>\<open>struct dinode\<close> by their offsets.\<close>

definition din_type :: nat where "din_type = 0"
definition din_nlink :: nat where "din_nlink = 6"
definition din_size :: nat where "din_size = 8"
definition din_addrs :: "nat \<Rightarrow> nat" where "din_addrs i = 12 + 4 * i"

section \<open>Sectors and inodes\<close>

record mkfs =
  img :: "u8 list list"
  freeblock :: u32
  usedblocks :: u32
  freeinode :: u32

text \<open>A write past the end leaves a hole of zeroes.\<close>

definition wsect :: "u32 \<Rightarrow> u8 list \<Rightarrow> mkfs \<Rightarrow> mkfs" where
  "wsect sec buf st =
     (let im = img st; n = unat sec
      in st\<lparr>img := (if n < length im then im[n := buf]
           else im @ replicate (n - length im) (replicate 512 0) @ [buf])\<rparr>)"

definition rsect :: "u32 \<Rightarrow> mkfs \<Rightarrow> u8 list res" where
  "rsect sec st = (if unat sec < length (img st) then Inr (img st ! unat sec) else Inl (Panic ''read''))"

definition i2b :: "u32 \<Rightarrow> u32" where
  "i2b inum = inum div of_nat IPB + 2"

definition winode :: "u32 \<Rightarrow> u8 list \<Rightarrow> mkfs \<Rightarrow> mkfs res" where
  "winode inum ip st =
     bindR (rsect (i2b inum) st) (\<lambda>buf.
       Inr (wsect (i2b inum) (put_at (64 * (unat inum mod IPB)) ip buf) st))"

definition rinode :: "u32 \<Rightarrow> mkfs \<Rightarrow> u8 list res" where
  "rinode inum st =
     bindR (rsect (i2b inum) st) (\<lambda>buf. Inr (take 64 (drop (64 * (unat inum mod IPB)) buf)))"

definition ialloc :: "u16 \<Rightarrow> mkfs \<Rightarrow> (u32 \<times> mkfs) res" where
  "ialloc type st =
     (let inum = freeinode st;
          st = st\<lparr>freeinode := freeinode st + 1\<rparr>;
          din = replicate 64 0;
          din = put_at din_type (xshort type) din;
          din = put_at din_nlink (xshort 1) din;
          din = put_at din_size (xint 0) din
      in bindR (winode inum din st) (\<lambda>st. Inr (inum, st)))"

text \<open>\<^verbatim>\<open>freeblock++\<close> with \<^verbatim>\<open>usedblocks++\<close>.\<close>

definition take_block :: "mkfs \<Rightarrow> u32 \<times> mkfs" where
  "take_block st = (freeblock st, st\<lparr>freeblock := freeblock st + 1, usedblocks := usedblocks st + 1\<rparr>)"

text \<open>A block number stored in the inode where there is none yet.\<close>

definition fill_addr :: "nat \<Rightarrow> u8 list \<Rightarrow> mkfs \<Rightarrow> u8 list \<times> mkfs" where
  "fill_addr i din st =
     (if get32 din (din_addrs i) = 0
      then (case take_block st of (b, st) \<Rightarrow> (put_at (din_addrs i) (xint b) din, st))
      else (din, st))"

text \<open>The sector of block \<open>fbn\<close> of a file, allocated if need be.\<close>

definition file_block :: "nat \<Rightarrow> u8 list \<Rightarrow> mkfs \<Rightarrow> (u32 \<times> u8 list \<times> mkfs) res" where
  "file_block fbn din st =
     (if fbn < NDIRECT then
        (case fill_addr fbn din st of (din, st) \<Rightarrow> Inr (get32 din (din_addrs fbn), din, st))
      else
        (case fill_addr NDIRECT din st of (din, st) \<Rightarrow>
         bindR (rsect (get32 din (din_addrs NDIRECT)) st) (\<lambda>ind.
           if get32 ind (4 * (fbn - NDIRECT)) = 0 then
             (case take_block st of (b, st) \<Rightarrow>
              let ind = put_at (4 * (fbn - NDIRECT)) (xint b) ind
              in Inr (get32 ind (4 * (fbn - NDIRECT)), din, wsect (get32 din (din_addrs NDIRECT)) ind st))
           else Inr (get32 ind (4 * (fbn - NDIRECT)), din, st))))"

function iappend_loop :: "u8 list \<Rightarrow> nat \<Rightarrow> u8 list \<Rightarrow> mkfs \<Rightarrow> (u8 list \<times> nat \<times> mkfs) res" where
  "iappend_loop din off p st =
     (if p = [] then Inr (din, off, st)
      else if \<not> off div 512 < MAXFILE then Inl (Panic ''assert'')
      else
        bindR (file_block (off div 512) din st) (\<lambda>(x, din, st).
          bindR (rsect x st) (\<lambda>buf.
            let n1 = min (length p) ((off div 512 + 1) * 512 - off);
                st = wsect x (put_at (off - off div 512 * 512) (take n1 p) buf) st
            in iappend_loop din (off + n1) (drop n1 p) st)))"
  by pat_completeness auto

termination
  by (relation "measure (\<lambda>(din, off, p, st). length p)") auto

declare iappend_loop.simps [simp del]

definition iappend :: "u32 \<Rightarrow> u8 list \<Rightarrow> mkfs \<Rightarrow> mkfs res" where
  "iappend inum p st =
     bindR (rinode inum st) (\<lambda>din.
       bindR (iappend_loop din (unat (get32 din din_size)) p st) (\<lambda>(din, off, st).
         winode inum (put_at din_size (xint (of_nat off)) din) st))"

section \<open>The program\<close>

fun mark_bits :: "nat list \<Rightarrow> u8 list \<Rightarrow> u8 list" where
  "mark_bits [] buf = buf"
| "mark_bits (i # is) buf = mark_bits is (buf[i div 8 := buf ! (i div 8) OR push_bit (i mod 8) 1])"

definition balloc :: "nat \<Rightarrow> mkfs \<Rightarrow> mkfs res" where
  "balloc used st =
     (if \<not> used < 512 * 8 then Inl (Panic ''assert'')
      else Inr (wsect (of_nat (ninodes div IPB + 3)) (mark_bits [0..<used] (replicate 512 0)) st))"

text \<open>\<^verbatim>\<open>struct dirent\<close> with the name as \<^verbatim>\<open>strncpy\<close> leaves it.\<close>

definition dirent :: "u32 \<Rightarrow> string \<Rightarrow> u8 list" where
  "dirent inum nm = xshort (ucast inum) @ map of_char (take DIRSIZ nm) @ replicate (DIRSIZ - length nm) 0"

definition sb_bytes :: "u8 list" where
  "sb_bytes = xint (of_nat fssize) @ xint (of_nat nblocks) @ xint (of_nat ninodes) @ xint (of_nat nlog)"

fun zero_sects :: "nat list \<Rightarrow> mkfs \<Rightarrow> mkfs" where
  "zero_sects [] st = st"
| "zero_sects (i # is) st = zero_sects is (wsect (of_nat i) (replicate 512 0) st)"

text \<open>
  A file of the host is what its name opens: nothing, or the bytes that successive reads of at most 512
  bytes return.
\<close>

type_synonym hostfile = "string \<times> u8 list list option"

fun append_all :: "u32 \<Rightarrow> u8 list list \<Rightarrow> mkfs \<Rightarrow> mkfs res" where
  "append_all inum [] st = Inr st"
| "append_all inum (c # cs) st = bindR (iappend inum c st) (append_all inum cs)"

definition strip :: "string \<Rightarrow> string" where
  "strip nm = (case nm of c # cs \<Rightarrow> if c = CHR ''_'' then cs else nm | [] \<Rightarrow> [])"

definition add_file :: "hostfile \<Rightarrow> mkfs \<Rightarrow> mkfs res" where
  "add_file f st =
     (if CHR ''/'' \<in> set (fst f) then Inl (Panic ''assert'')
      else case snd f of None \<Rightarrow> Inl (Panic (fst f))
      | Some cs \<Rightarrow>
          bindR (ialloc (word_of_int T_FILE) st) (\<lambda>(inum, st).
          bindR (iappend ROOTINO (dirent inum (strip (fst f))) st) (\<lambda>st.
          append_all inum cs st)))"

fun add_files :: "hostfile list \<Rightarrow> mkfs \<Rightarrow> mkfs res" where
  "add_files [] st = Inr st"
| "add_files (f # fs) st = bindR (add_file f st) (add_files fs)"

definition fix_root :: "mkfs \<Rightarrow> mkfs res" where
  "fix_root st =
     bindR (rinode ROOTINO st) (\<lambda>din.
       let off = get32 din din_size; off = (off div 512 + 1) * 512
       in winode ROOTINO (put_at din_size (xint off) din) st)"

definition mkfs_main :: "hostfile list \<Rightarrow> mkfs res" where
  "mkfs_main files =
     (let bitblocks = fssize div (512 * 8) + 1;
          used = ninodes div IPB + 3 + bitblocks;
          st = \<lparr>img = [], freeblock = of_nat used, usedblocks = of_nat used, freeinode = 1\<rparr>
      in if nblocks + used + nlog \<noteq> fssize then Inl (Panic ''assert'')
         else
           let st = zero_sects [0..<nblocks + used + nlog] st;
               st = wsect 1 (put_at 0 sb_bytes (replicate 512 0)) st
           in bindR (ialloc (word_of_int T_DIR) st) (\<lambda>(rootino, st).
              if rootino \<noteq> ROOTINO then Inl (Panic ''assert'')
              else
                bindR (iappend rootino (dirent rootino ''.'') st) (\<lambda>st.
                bindR (iappend rootino (dirent rootino ''..'') st) (\<lambda>st.
                bindR (add_files files st) (\<lambda>st.
                bindR (fix_root st) (\<lambda>st.
                balloc (unat (usedblocks st)) st))))))"

section \<open>Bytes at offsets\<close>

lemma length_put_at [simp]: "k + length bs \<le> length b \<Longrightarrow> length (put_at k bs b) = length b"
  by (simp add: put_at_def)

lemma length_xint [simp]: "length (xint v) = 4" and length_xshort [simp]: "length (xshort w) = 2"
  by (simp_all add: xint_def xshort_def)

lemma nth_put_at:
  "k + length bs \<le> length b \<Longrightarrow> i < length b \<Longrightarrow>
   put_at k bs b ! i = (if k \<le> i \<and> i < k + length bs then bs ! (i - k) else b ! i)"
  by (auto simp: put_at_def nth_append min_def)

lemma get32_put_same: "k + 4 \<le> length b \<Longrightarrow> get32 (put_at k (xint v) b) k = v"
  by (simp add: get32_def nth_put_at split32) (simp add: xint_def numeral_3_eq_3 split32)

lemma get32_put_other:
  "k + length bs \<le> length b \<Longrightarrow> j + 4 \<le> length b \<Longrightarrow> j + 4 \<le> k \<or> k + length bs \<le> j \<Longrightarrow>
   get32 (put_at k bs b) j = get32 b j"
  by (auto simp: get32_def nth_put_at)

lemma get32_zeros [simp]: "k + 4 \<le> n \<Longrightarrow> get32 (replicate n 0) k = 0"
  by (simp add: get32_def)

section \<open>Where the blocks of the files are\<close>

text \<open>
  \<open>D j\<close> is the inode of file \<open>j\<close> (inode number \<open>j + 1\<close>), \<open>im\<close> the sectors. A file has 140 slots for blocks and
  one, numbered 140, for its indirect block.
\<close>

definition slot :: "(nat \<Rightarrow> u8 list) \<Rightarrow> u8 list list \<Rightarrow> nat \<Rightarrow> nat \<Rightarrow> nat" where
  "slot D im j i =
     (if i < 12 then unat (get32 (D j) (din_addrs i))
      else if i = 140 then unat (get32 (D j) (din_addrs 12))
      else if get32 (D j) (din_addrs 12) = 0 then 0
      else unat (get32 (im ! unat (get32 (D j) (din_addrs 12))) (4 * (i - 12))))"

definition geometry :: "(nat \<Rightarrow> u8 list) \<Rightarrow> nat \<Rightarrow> u8 list list \<Rightarrow> nat \<Rightarrow> bool" where
  "geometry D n im fb \<longleftrightarrow> length im = 1024 \<and> (\<forall>b<1024. length (im ! b) = 512) \<and>
     (\<forall>j<n. length (D j) = 64) \<and> 29 \<le> fb \<and> fb \<le> 1024 \<and> (\<forall>b. fb \<le> b \<longrightarrow> b < 1024 \<longrightarrow> im ! b = replicate 512 0)"

definition slots :: "(nat \<Rightarrow> u8 list) \<Rightarrow> nat \<Rightarrow> u8 list list \<Rightarrow> nat \<Rightarrow> bool" where
  "slots D n im fb \<longleftrightarrow>
     (\<forall>j<n. \<forall>i\<le>140. slot D im j i \<noteq> 0 \<longrightarrow> 29 \<le> slot D im j i \<and> slot D im j i < fb) \<and>
     (\<forall>j<n. \<forall>i\<le>140. \<forall>j'<n. \<forall>i'\<le>140. slot D im j i = slot D im j' i' \<longrightarrow> slot D im j i \<noteq> 0 \<longrightarrow> j = j' \<and> i = i')"

text \<open>The contents of the files.\<close>

definition holds :: "(nat \<Rightarrow> u8 list) \<Rightarrow> u8 list list \<Rightarrow> u8 list list \<Rightarrow> bool" where
  "holds D im fs \<longleftrightarrow> (\<forall>j<length fs. length (fs ! j) \<le> 140 * 512 \<and>
     (\<forall>k<length (fs ! j). slot D im j (k div 512) \<noteq> 0 \<and> im ! slot D im j (k div 512) ! (k mod 512) = fs ! j ! k))"

lemma geometryD:
  assumes "geometry D n im fb"
  shows "length im = 1024" "b < 1024 \<Longrightarrow> length (im ! b) = 512" "j < n \<Longrightarrow> length (D j) = 64" "29 \<le> fb" "fb \<le> 1024"
    "fb \<le> b \<Longrightarrow> b < 1024 \<Longrightarrow> im ! b = replicate 512 0"
  using assms by (auto simp: geometry_def)

lemma slotsD:
  assumes "slots D n im fb" "j < n" "i \<le> 140"
  shows "slot D im j i \<noteq> 0 \<Longrightarrow> 29 \<le> slot D im j i" "slot D im j i \<noteq> 0 \<Longrightarrow> slot D im j i < fb"
    "j' < n \<Longrightarrow> i' \<le> 140 \<Longrightarrow> slot D im j i = slot D im j' i' \<Longrightarrow> slot D im j i \<noteq> 0 \<Longrightarrow> j = j' \<and> i = i'"
  using assms unfolding slots_def by blast+

text \<open>One more slot filled, with the next free sector.\<close>

lemma slots_grow:
  assumes "slots D n im fb" "j0 < n" "i0 \<le> 140" "slot D im j0 i0 = 0" "29 \<le> fb"
    "\<And>j i. j < n \<Longrightarrow> i \<le> 140 \<Longrightarrow> slot D' im' j i = (if j = j0 \<and> i = i0 then fb else slot D im j i)"
  shows "slots D' n im' (Suc fb)"
proof -
  have lt: "slot D im j i < fb" if "j < n" "i \<le> 140" for j i
    using slotsD(2) [OF assms(1) that] assms(5) by (cases "slot D im j i = 0") auto
  show ?thesis unfolding slots_def
  proof (intro conjI allI impI)
    fix j i
    assume "j < n" "i \<le> 140" "slot D' im' j i \<noteq> 0"
    then show "29 \<le> slot D' im' j i" "slot D' im' j i < Suc fb"
      using assms(5,6) slotsD(1) [OF assms(1)] lt [of j i] by (auto split: if_splits)
  next
    fix j i j' i'
    assume "j < n" "i \<le> 140" "j' < n" "i' \<le> 140" "slot D' im' j i = slot D' im' j' i'" "slot D' im' j i \<noteq> 0"
    then show "j = j'" "i = i'"
      using assms(6) slotsD(3) [OF assms(1)] lt [of j i] lt [of j' i'] by (auto split: if_splits)
  qed
qed

lemma unat_of_nat_1024: "fb \<le> 1024 \<Longrightarrow> unat (of_nat fb :: u32) = fb"
  by (simp add: unat_of_nat32)

lemma unat_eq_0: "unat (x :: u32) = 0 \<longleftrightarrow> x = 0"
  by (simp add: unat_eq_zero)

text \<open>A block number put into the inode.\<close>

lemma slot_put_addr:
  assumes "length (D j0) = 64" "i0 \<le> 12" "fb \<le> 1024" "i \<le> 140"
    "i0 = 12 \<Longrightarrow> get32 (D j0) (din_addrs 12) = 0 \<and> im ! fb = replicate 512 0"
  shows "slot (D(j0 := put_at (din_addrs i0) (xint (of_nat fb)) (D j0))) im j i =
    (if j = j0 \<and> i = (if i0 = 12 then 140 else i0) then fb else slot D im j i)"
proof (cases "j = j0")
  case True
  have same: "get32 (put_at (din_addrs i0) (xint (of_nat fb)) (D j0)) (din_addrs i0) = of_nat fb"
    using assms by (intro get32_put_same) (simp add: din_addrs_def)
  have other: "get32 (put_at (din_addrs i0) (xint (of_nat fb)) (D j0)) (din_addrs k) = get32 (D j0) (din_addrs k)"
    if "k \<noteq> i0" "k \<le> 12" for k
    using assms that by (intro get32_put_other) (auto simp: din_addrs_def)
  consider "i0 = 12" | "i0 < 12" using assms(2) by linarith
  then show ?thesis
  proof cases
    case 1
    have "unat (of_nat fb :: u32) = fb" by (rule unat_of_nat_1024 [OF assms(3)])
    then show ?thesis using True 1 same other [of i] assms(4,5) by (auto simp: slot_def)
  next
    case 2
    then show ?thesis using True same other [of i] other [of 12] unat_of_nat_1024 [OF assms(3)] by (auto simp: slot_def)
  qed
qed (simp add: slot_def)

text \<open>A block number put into the indirect block.\<close>

lemma slot_put_ind:
  assumes "slots D n im fb" "geometry D n im fb" "j0 < n" "12 \<le> i0" "i0 < 140" "fb' \<le> 1024"
    "slot D im j0 140 = b" "b \<noteq> 0" "j < n" "i \<le> 140"
  shows "slot D (im[b := put_at (4 * (i0 - 12)) (xint (of_nat fb')) (im ! b)]) j i =
    (if j = j0 \<and> i = i0 then fb' else slot D im j i)"
proof -
  let ?s = "put_at (4 * (i0 - 12)) (xint (of_nat fb')) (im ! b)"
  have b: "b < fb" using slotsD(2) [OF assms(1,3), of 140] assms(7,8) by simp
  then have len: "length (im ! b) = 512" "b < length im" using geometryD [OF assms(2)] by simp_all
  have same: "get32 ?s (4 * (i0 - 12)) = of_nat fb'" using assms len by (intro get32_put_same) auto
  have other: "get32 ?s (4 * (k - 12)) = get32 (im ! b) (4 * (k - 12))" if "12 \<le> k" "k < 140" "k \<noteq> i0" for k
    using assms len that by (intro get32_put_other) auto
  have j0: "get32 (D j0) (din_addrs 12) \<noteq> 0" "unat (get32 (D j0) (din_addrs 12)) = b"
    using assms(7,8) by (auto simp: slot_def)
  have ind: "unat (get32 (D j) (din_addrs 12)) = b \<longleftrightarrow> j = j0" if "get32 (D j) (din_addrs 12) \<noteq> 0"
  proof
    assume "unat (get32 (D j) (din_addrs 12)) = b"
    then have "slot D im j 140 = slot D im j0 140" "slot D im j 140 \<noteq> 0" using assms(7,8) by (simp_all add: slot_def)
    then show "j = j0" using slotsD(3) [OF assms(1,9), of 140 j0 140] assms(3) by simp
  qed (use j0 in simp)
  show ?thesis
    using same other [of i] ind j0 assms(4,5,10) len(2) unat_of_nat_1024 [OF assms(6)]
    by (cases "j = j0") (auto simp: slot_def nth_list_update)
qed

section \<open>Keeping the layout\<close>

definition layout :: "(nat \<Rightarrow> u8 list) \<Rightarrow> u8 list list \<Rightarrow> nat \<Rightarrow> u8 list list \<Rightarrow> bool" where
  "layout D im fb fs \<longleftrightarrow> geometry D (length fs) im fb \<and> slots D (length fs) im fb \<and> holds D im fs"

lemma layout_put_addr:
  assumes "layout D im fb fs" "j0 < length fs" "i0 \<le> 12" "fb < 1024" "slot D im j0 (if i0 = 12 then 140 else i0) = 0"
  defines "D' \<equiv> D(j0 := put_at (din_addrs i0) (xint (of_nat fb)) (D j0))"
  shows "layout D' im (Suc fb) fs" and "i \<le> 140 \<Longrightarrow> slot D' im j i =
    (if j = j0 \<and> i = (if i0 = 12 then 140 else i0) then fb else slot D im j i)"
proof -
  have g: "geometry D (length fs) im fb" and s: "slots D (length fs) im fb" and h: "holds D im fs"
    using assms(1) by (auto simp: layout_def)
  have "i0 = 12 \<Longrightarrow> get32 (D j0) (din_addrs 12) = 0 \<and> im ! fb = replicate 512 0"
    using assms(4,5) geometryD(6) [OF g, of fb] by (simp add: slot_def unat_eq_0)
  then have sl: "slot D' im j i = (if j = j0 \<and> i = (if i0 = 12 then 140 else i0) then fb else slot D im j i)"
    if "i \<le> 140" for i j
    unfolding D'_def using assms(3,4) geometryD(3) [OF g assms(2)] that by (intro slot_put_addr) auto
  then show "i \<le> 140 \<Longrightarrow> slot D' im j i = (if j = j0 \<and> i = (if i0 = 12 then 140 else i0) then fb else slot D im j i)" .
  have "geometry D' (length fs) im (Suc fb)"
    using g assms(3,4) geometryD(3) [OF g assms(2)] unfolding geometry_def D'_def by (auto simp: din_addrs_def)
  moreover have "slots D' (length fs) im (Suc fb)"
    using assms(3,5) geometryD(4) [OF g] sl by (intro slots_grow [OF s assms(2)]) auto
  moreover have "holds D' im fs" unfolding holds_def
  proof (intro allI impI conjI)
    fix j k
    assume j: "j < length fs"
    then show "length (fs ! j) \<le> 140 * 512" using h by (auto simp: holds_def)
    assume k: "k < length (fs ! j)"
    have "k div 512 < 140" "slot D im j (k div 512) \<noteq> 0"
      using h j k unfolding holds_def by (force, blast)
    then have "slot D' im j (k div 512) = slot D im j (k div 512)" using sl [of "k div 512" j] assms(5) by auto
    then show "slot D' im j (k div 512) \<noteq> 0" "im ! slot D' im j (k div 512) ! (k mod 512) = fs ! j ! k"
      using h j k unfolding holds_def by auto
  qed
  ultimately show "layout D' im (Suc fb) fs" by (simp add: layout_def)
qed

lemma layout_put_ind:
  assumes "layout D im fb fs" "j0 < length fs" "12 \<le> i0" "i0 < 140" "fb < 1024" "slot D im j0 140 = b" "b \<noteq> 0"
    "slot D im j0 i0 = 0"
  defines "im' \<equiv> im[b := put_at (4 * (i0 - 12)) (xint (of_nat fb)) (im ! b)]"
  shows "layout D im' (Suc fb) fs"
    and "j < length fs \<Longrightarrow> i \<le> 140 \<Longrightarrow> slot D im' j i = (if j = j0 \<and> i = i0 then fb else slot D im j i)"
    and "29 \<le> b"
proof -
  have g: "geometry D (length fs) im fb" and s: "slots D (length fs) im fb" and h: "holds D im fs"
    using assms(1) by (auto simp: layout_def)
  have b: "29 \<le> b" "b < fb" using slotsD [OF s assms(2), of 140] assms(6,7) by auto
  then show "29 \<le> b" by simp
  have len: "length (im ! b) = 512" "b < length im" using geometryD [OF g] b by simp_all
  have sl: "slot D im' j i = (if j = j0 \<and> i = i0 then fb else slot D im j i)" if "j < length fs" "i \<le> 140" for i j
    unfolding im'_def using assms(2-7) that by (intro slot_put_ind [OF s g]) auto
  then show "j < length fs \<Longrightarrow> i \<le> 140 \<Longrightarrow> slot D im' j i = (if j = j0 \<and> i = i0 then fb else slot D im j i)" .
  have "geometry D (length fs) im' (Suc fb)"
    using g assms(3-5) len b unfolding geometry_def im'_def by (auto simp: nth_list_update)
  moreover have "slots D (length fs) im' (Suc fb)"
    using assms(4,8) geometryD(4) [OF g] sl by (intro slots_grow [OF s assms(2)]) auto
  moreover have "holds D im' fs" unfolding holds_def
  proof (intro allI impI conjI)
    fix j k
    assume j: "j < length fs"
    then show "length (fs ! j) \<le> 140 * 512" using h by (auto simp: holds_def)
    assume k: "k < length (fs ! j)"
    have i: "k div 512 < 140" and z: "slot D im j (k div 512) \<noteq> 0" using h j k unfolding holds_def by (force, blast)
    have e: "slot D im' j (k div 512) = slot D im j (k div 512)" using sl [of j "k div 512"] assms(8) i z j by auto
    have "slot D im j (k div 512) \<noteq> b"
      using slotsD(3) [OF s j, of "k div 512" j0 140] i z assms(2,6) by auto
    then show "slot D im' j (k div 512) \<noteq> 0" "im' ! slot D im' j (k div 512) ! (k mod 512) = fs ! j ! k"
      using h j k e z unfolding holds_def im'_def by auto
  qed
  ultimately show "layout D im' (Suc fb) fs" by (simp add: layout_def)
qed

lemma slot_update_other:
  assumes "\<And>b. b = slot D im j 140 \<Longrightarrow> b \<noteq> 0 \<Longrightarrow> im' ! b = im ! b"
  shows "slot D im' j i = slot D im j i"
  using assms by (auto simp: slot_def unat_eq_0)

lemma tail_block:
  fixes m k c i :: nat
  assumes "m div 512 = i" "m \<le> k" "k < m + c" "m mod 512 + c \<le> 512"
  shows "k div 512 = i \<and> k mod 512 = m mod 512 + (k - m)"
proof -
  have "k = i * 512 + (m mod 512 + (k - m))" "m mod 512 + (k - m) < 512"
    using assms div_mult_mod_eq [of m 512] by linarith+
  then show ?thesis by (metis div_mult_self3 mod_mult_self3 add.commute div_less mod_less add_0 zero_neq_numeral)
qed

lemma head_block:
  fixes m k i :: nat
  assumes "m div 512 = i" "k < m" "k div 512 = i"
  shows "k mod 512 < m mod 512"
  using assms div_mult_mod_eq [of m 512] div_mult_mod_eq [of k 512] by linarith

text \<open>Bytes put at the end of a file, into the sector of its last block.\<close>

lemma holds_write:
  assumes s: "slots D (length fs) im fb" and h: "holds D im fs" and sl: "\<And>j i. j < length fs \<Longrightarrow> slot D im' j i = slot D im j i"
    and j0: "j0 < length fs" "length (fs ! j0) div 512 = i0" "i0 < 140" "slot D im j0 i0 = x" "x \<noteq> 0"
    and c: "length (fs ! j0) mod 512 + length c \<le> 512" and len: "length (im ! x) = 512" "x < length im"
    and im': "im' = im[x := put_at (length (fs ! j0) mod 512) c (im ! x)]"
    and j: "j < length fs" and k: "k < length (fs[j0 := fs ! j0 @ c] ! j)"
  shows "slot D im' j (k div 512) \<noteq> 0 \<and> im' ! slot D im' j (k div 512) ! (k mod 512) = fs[j0 := fs ! j0 @ c] ! j ! k"
proof (cases "j = j0 \<and> length (fs ! j0) \<le> k")
  case True
  then have k2: "k < length (fs ! j0) + length c" using k j0(1) by simp
  from tail_block [OF j0(2) conjunct2 [OF True] k2 c]
  have t: "k div 512 = i0" "k mod 512 = length (fs ! j0) mod 512 + (k - length (fs ! j0))" by simp_all
  define d where "d = k - length (fs ! j0)"
  have d: "k mod 512 = length (fs ! j0) mod 512 + d" "d < length c" using t(2) k2 True unfolding d_def by linarith+
  have "im' ! x ! (length (fs ! j0) mod 512 + d) = c ! d" using d(2) len c by (simp add: im' nth_put_at)
  then have "im' ! x ! (k mod 512) = c ! (k - length (fs ! j0))" unfolding d(1) d_def .
  moreover have "fs[j0 := fs ! j0 @ c] ! j ! k = c ! (k - length (fs ! j0))" using True j0(1) by (simp add: nth_append)
  moreover have "slot D im' j (k div 512) = x" using sl [OF j] True t(1) j0(4) by simp
  ultimately show ?thesis using j0(5) by simp
next
  case False
  then have k': "k < length (fs ! j)" using k by (cases "j = j0") (auto simp: j0(1))
  have i: "k div 512 < 140" and z: "slot D im j (k div 512) \<noteq> 0"
    and e: "im ! slot D im j (k div 512) ! (k mod 512) = fs ! j ! k"
    using h j k' unfolding holds_def by (force, blast, blast)
  have "im' ! slot D im j (k div 512) ! (k mod 512) = im ! slot D im j (k div 512) ! (k mod 512)"
  proof (cases "slot D im j (k div 512) = x")
    case True
    then have "j = j0 \<and> k div 512 = i0" using slotsD(3) [OF s j, of "k div 512" j0 i0] i z j0(1,3,4) by auto
    moreover from this have "k mod 512 < length (fs ! j0) mod 512"
      using k' head_block [OF j0(2), of k] by simp
    ultimately show ?thesis using True len c by (simp add: im' nth_put_at)
  qed (simp add: im')
  moreover have "fs[j0 := fs ! j0 @ c] ! j ! k = fs ! j ! k"
    using k' j j0(1) by (auto simp: nth_list_update nth_append)
  ultimately show ?thesis using z e sl [OF j] by simp
qed

lemma layout_write:
  assumes "layout D im fb fs" "j0 < length fs" "length (fs ! j0) div 512 = i0" "i0 < 140"
    "slot D im j0 i0 = x" "x \<noteq> 0" "length (fs ! j0) mod 512 + length c \<le> 512"
  defines "im' \<equiv> im[x := put_at (length (fs ! j0) mod 512) c (im ! x)]"
  shows "layout D im' fb (fs[j0 := fs ! j0 @ c])"
    and "j < length fs \<Longrightarrow> slot D im' j i = slot D im j i"
    and "29 \<le> x"
proof -
  let ?o = "length (fs ! j0)"
  have g: "geometry D (length fs) im fb" and s: "slots D (length fs) im fb" and h: "holds D im fs"
    using assms(1) by (auto simp: layout_def)
  have x: "29 \<le> x" "x < fb" using slotsD [OF s assms(2), of i0] assms(4,5,6) by auto
  then show "29 \<le> x" by simp
  have len: "length (im ! x) = 512" "x < length im" using geometryD [OF g] x by simp_all
  have sl: "slot D im' j i = slot D im j i" if j: "j < length fs" for i j
  proof (rule slot_update_other)
    fix b
    assume "b = slot D im j 140" "b \<noteq> 0"
    then have "b \<noteq> x" using slotsD(3) [OF s j, of 140 j0 i0] assms(2,4,5) by auto
    then show "im' ! b = im ! b" by (simp add: im'_def)
  qed
  then show "j < length fs \<Longrightarrow> slot D im' j i = slot D im j i" .
  have "geometry D (length fs) im' fb" using g len x assms(7) unfolding geometry_def im'_def by (auto simp: nth_list_update)
  moreover have "slots D (length fs) im' fb" using s sl unfolding slots_def by simp
  moreover have "holds D im' (fs[j0 := fs ! j0 @ c])" unfolding holds_def length_list_update
  proof (intro allI impI conjI)
    fix j k
    assume j: "j < length fs"
    have "?o + length c \<le> 140 * 512"
      using assms(3,4,7) div_mult_mod_eq [of ?o 512] by linarith
    then show "length (fs[j0 := fs ! j0 @ c] ! j) \<le> 140 * 512"
      using h j assms(2) by (auto simp: holds_def nth_list_update)
    assume k: "k < length (fs[j0 := fs ! j0 @ c] ! j)"
    have "slot D im' j (k div 512) \<noteq> 0 \<and> im' ! slot D im' j (k div 512) ! (k mod 512) = fs[j0 := fs ! j0 @ c] ! j ! k"
      by (rule holds_write [OF s h sl assms(2-7) len meta_eq_to_obj_eq [OF im'_def] j k])
    then show "slot D im' j (k div 512) \<noteq> 0"
      "im' ! slot D im' j (k div 512) ! (k mod 512) = fs[j0 := fs ! j0 @ c] ! j ! k" by simp_all
  qed
  ultimately show "layout D im' fb (fs[j0 := fs ! j0 @ c])" by (simp add: layout_def)
qed

section \<open>Appending to a file\<close>

text \<open>The sectors in use for files of given lengths.\<close>

definition nsect :: "nat \<Rightarrow> nat" where
  "nsect m = (m + 511) div 512 + (if 12 * 512 < m then 1 else 0)"

text \<open>A slot is filled exactly when the file reaches into it.\<close>

definition reach :: "nat \<Rightarrow> nat" where
  "reach i = (if i = 140 then 12 * 512 else i * 512)"

definition filled :: "(nat \<Rightarrow> u8 list) \<Rightarrow> u8 list list \<Rightarrow> u8 list list \<Rightarrow> bool" where
  "filled D im fs \<longleftrightarrow> (\<forall>j<length fs. \<forall>i\<le>140. slot D im j i \<noteq> 0 \<longleftrightarrow> reach i < length (fs ! j))"

lemma rsect_ok: "unat x < length (img st) \<Longrightarrow> rsect x st = Inr (img st ! unat x)"
  by (simp add: rsect_def)

lemma wsect_ok: "unat x < length (img st) \<Longrightarrow> wsect x b st = st\<lparr>img := (img st)[unat x := b]\<rparr>"
  by (simp add: wsect_def)

text \<open>What a step of the loop may change outside the files: nothing below the data sectors.\<close>

definition same_meta :: "u8 list list \<Rightarrow> u8 list list \<Rightarrow> bool" where
  "same_meta im im' \<longleftrightarrow> length im' = length im \<and> (\<forall>b<29. im' ! b = im ! b)"

lemma same_meta_trans: "same_meta a b \<Longrightarrow> same_meta b c \<Longrightarrow> same_meta a c"
  by (simp add: same_meta_def)

lemma same_meta_update: "29 \<le> b \<Longrightarrow> same_meta im (im[b := v])"
  by (auto simp: same_meta_def)

text \<open>\<open>k\<close> sectors taken: the counters of the program move on.\<close>

definition taken :: "nat \<Rightarrow> mkfs \<Rightarrow> mkfs \<Rightarrow> bool" where
  "taken k st st' \<longleftrightarrow> freeblock st' = freeblock st + of_nat k \<and> usedblocks st' = usedblocks st + of_nat k \<and>
     freeinode st' = freeinode st \<and> same_meta (img st) (img st')"

lemma taken_trans: "taken a s t \<Longrightarrow> taken b t u \<Longrightarrow> taken (a + b) s u"
  by (auto simp: taken_def add.assoc intro: same_meta_trans)

lemma taken_refl: "taken 0 s s"
  by (simp add: taken_def same_meta_def)

definition grows :: "nat \<Rightarrow> nat \<Rightarrow> (nat \<Rightarrow> u8 list) \<Rightarrow> u8 list list \<Rightarrow> (nat \<Rightarrow> u8 list) \<Rightarrow> u8 list list \<Rightarrow> nat \<Rightarrow> bool" where
  "grows j0 i0 D im D' im' n \<longleftrightarrow> (\<forall>j<n. \<forall>i\<le>140. slot D' im' j i \<noteq> 0 \<longleftrightarrow> slot D im j i \<noteq> 0 \<or> j = j0 \<and> i = i0)"

lemma fill_addr_ok:
  assumes "layout D (img st) fb fs" "freeblock st = of_nat fb" "j0 < length fs" "i0 \<le> 12"
  defines "i' \<equiv> if i0 = 12 then 140 else i0"
  defines "k \<equiv> if slot D (img st) j0 i' = 0 then 1 else 0"
  assumes "fb + k \<le> 1024"
  shows "\<exists>din' st'. fill_addr i0 (D j0) st = (din', st') \<and> layout (D(j0 := din')) (img st') (fb + k) fs \<and>
    taken k st st' \<and> img st' = img st \<and> get32 din' din_size = get32 (D j0) din_size \<and>
    grows j0 i' D (img st) (D(j0 := din')) (img st') (length fs) \<and> slot (D(j0 := din')) (img st') j0 i' \<noteq> 0 \<and>
    (\<forall>j<length fs. \<forall>i\<le>140. slot D (img st) j i \<noteq> 0 \<longrightarrow> slot (D(j0 := din')) (img st') j i = slot D (img st) j i)"
proof -
  have v: "slot D (img st) j0 i' = unat (get32 (D j0) (din_addrs i0))"
    using assms(4) by (auto simp: slot_def i'_def)
  show ?thesis
  proof (cases "slot D (img st) j0 i' = 0")
    case True
    let ?d = "put_at (din_addrs i0) (xint (of_nat fb)) (D j0)"
    have k: "k = 1" "fb < 1024" using True assms(7) by (simp_all add: k_def)
    have g: "geometry D (length fs) (img st) fb" using assms(1) by (simp add: layout_def)
    have len: "length (D j0) = 64" by (rule geometryD(3) [OF g assms(3)])
    have fb: "29 \<le> fb" by (rule geometryD(4) [OF g])
    note lp = layout_put_addr [OF assms(1,3,4) k(2) True [unfolded i'_def], folded i'_def]
    have "fill_addr i0 (D j0) st = (?d, snd (take_block st))"
      using True v assms(2) by (simp add: fill_addr_def take_block_def unat_eq_0)
    moreover have "get32 ?d din_size = get32 (D j0) din_size"
      using len assms(4) by (intro get32_put_other) (auto simp: din_addrs_def din_size_def)
    moreover have "taken k st (snd (take_block st))" "img (snd (take_block st)) = img st"
      using k by (simp_all add: take_block_def taken_def same_meta_def)
    moreover have "i' \<le> 140" using assms(4) by (simp add: i'_def)
    ultimately show ?thesis using lp(1) lp(2) k True fb by (auto simp: grows_def)
  next
    case False
    then have "fill_addr i0 (D j0) st = (D j0, st)" using v by (auto simp: fill_addr_def)
    then show ?thesis using False assms(1) taken_refl by (auto simp: k_def grows_def)
  qed
qed

definition missing :: "(nat \<Rightarrow> u8 list) \<Rightarrow> u8 list list \<Rightarrow> nat \<Rightarrow> nat \<Rightarrow> nat" where
  "missing D im j i = (if slot D im j i = 0 then 1 else 0) + (if 12 \<le> i \<and> slot D im j 140 = 0 then 1 else 0)"

text \<open>A free sector entered into the indirect block \<open>b\<close> of a file.\<close>

lemma indirect_new:
  assumes l: "layout D (img st) fb fs" and f: "freeblock st = of_nat fb" and j: "j0 < length fs" and i: "\<not> i0 < 12" "i0 < 140"
    and fb: "fb < 1024" and b: "slot D (img st) j0 140 = unat b" "unat b \<noteq> 0" and z: "slot D (img st) j0 i0 = 0"
    and ind: "ind = put_at (4 * (i0 - 12)) (xint (freeblock st)) (img st ! unat b)"
    and st': "st' = wsect b ind (snd (take_block st))"
  shows "layout D (img st') (Suc fb) fs" "taken 1 st st'" "get32 ind (4 * (i0 - 12)) = of_nat fb"
    "k < length fs \<Longrightarrow> n \<le> 140 \<Longrightarrow> slot D (img st') k n = (if k = j0 \<and> n = i0 then fb else slot D (img st) k n)"
proof -
  have g: "geometry D (length fs) (img st) fb" and sl: "slots D (length fs) (img st) fb" using l by (auto simp: layout_def)
  have ub: "unat b < 1024" using slotsD(2) [OF sl j, of 140] b geometryD(5) [OF g] by auto
  have len: "length (img st) = 1024" "length (img st ! unat b) = 512" using geometryD [OF g] ub by auto
  have im: "img st' = (img st)[unat b := put_at (4 * (i0 - 12)) (xint (of_nat fb)) (img st ! unat b)]"
    using ub len f by (simp add: st' ind wsect_def take_block_def Let_def)
  note lp = layout_put_ind [OF l j _ i(2) fb b, folded im]
  show "layout D (img st') (Suc fb) fs"
    "k < length fs \<Longrightarrow> n \<le> 140 \<Longrightarrow> slot D (img st') k n = (if k = j0 \<and> n = i0 then fb else slot D (img st) k n)"
    using lp i(1) z by auto
  have "29 \<le> unat b" using lp i(1) z by auto
  from same_meta_update [OF this] show "taken 1 st st'"
    using im ub len by (simp add: taken_def st' wsect_def take_block_def Let_def)
  show "get32 ind (4 * (i0 - 12)) = of_nat fb" unfolding ind f using len i by (subst get32_put_same) auto
qed

lemma file_block_ok:
  assumes l: "layout D (img st) fb fs" and f: "freeblock st = of_nat fb" and j: "j0 < length fs" and i: "i0 < 140"
    and k: "fb + missing D (img st) j0 i0 \<le> 1024"
  shows "\<exists>x din' st'. file_block i0 (D j0) st = Inr (x, din', st') \<and>
    layout (D(j0 := din')) (img st') (fb + missing D (img st) j0 i0) fs \<and> taken (missing D (img st) j0 i0) st st' \<and>
    get32 din' din_size = get32 (D j0) din_size \<and> unat x = slot (D(j0 := din')) (img st') j0 i0 \<and> x \<noteq> 0 \<and>
    (\<forall>j<length fs. \<forall>i\<le>140. slot (D(j0 := din')) (img st') j i \<noteq> 0 \<longleftrightarrow>
       slot D (img st) j i \<noteq> 0 \<or> j = j0 \<and> (i = i0 \<or> i = 140 \<and> 12 \<le> i0))"
proof (cases "i0 < 12")
  case True
  then have m: "missing D (img st) j0 i0 = (if slot D (img st) j0 i0 = 0 then 1 else 0)" by (simp add: missing_def)
  from fill_addr_ok [OF l f j, of i0] True k obtain din' st' where
    r: "fill_addr i0 (D j0) st = (din', st')" "layout (D(j0 := din')) (img st') (fb + missing D (img st) j0 i0) fs"
      "taken (missing D (img st) j0 i0) st st'" "get32 din' din_size = get32 (D j0) din_size"
      "grows j0 i0 D (img st) (D(j0 := din')) (img st') (length fs)" "slot (D(j0 := din')) (img st') j0 i0 \<noteq> 0"
    unfolding m by auto
  moreover have "unat (get32 din' (din_addrs i0)) = slot (D(j0 := din')) (img st') j0 i0"
    using True by (simp add: slot_def)
  ultimately show ?thesis using True by (auto simp: file_block_def NDIRECT_def grows_def)
next
  case False
  define k1 where "k1 = (if slot D (img st) j0 140 = 0 then 1 else 0 :: nat)"
  define k2 where "k2 = (if slot D (img st) j0 i0 = 0 then 1 else 0 :: nat)"
  have m: "missing D (img st) j0 i0 = k1 + k2" using False by (simp add: missing_def k1_def k2_def)
  from fill_addr_ok [OF l f j, of 12] k m obtain d st1 where
    r: "fill_addr 12 (D j0) st = (d, st1)" "layout (D(j0 := d)) (img st1) (fb + k1) fs" "taken k1 st st1"
      "img st1 = img st" "get32 d din_size = get32 (D j0) din_size"
      "grows j0 140 D (img st) (D(j0 := d)) (img st1) (length fs)" "slot (D(j0 := d)) (img st1) j0 140 \<noteq> 0"
    unfolding k1_def by auto
  let ?D = "D(j0 := d)" and ?b = "get32 d (din_addrs 12)"
  define ind where "ind = img st ! unat ?b"
  have b: "slot ?D (img st1) j0 140 = unat ?b" by (simp add: slot_def)
  have g: "geometry ?D (length fs) (img st1) (fb + k1)" and sl: "slots ?D (length fs) (img st1) (fb + k1)"
    using r(2) by (auto simp: layout_def)
  have ub: "unat ?b < 1024" "unat ?b \<noteq> 0"
    using slotsD(2) [OF sl j, of 140] r(7) geometryD(5) [OF g] b by auto
  have len: "length (img st) = 1024" "length ind = 512" using geometryD [OF g] r(4) ub by (auto simp: ind_def)
  have v: "slot ?D (img st1) j0 i0 = unat (get32 ind (4 * (i0 - 12)))"
    using False i ub(2) r(4) by (auto simp: slot_def ind_def)
  have same: "slot ?D (img st1) j0 i0 = 0 \<longleftrightarrow> slot D (img st) j0 i0 = 0"
    using r(6) i j unfolding grows_def by (metis less_imp_le nat_neq_iff)
  have rs: "rsect ?b st1 = Inr ind" using ub len r(4) by (simp add: rsect_def ind_def)
  show ?thesis
  proof (cases "slot D (img st) j0 i0 = 0")
    case True
    then have z: "get32 ind (4 * (i0 - 12)) = 0" and k2: "k2 = 1" and lt: "fb + k1 < 1024"
      using same v m k by (simp_all add: unat_eq_0 k2_def)
    define ind2 where "ind2 = put_at (4 * (i0 - 12)) (xint (freeblock st1)) (img st1 ! unat ?b)"
    define st2 where "st2 = wsect ?b ind2 (snd (take_block st1))"
    have fb1: "freeblock st1 = of_nat (fb + k1)" using r(3) f by (simp add: taken_def)
    have z1: "slot ?D (img st1) j0 i0 = 0" using same True by simp
    note new = indirect_new [OF r(2) fb1 j False i lt b ub(2) z1 ind2_def st2_def]
    have "file_block i0 (D j0) st = Inr (get32 ind2 (4 * (i0 - 12)), d, st2)"
      using False r(1,4) rs z by (simp add: file_block_def NDIRECT_def st2_def ind2_def ind_def take_block_def Let_def)
    moreover have "taken (k1 + k2) st st2" using taken_trans [OF r(3) new(2)] k2 by metis
    moreover have u: "unat (of_nat (fb + k1) :: u32) = fb + k1" by (rule unat_of_nat_1024) (use lt in simp)
    moreover have "fb + k1 \<noteq> 0" using geometryD(4) [OF g] by linarith
    moreover from this u have "(of_nat (fb + k1) :: u32) \<noteq> 0" by (metis unat_0)
    moreover have "slot ?D (img st2) j0 i0 = fb + k1" using new(4) [OF j, of i0] i by simp
    moreover have "\<forall>j<length fs. \<forall>i\<le>140. slot ?D (img st2) j i \<noteq> 0 \<longleftrightarrow>
       slot D (img st) j i \<noteq> 0 \<or> j = j0 \<and> (i = i0 \<or> i = 140 \<and> 12 \<le> i0)"
      using new(4) r(6) False \<open>fb + k1 \<noteq> 0\<close> unfolding grows_def by auto
    ultimately show ?thesis using new(1,3) r(5) k2 unfolding m by fastforce
  next
    case F: False
    then have z: "get32 ind (4 * (i0 - 12)) \<noteq> 0" and k2: "k2 = 0" using same v by (auto simp: k2_def)
    have "file_block i0 (D j0) st = Inr (get32 ind (4 * (i0 - 12)), d, st1)"
      using False r(1) rs z by (simp add: file_block_def NDIRECT_def)
    then show ?thesis using r F v z k2 False unfolding m by (auto simp: grows_def)
  qed
qed

lemma nsect_step:
  assumes "0 < c" "m mod 512 + c \<le> 512" "m div 512 < 140"
  shows "nsect (m + c) = nsect m + ((if \<not> reach (m div 512) < m then 1 else 0) +
    (if 12 \<le> m div 512 \<and> \<not> 12 * 512 < m then 1 else 0))"
proof -
  define q r where "q = m div 512" and "r = m mod 512"
  have m: "m = q * 512 + r" "r < 512" by (auto simp: q_def r_def)
  have "(m + c + 511) div 512 = q + 1" using m assms(1) assms(2) [folded r_def] by (intro div_nat_eqI) auto
  moreover have "(m + 511) div 512 = (if r = 0 then q else q + 1)" using m by (auto intro!: div_nat_eqI)
  moreover have "reach q = q * 512" using assms(3) by (simp add: reach_def q_def)
  moreover have "12 * 512 < m + c \<longleftrightarrow> 12 \<le> q" using m assms(1) assms(2) [folded r_def] by (cases "12 \<le> q") auto
  moreover have "12 * 512 < m \<longrightarrow> 12 \<le> q" using m by (cases "12 \<le> q") auto
  ultimately show ?thesis using m unfolding nsect_def q_def [symmetric] by auto
qed

lemma reach_step:
  assumes "0 < c" "m mod 512 + c \<le> 512" "m div 512 < 140" "i \<le> 140"
  shows "reach i < m + c \<longleftrightarrow> reach i < m \<or> i = m div 512 \<or> i = 140 \<and> 12 \<le> m div 512"
proof -
  define q r where "q = m div 512" and "r = m mod 512"
  have m: "m = q * 512 + r" "r < 512" by (auto simp: q_def r_def)
  show ?thesis using assms m unfolding reach_def q_def [symmetric] r_def [symmetric] by auto
qed

lemma nsect_mono: "a \<le> b \<Longrightarrow> nsect a \<le> nsect b"
  by (auto simp: nsect_def div_le_mono intro: le_trans [OF div_le_mono])

text \<open>One round of the loop: a piece that fits into the last block of the file.\<close>

lemma iappend_chunk:
  assumes l: "layout D (img st) fb fs" and fl: "filled D (img st) fs" and f: "freeblock st = of_nat fb" and j: "j0 < length fs"
    and m: "length (fs ! j0) = m" and i: "m div 512 < 140" and c: "0 < length c" "m mod 512 + length c \<le> 512"
    and room: "fb + missing D (img st) j0 (m div 512) \<le> 1024"
  obtains x d st1 st2 where "file_block (m div 512) (D j0) st = Inr (x, d, st1)" "unat x < length (img st1)"
    "st2 = wsect x (put_at (m mod 512) c (img st1 ! unat x)) st1" "get32 d din_size = get32 (D j0) din_size"
    "layout (D(j0 := d)) (img st2) (fb + missing D (img st) j0 (m div 512)) (fs[j0 := fs ! j0 @ c])"
    "filled (D(j0 := d)) (img st2) (fs[j0 := fs ! j0 @ c])" "taken (missing D (img st) j0 (m div 512)) st st2"
proof -
  let ?i = "m div 512"
  obtain x d st1 where fbk: "file_block ?i (D j0) st = Inr (x, d, st1)"
    "layout (D(j0 := d)) (img st1) (fb + missing D (img st) j0 ?i) fs" "taken (missing D (img st) j0 ?i) st st1"
    "get32 d din_size = get32 (D j0) din_size" "unat x = slot (D(j0 := d)) (img st1) j0 ?i" "x \<noteq> 0"
    "\<forall>j<length fs. \<forall>i\<le>140. slot (D(j0 := d)) (img st1) j i \<noteq> 0 \<longleftrightarrow>
     slot D (img st) j i \<noteq> 0 \<or> j = j0 \<and> (i = ?i \<or> i = 140 \<and> 12 \<le> ?i)"
    using file_block_ok [OF l f j i room] by auto
  let ?D = "D(j0 := d)" and ?fb = "fb + missing D (img st) j0 ?i" and ?fs = "fs[j0 := fs ! j0 @ c]"
  have x: "unat x \<noteq> 0" "slot ?D (img st1) j0 (length (fs ! j0) div 512) = unat x"
    using unat_eq_0 [of x] fbk(6) fbk(5) [symmetric] m by blast+
  define st2 where "st2 = wsect x (put_at (m mod 512) c (img st1 ! unat x)) st1"
  have g: "geometry ?D (length fs) (img st1) ?fb" and sl: "slots ?D (length fs) (img st1) ?fb"
    using fbk(2) by (auto simp: layout_def)
  have ux: "unat x < length (img st1)"
    using slotsD(2) [OF sl j, of ?i] i fbk(5) x(1) geometryD(1,5) [OF g] by simp
  have im2: "img st2 = (img st1)[unat x := put_at (length (fs ! j0) mod 512) c (img st1 ! unat x)]"
    using ux m by (simp add: st2_def wsect_def Let_def)
  note lw = layout_write [OF fbk(2) j refl _ x(2,1), of c, folded im2]
  have lay: "layout ?D (img st2) ?fb ?fs" and sl2: "\<And>j i. j < length fs \<Longrightarrow> slot ?D (img st2) j i = slot ?D (img st1) j i"
    and x29: "29 \<le> unat x" using lw m i c(2) by auto
  have fl2: "filled ?D (img st2) ?fs" unfolding filled_def length_list_update
  proof (intro allI impI)
    fix j i :: nat
    assume a: "j < length fs" "i \<le> 140"
    have "slot ?D (img st2) j i \<noteq> 0 \<longleftrightarrow> reach i < length (fs ! j) \<or> j = j0 \<and> (i = ?i \<or> i = 140 \<and> 12 \<le> ?i)"
      using sl2 [OF a(1)] fbk(7) fl a unfolding filled_def by simp
    then show "slot ?D (img st2) j i \<noteq> 0 \<longleftrightarrow> reach i < length (?fs ! j)"
      using reach_step [OF c i a(2)] m j by (cases "j = j0") auto
  qed
  have tk: "taken (missing D (img st) j0 ?i) st st2"
    using fbk(3) same_meta_update [OF x29] same_meta_trans im2 ux unfolding taken_def
    by (auto simp: st2_def wsect_def Let_def)
  from that [OF fbk(1) ux st2_def fbk(4) lay fl2 tk] show thesis .
qed

lemma iappend_loop_ok:
  "layout D (img st) fb fs \<Longrightarrow> filled D (img st) fs \<Longrightarrow> freeblock st = of_nat fb \<Longrightarrow> j0 < length fs \<Longrightarrow>
   length (fs ! j0) = m \<Longrightarrow> m + length p \<le> 140 * 512 \<Longrightarrow> fb + nsect (m + length p) \<le> 1024 + nsect m \<Longrightarrow>
   \<exists>din' st'. iappend_loop (D j0) m p st = Inr (din', m + length p, st') \<and>
     layout (D(j0 := din')) (img st') (fb + nsect (m + length p) - nsect m) (fs[j0 := fs ! j0 @ p]) \<and>
     filled (D(j0 := din')) (img st') (fs[j0 := fs ! j0 @ p]) \<and>
     taken (nsect (m + length p) - nsect m) st st' \<and> get32 din' din_size = get32 (D j0) din_size"
proof (induction "length p" arbitrary: D st fb fs m p rule: less_induct)
  case less
  note l = less(2) and fl = less(3) and f = less(4) and j = less(5) and m = less(6) and mx = less(7) and room = less(8)
  show ?case
  proof (cases "p = []")
    case True
    then show ?thesis using l fl m j by (simp add: iappend_loop.simps taken_refl)
  next
    case False
    let ?i = "m div 512"
    define n1 where "n1 = min (length p) ((?i + 1) * 512 - m)"
    define c where "c = take n1 p"
    have e: "(?i + 1) * 512 - m = 512 - m mod 512" "m mod 512 < 512" 
      using div_mult_mod_eq [of m 512] by (metis add_diff_cancel_left add.commute distrib_right mult_1, simp)
    have n1: "0 < n1" "n1 \<le> length p" "m mod 512 + n1 \<le> 512" and c: "length c = n1"
      using False e by (auto simp: n1_def c_def)
    have i: "?i < 140" using mx n1 by linarith
    have miss: "nsect (m + n1) = nsect m + missing D (img st) j0 ?i"
      using nsect_step [OF n1(1,3) i] fl j i unfolding filled_def missing_def m [symmetric] by (simp add: reach_def)
    have room1: "nsect (m + n1) \<le> nsect (m + length p)" using n1(2) by (intro nsect_mono) simp
    have "fb + missing D (img st) j0 ?i \<le> 1024" using room miss room1 by simp
    then obtain x d st1 st2 where fbk: "file_block ?i (D j0) st = Inr (x, d, st1)" and ux: "unat x < length (img st1)"
      and st2: "st2 = wsect x (put_at (m mod 512) c (img st1 ! unat x)) st1" and ds: "get32 d din_size = get32 (D j0) din_size"
      and lay: "layout (D(j0 := d)) (img st2) (fb + missing D (img st) j0 ?i) (fs[j0 := fs ! j0 @ c])"
      and fl2: "filled (D(j0 := d)) (img st2) (fs[j0 := fs ! j0 @ c])" and tk: "taken (missing D (img st) j0 ?i) st st2"
      using iappend_chunk [OF l fl f j m i, of c] n1 c by metis
    let ?D = "D(j0 := d)" and ?fb = "fb + missing D (img st) j0 ?i" and ?fs = "fs[j0 := fs ! j0 @ c]"
    have f2: "freeblock st2 = of_nat ?fb" using tk f by (simp add: taken_def)
    have "length (drop n1 p) < length p" using n1 False by simp
    moreover have "j0 < length ?fs" "length (?fs ! j0) = m + n1" using j m c by simp_all
    moreover have "m + n1 + length (drop n1 p) \<le> 140 * 512" using mx n1 by simp
    moreover have "?fb + nsect (m + n1 + length (drop n1 p)) \<le> 1024 + nsect (m + n1)" using room miss n1 by simp
    ultimately obtain d' st' where r: "iappend_loop (?D j0) (m + n1) (drop n1 p) st2 = Inr (d', m + n1 + length (drop n1 p), st')"
      "layout (?D(j0 := d')) (img st') (?fb + nsect (m + n1 + length (drop n1 p)) - nsect (m + n1)) (?fs[j0 := ?fs ! j0 @ drop n1 p])"
      "filled (?D(j0 := d')) (img st') (?fs[j0 := ?fs ! j0 @ drop n1 p])"
      "taken (nsect (m + n1 + length (drop n1 p)) - nsect (m + n1)) st2 st'" "get32 d' din_size = get32 (?D j0) din_size"
      using less(1) [OF _ lay fl2 f2] by blast
    have fs: "?fs[j0 := ?fs ! j0 @ drop n1 p] = fs[j0 := fs ! j0 @ p]" using j by (simp add: c_def)
    have D: "?D(j0 := d') = D(j0 := d')" by simp
    have len: "m + n1 + length (drop n1 p) = m + length p" using n1 by simp
    have "m - m div 512 * 512 = m mod 512" by (simp add: minus_div_mult_eq_mod)
    then have "iappend_loop (D j0) m p st = iappend_loop (?D j0) (m + n1) (drop n1 p) st2"
      using False i fbk ux unfolding st2 c_def n1_def
      by (subst iappend_loop.simps) (simp add: MAXFILE_def rsect_def Let_def)
    moreover have "taken (missing D (img st) j0 ?i + (nsect (m + length p) - nsect (m + n1))) st st'"
      using taken_trans [OF tk r(4)] len by simp
    moreover have "missing D (img st) j0 ?i + (nsect (m + length p) - nsect (m + n1)) = nsect (m + length p) - nsect m"
      "?fb + nsect (m + length p) - nsect (m + n1) = fb + nsect (m + length p) - nsect m"
      using miss room1 by simp_all
    ultimately show ?thesis using r ds unfolding fs D len by auto
  qed
qed

section \<open>Inodes in their sectors\<close>

definition inode_at :: "u8 list list \<Rightarrow> nat \<Rightarrow> u8 list" where
  "inode_at im j = take 64 (drop (64 * ((j + 1) mod 8)) (im ! ((j + 1) div 8 + 2)))"

lemma unat_i2b: "unat inum < 208 \<Longrightarrow> unat (i2b inum) = unat inum div 8 + 2"
  by (simp add: i2b_def IPB_def unat_add32_small unat_div)

lemma rinode_ok:
  assumes "j < 207" "length (img st) = 1024"
  shows "rinode (of_nat (j + 1)) st = Inr (inode_at (img st) j)"
proof -
  have u: "unat (of_nat (j + 1) :: u32) = j + 1" by (rule unat_of_nat_1024) (use assms in simp)
  have "unat (i2b (of_nat (j + 1))) = (j + 1) div 8 + 2" by (rule unat_i2b [of "of_nat (j + 1)", unfolded u]) (use assms in simp)
  then show ?thesis using assms u unfolding rinode_def rsect_def inode_at_def IPB_def by simp
qed

lemma winode_ok:
  assumes "j < 207" "length (img st) = 1024"
  defines "b \<equiv> (j + 1) div 8 + 2"
  shows "winode (of_nat (j + 1)) d st = Inr (st\<lparr>img := (img st)[b := put_at (64 * ((j + 1) mod 8)) d (img st ! b)]\<rparr>)"
    and "b < 28"
proof -
  show "b < 28" using assms(1) unfolding b_def by linarith
  have u: "unat (of_nat (j + 1) :: u32) = j + 1" by (rule unat_of_nat_1024) (use assms in simp)
  have "unat (i2b (of_nat (j + 1))) = b"
    unfolding b_def by (rule unat_i2b [of "of_nat (j + 1)", unfolded u]) (use assms in simp)
  then show "winode (of_nat (j + 1)) d st = Inr (st\<lparr>img := (img st)[b := put_at (64 * ((j + 1) mod 8)) d (img st ! b)]\<rparr>)"
    using assms(2) u \<open>b < 28\<close> unfolding winode_def rsect_def wsect_def IPB_def by (simp add: Let_def)
qed

lemma inode_at_put:
  assumes "length (im ! ((j0 + 1) div 8 + 2)) = 512" "length d = 64" "(j0 + 1) div 8 + 2 < length im"
  shows "inode_at (im[(j0 + 1) div 8 + 2 := put_at (64 * ((j0 + 1) mod 8)) d (im ! ((j0 + 1) div 8 + 2))]) j =
    (if j = j0 then d else inode_at im j)"
proof (cases "(j + 1) div 8 = (j0 + 1) div 8")
  case True
  let ?s = "im ! ((j0 + 1) div 8 + 2)" and ?o = "64 * ((j0 + 1) mod 8)" and ?p = "64 * ((j + 1) mod 8)"
  have o: "?o + 64 \<le> 512" "?p + 64 \<le> 512" by simp_all
  have "take 64 (drop ?p (put_at ?o d ?s)) = (if j = j0 then d else take 64 (drop ?p ?s))"
  proof (rule nth_equalityI)
    show "length (take 64 (drop ?p (put_at ?o d ?s))) = length (if j = j0 then d else take 64 (drop ?p ?s))"
      using assms o by simp
    fix i
    assume "i < length (take 64 (drop ?p (put_at ?o d ?s)))"
    then have i: "i < 64" by simp
    have ne: "j \<noteq> j0 \<Longrightarrow> ?p + 64 \<le> ?o \<or> ?o + 64 \<le> ?p"
    proof -
      assume "j \<noteq> j0"
      then have "(j + 1) mod 8 \<noteq> (j0 + 1) mod 8" using True by (metis add_right_cancel div_mult_mod_eq)
      then show ?thesis by (cases "(j + 1) mod 8 < (j0 + 1) mod 8") simp_all
    qed
    have "put_at ?o d ?s ! (?p + i) = (if ?o \<le> ?p + i \<and> ?p + i < ?o + 64 then d ! (?p + i - ?o) else ?s ! (?p + i))"
      using assms o i by (subst nth_put_at) auto
    then show "take 64 (drop ?p (put_at ?o d ?s)) ! i = (if j = j0 then d else take 64 (drop ?p ?s)) ! i"
      using ne i o assms by (cases "j = j0") auto
  qed
  then show ?thesis using True assms(3) by (auto simp: inode_at_def)
next
  case False
  then show ?thesis by (auto simp: inode_at_def)
qed

lemma length_inode_at: "length (im ! ((j + 1) div 8 + 2)) = 512 \<Longrightarrow> length (inode_at im j) = 64"
  by (simp add: inode_at_def)

text \<open>Slots depend on the block numbers of the inode and on the sectors above the inodes only.\<close>

lemma slot_cong:
  assumes "\<And>k. k \<le> 12 \<Longrightarrow> get32 (D' j) (din_addrs k) = get32 (D j) (din_addrs k)"
    "slot D im j 140 \<noteq> 0 \<Longrightarrow> im' ! slot D im j 140 = im ! slot D im j 140"
  shows "slot D' im' j i = slot D im j i"
  using assms(2) assms(1) [of i] assms(1) [of 12] by (auto simp: slot_def unat_eq_0)

lemma layout_cong:
  assumes l: "layout D im fb fs" and fl: "filled D im fs"
    and a: "\<And>j k. j < length fs \<Longrightarrow> k \<le> 12 \<Longrightarrow> get32 (D' j) (din_addrs k) = get32 (D j) (din_addrs k)"
    and b: "\<And>j. j < length fs \<Longrightarrow> length (D' j) = 64"
    and len: "\<And>b. b < 1024 \<Longrightarrow> length (im' ! b) = 512"
    and d: "\<And>b. 29 \<le> b \<Longrightarrow> im' ! b = im ! b" "length im' = length im"
  shows "layout D' im' fb fs" "filled D' im' fs"
    "j < length fs \<Longrightarrow> i \<le> 140 \<Longrightarrow> slot D' im' j i = slot D im j i"
proof -
  have g: "geometry D (length fs) im fb" and s: "slots D (length fs) im fb" and h: "holds D im fs"
    using l by (auto simp: layout_def)
  have sl: "slot D' im' j i = slot D im j i" if "j < length fs" for j i
    using a [OF that] slotsD(1) [OF s that, of 140] d(1) by (intro slot_cong) auto
  then show "j < length fs \<Longrightarrow> i \<le> 140 \<Longrightarrow> slot D' im' j i = slot D im j i" .
  have "geometry D' (length fs) im' fb" using g b d len unfolding geometry_def by auto
  moreover have "slots D' (length fs) im' fb" using s sl unfolding slots_def by auto
  moreover have "holds D' im' fs"
    unfolding holds_def
  proof (intro allI impI conjI)
    fix j k
    assume j: "j < length fs"
    then show "length (fs ! j) \<le> 140 * 512" using h by (auto simp: holds_def)
    assume k: "k < length (fs ! j)"
    have i: "k div 512 \<le> 140" and z: "slot D im j (k div 512) \<noteq> 0" using h j k unfolding holds_def by (force, blast)
    have "29 \<le> slot D im j (k div 512)" by (rule slotsD(1) [OF s j i z])
    then show "slot D' im' j (k div 512) \<noteq> 0" "im' ! slot D' im' j (k div 512) ! (k mod 512) = fs ! j ! k"
      using h j k sl [OF j] z d(1) unfolding holds_def by auto
  qed
  ultimately show "layout D' im' fb fs" by (simp add: layout_def)
  show "filled D' im' fs" using fl sl unfolding filled_def by auto
qed

section \<open>The image while it is built\<close>

text \<open>
  \<open>fs\<close> are the contents of the files so far, the root directory first: the inodes hold their lengths and
  their blocks, and the counters count the sectors.
\<close>

definition sects :: "u8 list list \<Rightarrow> nat" where
  "sects fs = sum_list (map (\<lambda>f. nsect (length f)) fs)"

definition image_ok :: "mkfs \<Rightarrow> u8 list list \<Rightarrow> bool" where
  "image_ok st fs \<longleftrightarrow> length fs \<le> 207 \<and> freeinode st = of_nat (length fs + 1) \<and>
     freeblock st = of_nat (29 + sects fs) \<and> usedblocks st = freeblock st \<and>
     layout (inode_at (img st)) (img st) (29 + sects fs) fs \<and>
     filled (inode_at (img st)) (img st) fs \<and>
     (\<forall>j<length fs. get32 (inode_at (img st) j) din_size = of_nat (length (fs ! j))) \<and>
     img st ! 1 = put_at 0 sb_bytes (replicate 512 0)"

lemma sum_list_update_nat:
  "j < length xs \<Longrightarrow> f (xs ! j) \<le> f y \<Longrightarrow>
   sum_list (map f (xs[j := y])) = sum_list (map f xs) + f y - (f (xs ! j) :: nat)"
proof (induction xs arbitrary: j)
  case (Cons x xs)
  then show ?case using member_le_sum_list [of "f (xs ! (j - 1))" "map f xs"] by (cases j) auto
qed simp

lemma sects_update:
  assumes "j < length fs"
  shows "sects (fs[j := fs ! j @ p]) = sects fs + (nsect (length (fs ! j) + length p) - nsect (length (fs ! j)))"
    "nsect (length (fs ! j)) \<le> sects fs" "nsect (length (fs ! j)) \<le> nsect (length (fs ! j) + length p)"
proof -
  show le: "nsect (length (fs ! j)) \<le> nsect (length (fs ! j) + length p)" by (simp add: nsect_mono)
  show m: "nsect (length (fs ! j)) \<le> sects fs" unfolding sects_def using assms by (intro member_le_sum_list) auto
  show "sects (fs[j := fs ! j @ p]) = sects fs + (nsect (length (fs ! j) + length p) - nsect (length (fs ! j)))"
    using sum_list_update_nat [OF assms, of "\<lambda>f. nsect (length f)" "fs ! j @ p"] le m unfolding sects_def by simp
qed

lemma image_okD:
  assumes "image_ok st fs"
  shows "length (img st) = 1024" "b < 1024 \<Longrightarrow> length (img st ! b) = 512"
  using assms geometryD(1,2) by (auto simp: image_ok_def layout_def)

text \<open>An inode written into its sector: no other inode changes, and nothing outside the inode sectors.\<close>

lemma winode_image:
  assumes j: "j < 207" and len: "length (img st) = 1024" "\<And>b. b < 1024 \<Longrightarrow> length (img st ! b) = 512" and d: "length d = 64"
  obtains im where "winode (of_nat (j + 1)) d st = Inr (st\<lparr>img := im\<rparr>)"
    "\<And>k. inode_at im k = (if k = j then d else inode_at (img st) k)" "\<And>c. 29 \<le> c \<Longrightarrow> im ! c = img st ! c"
    "length im = length (img st)" "\<And>c. c < 1024 \<Longrightarrow> length (im ! c) = 512" "im ! 1 = img st ! 1"
    "\<And>k. k < 207 \<Longrightarrow> length (inode_at im k) = 64"
proof -
  define b where "b = (j + 1) div 8 + 2"
  define im where "im = (img st)[b := put_at (64 * ((j + 1) mod 8)) d (img st ! b)]"
  have b: "b < 28" unfolding b_def by (rule winode_ok(2) [OF j len(1)])
  have "(j + 1) mod 8 \<le> 7" by simp
  then have fit: "64 * ((j + 1) mod 8) + length d \<le> length (img st ! b)" using len(2) [of b] b d by linarith
  have l: "length (im ! c) = 512" if "c < 1024" for c using that b len fit by (auto simp: im_def nth_list_update)
  show thesis
  proof (rule that)
    show "winode (of_nat (j + 1)) d st = Inr (st\<lparr>img := im\<rparr>)"
      using winode_ok(1) [OF j len(1), of d, folded b_def] by (simp add: im_def)
    show "inode_at im k = (if k = j then d else inode_at (img st) k)" for k
      using inode_at_put [of "img st" j d k, folded b_def] len b d by (simp add: im_def)
    show "length (inode_at im k) = 64" if "k < 207" for k using that by (intro length_inode_at l) linarith
  qed (use b l in \<open>auto simp: im_def b_def\<close>)
qed

lemma iappend_ok:
  assumes ok: "image_ok st fs" and j: "j < length fs" and mx: "length (fs ! j) + length p \<le> 140 * 512"
    and room: "29 + sects (fs[j := fs ! j @ p]) \<le> 1024"
  shows "\<exists>st'. iappend (of_nat (j + 1)) p st = Inr st' \<and> image_ok st' (fs[j := fs ! j @ p])"
proof -
  let ?m = "length (fs ! j)" and ?fs = "fs[j := fs ! j @ p]" and ?F = "29 + sects fs"
  let ?F' = "29 + sects (fs[j := fs ! j @ p])"
  let ?D = "inode_at (img st)"
  note I = ok [unfolded image_ok_def]
  note su = sects_update(1,3) [OF j, of p] sects_update(2) [OF j]
  have F': "?F' = ?F + nsect (?m + length p) - nsect ?m" "?F + nsect (?m + length p) \<le> 1024 + nsect ?m"
    using su room by simp_all
  have lay: "layout ?D (img st) ?F fs" "filled ?D (img st) fs" "freeblock st = of_nat ?F" using I by auto
  obtain d st1 where l: "iappend_loop (?D j) ?m p st = Inr (d, ?m + length p, st1)" "layout (?D(j := d)) (img st1) ?F' ?fs"
    "filled (?D(j := d)) (img st1) ?fs" "taken (nsect (?m + length p) - nsect ?m) st st1" "get32 d din_size = get32 (?D j) din_size"
    using iappend_loop_ok [OF lay j refl mx F'(2)] F'(1) by auto
  define d2 where "d2 = put_at din_size (xint (of_nat (?m + length p))) d"
  have j7: "j < 207" using I j by simp
  have g1: "geometry (?D(j := d)) (length fs) (img st1) ?F'" using l(2) by (simp add: layout_def)
  have len1: "length (img st1) = 1024" "\<And>b. b < 1024 \<Longrightarrow> length (img st1 ! b) = 512" "length d = 64"
    using geometryD(1,2) [OF g1] geometryD(3) [OF g1 j] by auto
  have d2: "length d2 = 64" "get32 d2 din_size = of_nat (?m + length p)"
    "k \<le> 12 \<Longrightarrow> get32 d2 (din_addrs k) = get32 d (din_addrs k)" for k
    using len1(3) unfolding d2_def by (auto simp: din_size_def din_addrs_def get32_put_same get32_put_other)
  obtain im where w: "winode (of_nat (j + 1)) d2 st1 = Inr (st1\<lparr>img := im\<rparr>)"
    and ia: "\<And>k. inode_at im k = (if k = j then d2 else inode_at (img st1) k)"
    and im2: "\<And>c. 29 \<le> c \<Longrightarrow> im ! c = img st1 ! c" "length im = length (img st1)" "\<And>c. c < 1024 \<Longrightarrow> length (im ! c) = 512"
    and im1: "im ! 1 = img st1 ! 1" and iln: "\<And>k. k < 207 \<Longrightarrow> length (inode_at im k) = 64"
    using winode_image [OF j7 len1(1,2) d2(1)] by blast
  define st2 where "st2 = st1\<lparr>img := im\<rparr>"
  have meta: "inode_at (img st1) j' = ?D j'" if "j' < length fs" for j'
  proof -
    have "(j' + 1) div 8 + 2 < 29" using I that by linarith
    then show ?thesis using l(4) by (simp add: taken_def same_meta_def inode_at_def)
  qed
  have ic: "get32 (inode_at im j') (din_addrs k) = get32 ((?D(j := d)) j') (din_addrs k)"
    if "j' < length ?fs" "k \<le> 12" for j' k using that ia [of j'] meta [of j'] d2(3) by auto
  have il: "length (inode_at im j') = 64" if "j' < length ?fs" for j' using I that by (intro iln) simp
  note lc = layout_cong [OF l(2,3) ic il im2(3,1,2)]
  have "unat (get32 (?D j) din_size) = ?m" using I j mx by (auto intro!: unat_of_nat32)
  then have "iappend (of_nat (j + 1)) p st = Inr st2"
    using rinode_ok [OF j7 image_okD(1) [OF ok]] l(1) w unfolding iappend_def d2_def st2_def by simp
  moreover have "image_ok st2 ?fs" unfolding image_ok_def
  proof (intro conjI allI impI)
    show "length ?fs \<le> 207" using I by simp
    show "freeinode st2 = of_nat (length ?fs + 1)" using I l(4) by (simp add: st2_def taken_def)
    have t: "freeblock st2 = freeblock st + of_nat (nsect (?m + length p) - nsect ?m)"
      "usedblocks st2 = usedblocks st + of_nat (nsect (?m + length p) - nsect ?m)"
      using l(4) by (simp_all add: st2_def taken_def)
    have "?F' = ?F + (nsect (?m + length p) - nsect ?m)" using su by simp
    then show "freeblock st2 = of_nat ?F'" using t(1) lay(3) by (metis of_nat_add)
    show "usedblocks st2 = freeblock st2" using t I by simp
    show "layout (inode_at (img st2)) (img st2) ?F' ?fs" using lc(1) by (simp add: st2_def)
    show "filled (inode_at (img st2)) (img st2) ?fs" using lc(2) by (simp add: st2_def)
    show "img st2 ! 1 = put_at 0 sb_bytes (replicate 512 0)"
      using I l(4) im1 by (simp add: st2_def taken_def same_meta_def)
    fix j'
    assume "j' < length ?fs"
    then show "get32 (inode_at (img st2) j') din_size = of_nat (length (?fs ! j'))"
      unfolding st2_def using ia [of j'] meta [of j'] d2(2) I by (cases "j' = j") auto
  qed
  ultimately show ?thesis by blast
qed

lemma layout_new:
  assumes l: "layout D im fb fs" "filled D im fs" and d: "length (D (length fs)) = 64"
    and z: "\<And>k. k \<le> 12 \<Longrightarrow> get32 (D (length fs)) (din_addrs k) = 0"
  shows "layout D im fb (fs @ [[]])" "filled D im (fs @ [[]])"
proof -
  have sl: "slot D im (length fs) i = 0" for i using z [of i] z [of 12] by (auto simp: slot_def)
  show "layout D im fb (fs @ [[]])"
    using l d sl unfolding layout_def geometry_def slots_def holds_def
    by (auto simp: less_Suc_eq nth_append)
  show "filled D im (fs @ [[]])" using l(2) sl unfolding filled_def by (auto simp: less_Suc_eq nth_append)
qed

lemma ialloc_ok:
  assumes ok: "image_ok st fs" and n: "length fs < 207"
  shows "\<exists>st'. ialloc ty st = Inr (of_nat (length fs + 1), st') \<and> image_ok st' (fs @ [[]])"
proof -
  let ?n = "length fs"
  note I = ok [unfolded image_ok_def]
  define d where "d = put_at din_size (xint 0) (put_at din_nlink (xshort 1) (put_at din_type (xshort ty) (replicate 64 0)))"
  have d: "length d = 64" by (simp add: d_def din_size_def din_nlink_def din_type_def)
  have dz: "get32 d (din_addrs k) = 0" if "k \<le> 12" for k
    using that unfolding d_def by (simp add: get32_put_other din_size_def din_nlink_def din_type_def din_addrs_def)
  have ds: "get32 d din_size = 0"
    unfolding d_def by (simp add: get32_put_same din_size_def din_nlink_def din_type_def)
  define st1 where "st1 = st\<lparr>freeinode := freeinode st + 1\<rparr>"
  have len: "length (img st1) = 1024" "\<And>b. b < 1024 \<Longrightarrow> length (img st1 ! b) = 512"
    using image_okD [OF ok] by (simp_all add: st1_def)
  obtain im where wi: "winode (of_nat (?n + 1)) d st1 = Inr (st1\<lparr>img := im\<rparr>)"
    and ia': "\<And>k. inode_at im k = (if k = ?n then d else inode_at (img st1) k)"
    and im: "\<And>c. 29 \<le> c \<Longrightarrow> im ! c = img st1 ! c" "length im = length (img st1)" "\<And>c. c < 1024 \<Longrightarrow> length (im ! c) = 512"
    and im1: "im ! 1 = img st1 ! 1" and iln: "\<And>k. k < 207 \<Longrightarrow> length (inode_at im k) = 64"
    using winode_image [OF n len d] by blast
  define st2 where "st2 = st1\<lparr>img := im\<rparr>"
  have w: "ialloc ty st = Inr (of_nat (?n + 1), st2)"
    using wi I unfolding ialloc_def Let_def st1_def [symmetric] d_def [symmetric] st2_def by (simp add: st1_def)
  have ia: "inode_at (img st2) j = (if j = ?n then d else inode_at (img st) j)" for j using ia' by (simp add: st2_def st1_def)
  have im2: "\<And>c. 29 \<le> c \<Longrightarrow> img st2 ! c = img st ! c" "length (img st2) = length (img st)"
    "\<And>c. c < 1024 \<Longrightarrow> length (img st2 ! c) = 512" using im by (simp_all add: st2_def st1_def)
  have il: "length (inode_at (img st2) j) = 64" if "j \<le> ?n" for j using iln n that by (simp add: st2_def)
  have lay: "layout (inode_at (img st)) (img st) (29 + sects fs) fs" "filled (inode_at (img st)) (img st) fs" using I by auto
  have ic: "get32 (inode_at (img st2) j) (din_addrs k) = get32 (inode_at (img st) j) (din_addrs k)" if "j < ?n" "k \<le> 12" for j k
    using that ia [of j] by simp
  note lc = layout_cong(1,2) [OF lay ic il [OF less_imp_le] im2(3,1,2)]
  note ln = layout_new [OF lc]
  have sz: "sects (fs @ [[]]) = sects fs" by (simp add: sects_def nsect_def)
  have "image_ok st2 (fs @ [[]])" unfolding image_ok_def sz
  proof (intro conjI allI impI)
    show "layout (inode_at (img st2)) (img st2) (29 + sects fs) (fs @ [[]])"
      using ia [of ?n] d dz by (intro ln(1)) auto
    show "filled (inode_at (img st2)) (img st2) (fs @ [[]])" using ia [of ?n] d dz by (intro ln(2)) auto
    fix j
    assume "j < length (fs @ [[]])"
    then show "get32 (inode_at (img st2) j) din_size = of_nat (length ((fs @ [[]]) ! j))"
      using ia [of j] ds I by (auto simp: nth_append)
  qed (use I n im1 in \<open>auto simp: st2_def st1_def\<close>)
  with w show ?thesis by blast
qed

lemma sects_le:
  "j < length fs \<Longrightarrow> length (fs ! j) + length p \<le> length (fs ! j) + length q \<Longrightarrow>
   sects (fs[j := fs ! j @ p]) \<le> sects (fs[j := fs ! j @ q])"
  using sects_update(1) [of j fs p] sects_update(1) [of j fs q] nsect_mono [of "length (fs ! j) + length p" "length (fs ! j) + length q"]
  by simp

lemma append_all_ok:
  "image_ok st fs \<Longrightarrow> j < length fs \<Longrightarrow> length (fs ! j) + length (concat cs) \<le> 140 * 512 \<Longrightarrow>
   29 + sects (fs[j := fs ! j @ concat cs]) \<le> 1024 \<Longrightarrow>
   \<exists>st'. append_all (of_nat (j + 1)) cs st = Inr st' \<and> image_ok st' (fs[j := fs ! j @ concat cs])"
proof (induction cs arbitrary: st fs)
  case Nil
  then show ?case by simp
next
  case (Cons c cs)
  have "sects (fs[j := fs ! j @ c]) \<le> sects (fs[j := fs ! j @ concat (c # cs)])" using Cons(3) by (intro sects_le) auto
  then obtain st1 where 1: "iappend (of_nat (j + 1)) c st = Inr st1" "image_ok st1 (fs[j := fs ! j @ c])"
    using iappend_ok [OF Cons(2,3), of c] Cons(4,5) by auto
  obtain st' where "append_all (of_nat (j + 1)) cs st1 = Inr st'" "image_ok st' (fs[j := fs ! j @ concat (c # cs)])"
    using Cons(1) [OF 1(2)] Cons(3,4,5) by auto
  then show ?case using 1(1) by auto
qed

section \<open>The finished image\<close>

text \<open>What the image should hold: the root directory, then the files, by inode number.\<close>

definition add_spec :: "u8 list list \<Rightarrow> hostfile \<Rightarrow> u8 list list" where
  "add_spec fs f = fs[0 := fs ! 0 @ dirent (of_nat (length fs + 1)) (strip (fst f))] @ [concat (the (snd f))]"

definition mkfs_spec :: "hostfile list \<Rightarrow> u8 list list" where
  "mkfs_spec files = foldl add_spec [dirent ROOTINO ''.'' @ dirent ROOTINO ''..''] files"

definition fits :: "hostfile \<Rightarrow> bool" where
  "fits f \<longleftrightarrow> CHR ''/'' \<notin> set (fst f) \<and> (\<exists>cs. snd f = Some cs \<and> length (concat cs) \<le> 140 * 512)"

lemma length_dirent [simp]: "length (dirent i nm) = 16"
  by (simp add: dirent_def DIRSIZ_def)

lemma sects_append [simp]: "sects (a @ b) = sects a + sects b"
  by (simp add: sects_def)

lemma sects_grow: "j < length fs \<Longrightarrow> sects fs \<le> sects (fs[j := fs ! j @ p])"
  using sects_update(1) [of j fs p] by simp

lemma add_file_ok:
  assumes ok: "image_ok st fs" and n: "0 < length fs" "length fs < 207" and r: "length (fs ! 0) = 16 * (length fs + 1)"
    and f: "fits f" and room: "29 + sects (add_spec fs f) \<le> 1024"
  shows "\<exists>st'. add_file f st = Inr st' \<and> image_ok st' (add_spec fs f)"
proof -
  let ?i = "of_nat (length fs + 1) :: u32" and ?d = "dirent (of_nat (length fs + 1)) (strip (fst f))"
  let ?g = "fs[0 := fs ! 0 @ ?d]"
  obtain cs where cs: "snd f = Some cs" "length (concat cs) \<le> 140 * 512" "CHR ''/'' \<notin> set (fst f)"
    using f by (auto simp: fits_def)
  obtain st1 where 1: "ialloc (word_of_int T_FILE) st = Inr (?i, st1)" "image_ok st1 (fs @ [[]])"
    using ialloc_ok [OF ok n(2)] by blast
  have z: "sects [[]] = 0" by (simp add: sects_def nsect_def)
  have g: "(fs @ [[]])[0 := (fs @ [[]]) ! 0 @ ?d] = ?g @ [[]]" using n(1) by (simp add: nth_append list_update_append)
  have s: "29 + sects ?g \<le> 1024" using room by (simp add: add_spec_def)
  obtain st2 where 2: "iappend (of_nat (0 + 1)) ?d st1 = Inr st2" "image_ok st2 (?g @ [[]])"
    using iappend_ok [OF 1(2), of 0 ?d] n r s z unfolding g by (auto simp: nth_append)
  have h: "(?g @ [[]])[length fs := (?g @ [[]]) ! length fs @ concat cs] = add_spec fs f"
    using cs(1) by (simp add: add_spec_def nth_append list_update_append)
  obtain st3 where "append_all ?i cs st2 = Inr st3" "image_ok st3 (add_spec fs f)"
    using append_all_ok [OF 2(2), of "length fs" cs] cs(2) room unfolding h by (auto simp: nth_append)
  then show ?thesis using cs 1(1) 2(1) by (auto simp: add_file_def ROOTINO_def)
qed

lemma length_add_spec [simp]: "length (add_spec fs f) = Suc (length fs)"
  by (simp add: add_spec_def)

lemma root_add_spec: "0 < length fs \<Longrightarrow> length (add_spec fs f ! 0) = length (fs ! 0) + 16"
  by (simp add: add_spec_def nth_append)

lemma sects_add_spec: "0 < length fs \<Longrightarrow> sects fs \<le> sects (add_spec fs f)"
  using sects_grow [of 0 fs] by (simp add: add_spec_def trans_le_add1)

lemma sects_foldl: "0 < length fs \<Longrightarrow> sects fs \<le> sects (foldl add_spec fs files)"
proof (induction files arbitrary: fs)
  case (Cons f files)
  then show ?case using sects_add_spec [OF Cons(2), of f] Cons(1) [of "add_spec fs f"] by simp
qed simp

lemma length_foldl_spec: "length (foldl add_spec fs files) = length fs + length files"
  by (induction files arbitrary: fs) auto

lemma root_foldl: "0 < length fs \<Longrightarrow> length (foldl add_spec fs files ! 0) = length (fs ! 0) + 16 * length files"
proof (induction files arbitrary: fs)
  case (Cons f files)
  then show ?case using root_add_spec [OF Cons(2), of f] Cons(1) [of "add_spec fs f"] by simp
qed simp

lemma add_files_ok:
  "image_ok st fs \<Longrightarrow> 0 < length fs \<Longrightarrow> length fs + length files \<le> 207 \<Longrightarrow> length (fs ! 0) = 16 * (length fs + 1) \<Longrightarrow>
   \<forall>f\<in>set files. fits f \<Longrightarrow> 29 + sects (foldl add_spec fs files) \<le> 1024 \<Longrightarrow>
   \<exists>st'. add_files files st = Inr st' \<and> image_ok st' (foldl add_spec fs files)"
proof (induction files arbitrary: st fs)
  case Nil
  then show ?case by simp
next
  case (Cons f files)
  have "sects (add_spec fs f) \<le> sects (foldl add_spec (add_spec fs f) files)" by (rule sects_foldl) simp
  then obtain st1 where 1: "add_file f st = Inr st1" "image_ok st1 (add_spec fs f)"
    using add_file_ok [OF Cons(2,3), of f] Cons(4-7) by auto
  show ?case using Cons(1) [OF 1(2)] Cons(3-7) 1(1) root_add_spec [OF Cons(3), of f] by auto
qed

lemma zero_sects_upt:
  "k \<le> n \<Longrightarrow> n \<le> 1024 \<Longrightarrow> length (img st) = k \<Longrightarrow>
   zero_sects [k..<n] st = st\<lparr>img := img st @ replicate (n - k) (replicate 512 0)\<rparr>"
proof (induction "n - k" arbitrary: k st)
  case 0
  then show ?case by simp
next
  case (Suc m)
  have u: "unat (of_nat k :: u32) = k" by (rule unat_of_nat_1024) (use Suc in simp)
  have "[k..<n] = k # [Suc k..<n]" using Suc(2) by (simp add: upt_conv_Cons)
  moreover have "wsect (of_nat k) (replicate 512 0) st = st\<lparr>img := img st @ [replicate 512 0]\<rparr>"
    using u Suc(5) by (simp add: wsect_def Let_def)
  moreover have "n - k = Suc (n - Suc k)" using Suc(2) by simp
  ultimately show ?case using Suc(1) [of "Suc k" "st\<lparr>img := img st @ [replicate 512 0]\<rparr>"] Suc(2-5)
    by (simp add: replicate_append_same [symmetric])
qed

lemma start_ok:
  assumes "img st = (replicate 1024 (replicate 512 0))[1 := put_at 0 sb_bytes (replicate 512 0)]"
    "freeblock st = 29" "usedblocks st = 29" "freeinode st = 1"
  shows "image_ok st []"
  using assms
  by (auto simp: image_ok_def layout_def geometry_def slots_def holds_def filled_def sects_def nth_list_update sb_bytes_def)

lemma mark_bits_bit:
  "\<forall>i\<in>set is. i < 4096 \<Longrightarrow> length buf = 512 \<Longrightarrow> b < 4096 \<Longrightarrow>
   bit (mark_bits is buf ! (b div 8)) (b mod 8) = (b \<in> set is \<or> bit (buf ! (b div 8)) (b mod 8))"
proof (induction "is" arbitrary: buf)
  case (Cons i is')
  have "i div 8 < 512" using Cons(2) by auto
  moreover have "i div 8 = b div 8 \<and> i mod 8 = b mod 8 \<longleftrightarrow> i = b" by (metis div_mult_mod_eq)
  ultimately show ?case using Cons by (auto simp: nth_list_update bit_simps)
qed simp

lemma length_mark_bits [simp]: "length (mark_bits is buf) = length buf"
  by (induction "is" buf rule: mark_bits.induct) auto

text \<open>Reading the image: the size of an inode, its bytes through its blocks, and the bits of the bitmap.\<close>

definition file_size :: "u8 list list \<Rightarrow> nat \<Rightarrow> nat" where
  "file_size im j = unat (get32 (inode_at im j) din_size)"

definition file_bytes :: "u8 list list \<Rightarrow> nat \<Rightarrow> nat \<Rightarrow> u8 list" where
  "file_bytes im j n = map (\<lambda>k. im ! slot (inode_at im) im j (k div 512) ! (k mod 512)) [0..<n]"

definition marked :: "u8 list list \<Rightarrow> nat \<Rightarrow> bool" where
  "marked im b = bit (im ! 28 ! (b div 8)) (b mod 8)"

lemma fix_root_ok:
  assumes ok: "image_ok st fs" and n: "0 < length fs" and r: "length (fs ! 0) \<le> 4096"
  shows "\<exists>st'. fix_root st = Inr st' \<and> length (img st') = 1024 \<and> (\<forall>c<1024. length (img st' ! c) = 512) \<and>
    (\<forall>c. c \<noteq> 2 \<longrightarrow> img st' ! c = img st ! c) \<and> usedblocks st' = usedblocks st \<and>
    (\<forall>j k. k \<le> 12 \<longrightarrow> get32 (inode_at (img st') j) (din_addrs k) = get32 (inode_at (img st) j) (din_addrs k)) \<and>
    (\<forall>j. get32 (inode_at (img st') j) din_size =
      (if j = 0 then of_nat ((length (fs ! 0) div 512 + 1) * 512) else get32 (inode_at (img st) j) din_size))"
proof -
  note I = ok [unfolded image_ok_def]
  note len = image_okD [OF ok]
  let ?d = "inode_at (img st) 0" and ?sz = "of_nat ((length (fs ! 0) div 512 + 1) * 512) :: u32"
  define d where "d = put_at din_size (xint ?sz) ?d"
  have ld: "length ?d = 64" using len(2) by (intro length_inode_at) simp
  then have d: "length d = 64" "get32 d din_size = ?sz" "k \<le> 12 \<Longrightarrow> get32 d (din_addrs k) = get32 ?d (din_addrs k)" for k
    unfolding d_def by (auto simp: din_size_def din_addrs_def get32_put_same get32_put_other)
  have "get32 ?d din_size = of_nat (length (fs ! 0))" using I n by auto
  moreover have "(of_nat (length (fs ! 0)) div 512 + 1) * 512 = ?sz"
  proof -
    have "(of_nat (length (fs ! 0)) :: u32) div 512 = of_nat (length (fs ! 0) div 512)"
      using r by (intro word32_eq_iff [THEN iffD2]) (simp add: unat_div unat_of_nat32)
    then show ?thesis by simp
  qed
  ultimately have e: "(get32 ?d din_size div 512 + 1) * 512 = ?sz" by simp
  define b where "b = (0 + 1) div 8 + (2 :: nat)"
  have b: "b = 2" by (simp add: b_def)
  define st2 where "st2 = st\<lparr>img := (img st)[b := put_at (64 * ((0 + 1) mod 8)) d (img st ! b)]\<rparr>"
  have w: "winode (of_nat (0 + 1)) d st = Inr st2"
    using winode_ok(1) [of 0 st d, folded b_def, folded st2_def] len(1) by simp
  have f: "fix_root st = Inr st2"
  proof -
    have "rinode ROOTINO st = Inr ?d" using rinode_ok [of 0 st] len(1) by (simp add: ROOTINO_def)
    moreover have "winode ROOTINO d st = Inr st2" using w by (simp add: ROOTINO_def)
    ultimately show ?thesis unfolding d_def by (simp only: fix_root_def bindR_simps Let_def e)
  qed
  have ia: "inode_at (img st2) j = (if j = 0 then d else inode_at (img st) j)" for j
    using inode_at_put [of "img st" 0 d j, folded b_def] len d(1) b by (simp add: st2_def)
  show ?thesis
    by (intro exI [of _ st2] conjI f) (use len d ia b in \<open>auto simp: st2_def nth_list_update\<close>)
qed

text \<open>The last steps, from an image with the files \<open>fs\<close>: the size of the directory, and the bitmap.\<close>

lemma mkfs_finish:
  assumes ok: "image_ok s4 fs" and n: "length fs \<le> 207" and ln: "fs \<noteq> []" and root: "length (fs ! 0) \<le> 4096"
    and room: "29 + sects fs \<le> 1024"
  shows "\<exists>s5 st. fix_root s4 = Inr s5 \<and> balloc (unat (usedblocks s5)) s5 = Inr st \<and> length (img st) = 1024 \<and>
    (\<forall>c<1024. length (img st ! c) = 512) \<and> take 16 (img st ! 1) = sb_bytes \<and>
    (\<forall>j<length fs. file_bytes (img st) j (length (fs ! j)) = fs ! j \<and>
       file_size (img st) j = (if j = 0 then (length (fs ! 0) div 512 + 1) * 512 else length (fs ! j))) \<and>
    slots (inode_at (img st)) (length fs) (img st) (29 + sects fs) \<and> (\<forall>b<4096. marked (img st) b \<longleftrightarrow> b < 29 + sects fs)"
proof -
  let ?u = "29 + sects fs"
  note I = ok [unfolded image_ok_def]
  obtain s5 where 5: "fix_root s4 = Inr s5" "length (img s5) = 1024" "\<And>c. c < 1024 \<Longrightarrow> length (img s5 ! c) = 512"
    "\<And>c. c \<noteq> 2 \<Longrightarrow> img s5 ! c = img s4 ! c" "usedblocks s5 = usedblocks s4"
    "\<And>j k. k \<le> 12 \<Longrightarrow> get32 (inode_at (img s5) j) (din_addrs k) = get32 (inode_at (img s4) j) (din_addrs k)"
    "\<And>j. get32 (inode_at (img s5) j) din_size =
      (if j = 0 then of_nat ((length (fs ! 0) div 512 + 1) * 512) else get32 (inode_at (img s4) j) din_size)"
    using fix_root_ok [OF ok _ root] ln by auto
  define bm where "bm = mark_bits [0..<?u] (replicate 512 0)"
  define s6 where "s6 = s5\<lparr>img := (img s5)[28 := bm]\<rparr>"
  have used: "unat (usedblocks s5) = ?u" using I 5(5) room by (simp only: unat_of_nat_1024)
  have 6: "balloc (unat (usedblocks s5)) s5 = Inr s6"
    using room 5(2) by (simp add: used balloc_def s6_def bm_def wsect_def Let_def ninodes_def IPB_def)
  have ia: "inode_at (img s6) j = inode_at (img s5) j" if "j < length fs" for j
  proof -
    have "(j + 1) div 8 + 2 \<noteq> 28" using that n by linarith
    then show ?thesis by (simp add: inode_at_def s6_def)
  qed
  have im: "\<And>c. 29 \<le> c \<Longrightarrow> img s6 ! c = img s4 ! c" "length (img s6) = length (img s4)"
    "\<And>c. c < 1024 \<Longrightarrow> length (img s6 ! c) = 512"
    using 5(2,3,4) image_okD(1) [OF ok] by (auto simp: s6_def nth_list_update bm_def)
  have il: "length (inode_at (img s6) j) = 64" if "j < length fs" for j
  proof -
    have "(j + 1) div 8 + 2 < 1024" using that n by linarith
    then show ?thesis by (intro length_inode_at im(3))
  qed
  have lay: "layout (inode_at (img s4)) (img s4) ?u fs" "filled (inode_at (img s4)) (img s4) fs" using I by auto
  have lc: "layout (inode_at (img s6)) (img s6) ?u fs"
    by (rule layout_cong(1) [OF lay _ il im(3,1,2)]) (use ia 5(6) in auto)
  have bytes: "file_bytes (img s6) j (length (fs ! j)) = fs ! j" if "j < length fs" for j
    using lc that unfolding layout_def holds_def file_bytes_def by (intro nth_equalityI) auto
  have sizes: "file_size (img s6) j = (if j = 0 then (length (fs ! 0) div 512 + 1) * 512 else length (fs ! j))"
    if "j < length fs" for j
  proof -
    have l: "length (fs ! j) \<le> 140 * 512" using lc that by (auto simp: layout_def holds_def)
    have u: "unat (of_nat m :: u32) = m" if "m \<le> 140 * 512" for m using that by (simp add: unat_of_nat32)
    have "(length (fs ! 0) div 512 + 1) * 512 \<le> 140 * 512" using div_le_mono [OF root, of 512] by simp
    from u [OF this] u [OF l] show ?thesis
      using ia [OF that] 5(7) [of j] I that unfolding file_size_def by (cases "j = 0") simp_all
  qed
  have bits: "marked (img s6) b \<longleftrightarrow> b < ?u" if "b < 4096" for b
  proof -
    have "bit (mark_bits [0..<?u] (replicate 512 0) ! (b div 8)) (b mod 8) = (b \<in> set [0..<?u] \<or> bit (replicate 512 0 ! (b div 8) :: u8) (b mod 8))"
      by (rule mark_bits_bit) (use room that in auto)
    then show ?thesis using that 5(2) by (simp add: marked_def s6_def bm_def)
  qed
  have sb1: "take 16 (img s6 ! 1) = sb_bytes"
    using I 5(4) [of 1] by (simp add: s6_def put_at_def sb_bytes_def)
  show ?thesis using 5(1) 6 lc im(2,3) image_okD(1) [OF ok] sb1 bytes sizes bits
    by (intro exI [of _ s5] exI [of _ s6]) (auto simp: layout_def)
qed

text \<open>
  C3: \<^verbatim>\<open>mkfs\<close> builds the image. For up to 206 host files with names without slash, each of at most 140 blocks,
  whatever the sizes of the reads that return their bytes, if all blocks (with the indirect blocks) fit
  into 1024 sectors, the program ends, and the image has 1024 sectors of 512 bytes with the superblock in sector
  1. Inode \<open>j + 1\<close> holds exactly the bytes it should: the root directory has an entry for itself twice and
  one for every file, in order, with its inode number and its name (without a leading underscore, cut to 14
  bytes), every other inode the bytes of its file; sizes are exact, and the directory's is rounded up. No
  sector belongs to two blocks, none lies below sector 29, and the bitmap marks exactly the sectors in use.
\<close>

theorem mkfs_builds_image:
  assumes n: "length files \<le> 206" and f: "\<forall>f\<in>set files. fits f" and room: "29 + sects (mkfs_spec files) \<le> 1024"
  shows "\<exists>st. mkfs_main files = Inr st \<and> length (img st) = 1024 \<and> (\<forall>c<1024. length (img st ! c) = 512) \<and>
    take 16 (img st ! 1) = sb_bytes \<and>
    (\<forall>j<length files + 1. file_bytes (img st) j (length (mkfs_spec files ! j)) = mkfs_spec files ! j \<and>
       file_size (img st) j = (if j = 0 then (length (mkfs_spec files ! 0) div 512 + 1) * 512 else length (mkfs_spec files ! j))) \<and>
    slots (inode_at (img st)) (length files + 1) (img st) (29 + sects (mkfs_spec files)) \<and>
    (\<forall>b<4096. marked (img st) b \<longleftrightarrow> b < 29 + sects (mkfs_spec files))"
proof -
  let ?fs = "mkfs_spec files" and ?root = "dirent ROOTINO ''.'' @ dirent ROOTINO ''..''"
  let ?st0 = "\<lparr>img = [], freeblock = 29, usedblocks = 29, freeinode = 1\<rparr>"
  define sb where "sb = wsect 1 (put_at 0 sb_bytes (replicate 512 0)) (zero_sects [0..<1024] ?st0)"
  have 0: "image_ok sb []"
    by (rule start_ok) (simp_all add: sb_def zero_sects_upt wsect_def Let_def)
  obtain s1 where 1: "ialloc (word_of_int T_DIR) sb = Inr (1, s1)" "image_ok s1 [[]]"
    using ialloc_ok [OF 0] by auto
  have small: "nsect 16 = 1" "nsect 32 = 1" by (simp_all add: nsect_def)
  obtain s2 where 2: "iappend 1 (dirent ROOTINO ''.'') s1 = Inr s2" "image_ok s2 [dirent ROOTINO ''.'']"
    using iappend_ok [OF 1(2), of 0 "dirent ROOTINO ''.''"] small by (auto simp: sects_def)
  obtain s3 where 3: "iappend 1 (dirent ROOTINO ''..'') s2 = Inr s3" "image_ok s3 [?root]"
    using iappend_ok [OF 2(2), of 0 "dirent ROOTINO ''..''"] small by (auto simp: sects_def)
  obtain s4 where 4: "add_files files s3 = Inr s4" "image_ok s4 ?fs"
    using add_files_ok [OF 3(2)] n f room by (auto simp: mkfs_spec_def)
  have ln: "length ?fs = length files + 1" by (simp add: mkfs_spec_def length_foldl_spec)
  have root: "length (?fs ! 0) \<le> 4096" using n by (simp add: mkfs_spec_def root_foldl)
  have n': "length ?fs \<le> 207" "?fs \<noteq> []" using ln n by auto
  obtain s5 st where 5: "fix_root s4 = Inr s5" "balloc (unat (usedblocks s5)) s5 = Inr st" and r: "length (img st) = 1024 \<and>
    (\<forall>c<1024. length (img st ! c) = 512) \<and> take 16 (img st ! 1) = sb_bytes \<and>
    (\<forall>j<length ?fs. file_bytes (img st) j (length (?fs ! j)) = ?fs ! j \<and>
       file_size (img st) j = (if j = 0 then (length (?fs ! 0) div 512 + 1) * 512 else length (?fs ! j))) \<and>
    slots (inode_at (img st)) (length ?fs) (img st) (29 + sects ?fs) \<and> (\<forall>b<4096. marked (img st) b \<longleftrightarrow> b < 29 + sects ?fs)"
    using mkfs_finish [OF 4(2) n' root room] by blast
  have "mkfs_main files = Inr st"
    using 1(1) 2(1) 3(1) 4(1) 5 unfolding sb_def mkfs_main_def
    by (simp add: nblocks_def fssize_def ninodes_def nlog_def LOGSIZE_def IPB_def ROOTINO_def Let_def)
  with r show ?thesis unfolding ln by blast
qed

theorem mkfs_builds_image_witness:
  "\<exists>st. mkfs_main [(''_cat'', Some [[1, 2, 3], [4]])] = Inr st \<and> file_bytes (img st) 1 4 = [1, 2, 3, 4] \<and>
     file_size (img st) 0 = 512 \<and> marked (img st) 30 \<and> \<not> marked (img st) 31"
proof -
  let ?f = "[(''_cat'', Some [[1, 2, 3], [4]])] :: hostfile list"
  have spec: "mkfs_spec ?f = [dirent 1 ''.'' @ dirent 1 ''..'' @ dirent 2 ''cat'', [1, 2, 3, 4]]"
    by (simp add: mkfs_spec_def add_spec_def strip_def ROOTINO_def)
  have s: "sects (mkfs_spec ?f) = 2" unfolding spec by (simp add: sects_def nsect_def)
  have f: "\<forall>f\<in>set ?f. fits f" by (simp add: fits_def)
  obtain st where st: "mkfs_main ?f = Inr st"
    "\<And>j. j < 2 \<Longrightarrow> file_bytes (img st) j (length (mkfs_spec ?f ! j)) = mkfs_spec ?f ! j \<and>
       file_size (img st) j = (if j = 0 then (length (mkfs_spec ?f ! 0) div 512 + 1) * 512 else length (mkfs_spec ?f ! j))"
    "\<And>b. b < 4096 \<Longrightarrow> marked (img st) b \<longleftrightarrow> b < 31"
    using mkfs_builds_image [OF _ f] s by auto
  have l: "length (mkfs_spec ?f ! 1) = 4" and e: "mkfs_spec ?f ! 1 = [1, 2, 3, 4]" and "length (mkfs_spec ?f ! 0) = 48"
    unfolding spec by simp_all
  moreover have "file_bytes (img st) 1 (length (mkfs_spec ?f ! 1)) = mkfs_spec ?f ! 1" by (rule conjunct1 [OF st(2)]) simp
  then have "file_bytes (img st) 1 4 = [1, 2, 3, 4]" unfolding l unfolding e .
  ultimately show ?thesis using st(1) st(2) [of 0] st(3) [of 30] st(3) [of 31] by auto
qed

end
