(* ===== verification/Umalloc.thy ===== *)
theory Umalloc
  imports Prelude
begin

text \<open>
  The memory allocator of the user library (\<^verbatim>\<open>umalloc.c\<close>): a circular list of free blocks in address order.
  A pointer to a header is its address; the two fields of the headers are maps from addresses. The system
  call \<^verbatim>\<open>sbrk\<close> is a parameter.
\<close>

section \<open>The code\<close>

record mheap =
  hptr :: "u32 \<Rightarrow> u32"
  hsize :: "u32 \<Rightarrow> u32"
  freep :: u32

definition set_ptr :: "u32 \<Rightarrow> u32 \<Rightarrow> mheap \<Rightarrow> mheap" where
  "set_ptr p q h = h\<lparr>hptr := (hptr h)(p := q)\<rparr>"

definition set_size :: "u32 \<Rightarrow> u32 \<Rightarrow> mheap \<Rightarrow> mheap" where
  "set_size p n h = h\<lparr>hsize := (hsize h)(p := n)\<rparr>"

text \<open>\<^verbatim>\<open>p + n\<close> on pointers to headers of eight bytes.\<close>

definition hadd :: "u32 \<Rightarrow> u32 \<Rightarrow> u32" where
  "hadd p n = p + 8 * n"

partial_function (option) free_find :: "mheap \<Rightarrow> u32 \<Rightarrow> u32 \<Rightarrow> u32 option" where
  "free_find h bp p =
     (if bp > p \<and> bp < hptr h p then Some p
      else if p \<ge> hptr h p \<and> (bp > p \<or> bp < hptr h p) then Some p
      else free_find h bp (hptr h p))"

definition free_right :: "u32 \<Rightarrow> u32 \<Rightarrow> mheap \<Rightarrow> mheap" where
  "free_right bp p h =
     (if hadd bp (hsize h bp) = hptr h p then
        set_ptr bp (hptr h (hptr h p)) (set_size bp (hsize h bp + hsize h (hptr h p)) h)
      else set_ptr bp (hptr h p) h)"

definition free_left :: "u32 \<Rightarrow> u32 \<Rightarrow> mheap \<Rightarrow> mheap" where
  "free_left bp p h =
     (if hadd p (hsize h p) = bp then set_ptr p (hptr h bp) (set_size p (hsize h p + hsize h bp) h)
      else set_ptr p bp h)"

definition ufree :: "u32 \<Rightarrow> mheap \<Rightarrow> mheap option" where
  "ufree ap h =
     (let bp = ap - 8 in
      Option.bind (free_find h bp (freep h)) (\<lambda>p.
        Some ((free_left bp p (free_right bp p h))\<lparr>freep := p\<rparr>)))"

text \<open>\<open>sb n w\<close> is the system call: its result and the world after it.\<close>

definition morecore :: "(u32 \<Rightarrow> 'w \<Rightarrow> u32 \<times> 'w) \<Rightarrow> u32 \<Rightarrow> mheap \<Rightarrow> 'w \<Rightarrow> (u32 \<times> mheap \<times> 'w) option" where
  "morecore sb nu h w =
     (let nu = (if nu < 4096 then 4096 else nu) in
      case sb (nu * 8) w of (p, w) \<Rightarrow>
      if p = - 1 then Some (0, h, w)
      else Option.bind (ufree (hadd p 1) (set_size p nu h)) (\<lambda>h. Some (freep h, h, w)))"

text \<open>The block cut from \<open>p\<close>, the successor of \<open>prevp\<close>.\<close>

definition carve :: "u32 \<Rightarrow> u32 \<Rightarrow> u32 \<Rightarrow> mheap \<Rightarrow> u32 \<times> mheap" where
  "carve nunits prevp p h =
     (let (p, h) =
        (if hsize h p = nunits then (p, set_ptr prevp (hptr h p) h)
         else let h = set_size p (hsize h p - nunits) h; p = hadd p (hsize h p)
              in (p, set_size p nunits h))
      in (hadd p 1, h\<lparr>freep := prevp\<rparr>))"

partial_function (option) malloc_loop ::
  "(u32 \<Rightarrow> 'w \<Rightarrow> u32 \<times> 'w) \<Rightarrow> u32 \<Rightarrow> u32 \<Rightarrow> u32 \<Rightarrow> mheap \<Rightarrow> 'w \<Rightarrow> (u32 \<times> mheap \<times> 'w) option" where
  "malloc_loop sb nunits prevp p h w =
     (if hsize h p \<ge> nunits then (case carve nunits prevp p h of (r, h) \<Rightarrow> Some (r, h, w))
      else if p = freep h then
        Option.bind (morecore sb nunits h w) (\<lambda>(p, h, w).
          if p = 0 then Some (0, h, w) else malloc_loop sb nunits p (hptr h p) h w)
      else malloc_loop sb nunits p (hptr h p) h w)"

text \<open>\<open>base\<close> is the address of the static header.\<close>

definition umalloc :: "(u32 \<Rightarrow> 'w \<Rightarrow> u32 \<times> 'w) \<Rightarrow> u32 \<Rightarrow> u32 \<Rightarrow> mheap \<Rightarrow> 'w \<Rightarrow> (u32 \<times> mheap \<times> 'w) option" where
  "umalloc sb base nbytes h w =
     (let nunits = (nbytes + 8 - 1) div 8 + 1;
          h = (if freep h = 0 then set_size base 0 ((set_ptr base base h)\<lparr>freep := base\<rparr>) else h);
          prevp = freep h
      in malloc_loop sb nunits prevp (hptr h prevp) h w)"

section \<open>Rings of blocks\<close>

text \<open>The nodes \<open>L\<close> follow each other, and \<open>z\<close> the last of them.\<close>

definition chained :: "mheap \<Rightarrow> u32 list \<Rightarrow> u32 \<Rightarrow> bool" where
  "chained h L z \<longleftrightarrow> map (hptr h) L = (if L = [] then [] else tl L @ [z])"

lemma chained_Nil [simp]: "chained h [] z"
  by (simp add: chained_def)

lemma chained_Cons: "chained h (a # L) z \<longleftrightarrow> hptr h a = (if L = [] then z else hd L) \<and> chained h L z"
  by (cases L) (auto simp: chained_def)

lemma chained_append: "chained h (L @ M) z \<longleftrightarrow> chained h L (if M = [] then z else hd M) \<and> chained h M z"
  by (induction L) (auto simp: chained_Cons)

text \<open>Blocks (address and number of units) in order, between two bounds.\<close>

fun ordered :: "nat \<Rightarrow> (u32 \<times> u32) list \<Rightarrow> nat \<Rightarrow> bool" where
  "ordered lo [] hi \<longleftrightarrow> lo \<le> hi"
| "ordered lo ((a, s) # bs) hi \<longleftrightarrow> lo \<le> unat a \<and> 0 < unat s \<and> ordered (unat a + 8 * unat s) bs hi"

lemma ordered_append: "ordered lo (xs @ ys) hi \<longleftrightarrow> (\<exists>m. ordered lo xs m \<and> ordered m ys hi)"
proof (induction xs arbitrary: lo)
  case Nil
  have "lo \<le> m \<Longrightarrow> ordered m ys hi \<Longrightarrow> ordered lo ys hi" for m by (cases ys) auto
  then show ?case by auto
qed auto

lemma ordered_weaken: "ordered lo bs hi \<Longrightarrow> lo' \<le> lo \<Longrightarrow> hi \<le> hi' \<Longrightarrow> ordered lo' bs hi'"
  by (induction bs arbitrary: lo lo') auto

lemma ordered_le: "ordered lo bs hi \<Longrightarrow> lo \<le> hi"
  by (induction bs arbitrary: lo) fastforce+

lemma ordered_bounds:
  assumes "ordered lo bs hi" "(a, s) \<in> set bs"
  shows "lo \<le> unat a" "unat a + 8 * unat s \<le> hi" "0 < unat s"
proof -
  have "lo \<le> unat a \<and> unat a + 8 * unat s \<le> hi \<and> 0 < unat s"
    using assms
  proof (induction bs arbitrary: lo)
    case (Cons b bs)
    then show ?case using ordered_le by (cases b) fastforce
  qed simp
  then show "lo \<le> unat a" "unat a + 8 * unat s \<le> hi" "0 < unat s" by auto
qed

definition extent :: "u32 \<times> u32 \<Rightarrow> nat set" where
  "extent b = {unat (fst b)..<unat (fst b) + 8 * unat (snd b)}"

definition free_mem :: "(u32 \<times> u32) list \<Rightarrow> nat set" where
  "free_mem bs = (\<Union>b\<in>set bs. extent b)"

lemma free_mem_simps [simp]:
  "free_mem [] = {}" "free_mem (b # bs) = extent b \<union> free_mem bs" "free_mem (xs @ ys) = free_mem xs \<union> free_mem ys"
  by (auto simp: free_mem_def)

lemma ordered_distinct: "ordered lo bs hi \<Longrightarrow> distinct (map fst bs)"
proof (induction bs arbitrary: lo)
  case (Cons b bs)
  obtain a s where b: "b = (a, s)" by force
  have "a \<noteq> a'" if "(a', s') \<in> set bs" for a' s'
    using ordered_bounds(1) [of "unat a + 8 * unat s" bs hi a' s'] Cons(2) that b by auto
  then have "a \<notin> fst ` set bs" by force
  then show ?case using Cons b by auto
qed simp

text \<open>
  The heap between calls: the static header and the free blocks \<open>bs\<close> form a ring in address order, all
  blocks lie between the header and the break \<open>hi\<close>.
\<close>

definition heap_ok :: "u32 \<Rightarrow> mheap \<Rightarrow> (u32 \<times> u32) list \<Rightarrow> nat \<Rightarrow> bool" where
  "heap_ok base h bs hi \<longleftrightarrow> base \<noteq> 0 \<and> ordered (unat base + 8) bs hi \<and> hi < 2 ^ 32 \<and>
     chained h (base # map fst bs) base \<and> hsize h base = 0 \<and> (\<forall>(a, s)\<in>set bs. hsize h a = s) \<and>
     freep h \<in> set (base # map fst bs)"

lemma heap_okD:
  assumes "heap_ok base h bs hi"
  shows "base \<noteq> 0" "ordered (unat base + 8) bs hi" "hi < 2 ^ 32" "chained h (base # map fst bs) base" "hsize h base = 0"
    "(a, s) \<in> set bs \<Longrightarrow> hsize h a = s" "freep h \<in> set (base # map fst bs)"
    "a' \<in> fst ` set bs \<Longrightarrow> unat base + 8 \<le> unat a'"
  using assms ordered_bounds(1) by (fastforce simp: heap_ok_def)+

section \<open>Finding the place of a block\<close>

lemma free_find_stop:
  assumes "chained h (p # Y) z" "p < bp" "\<forall>y\<in>set Y. bp < y" "z \<le> p"
  shows "free_find h bp p = Some p"
proof (cases Y)
  case Nil
  then show ?thesis using assms by (subst free_find.simps) (auto simp: chained_Cons)
next
  case (Cons y Y')
  then show ?thesis using assms by (subst free_find.simps) (auto simp: chained_Cons)
qed

lemma free_find_before:
  assumes "chained h (X @ p # Y) z" "sorted_wrt (<) (X @ p # Y)" "\<forall>x\<in>set (X @ [p]). x < bp" "\<forall>y\<in>set Y. bp < y" "z \<le> hd (X @ [p])"
  shows "free_find h bp (hd (X @ [p])) = Some p"
  using assms
proof (induction X)
  case Nil
  then show ?case using free_find_stop by simp
next
  case (Cons x X)
  have n: "hptr h x = hd (X @ [p])" using Cons(2) by (cases X) (auto simp: chained_Cons)
  have lt: "x < hd (X @ [p])" "hd (X @ [p]) < bp" using Cons(3,4) by (cases X; auto)+
  have "z \<le> hd (X @ [p])" using Cons(6) lt(1) by auto
  then have "free_find h bp (hd (X @ [p])) = Some p" using Cons by (auto simp: chained_Cons)
  moreover have "free_find h bp x = free_find h bp (hptr h x)"
    using n lt by (subst free_find.simps) auto
  ultimately show ?case using n by simp
qed

lemma free_find_after:
  assumes "chained h Y z" "sorted_wrt (<) Y" "\<forall>y\<in>set Y. bp < y" "z < bp" "Y \<noteq> []"
  shows "free_find h bp (hd Y) = free_find h bp z"
  using assms
proof (induction Y)
  case (Cons y Y)
  show ?case
  proof (cases "Y = []")
    case True
    then show ?thesis using Cons by (subst free_find.simps) (auto simp: chained_Cons)
  next
    case False
    then have "hptr h y = hd Y" "y < hd Y" "bp < y" using Cons(2-4) by (auto simp: chained_Cons)
    then have "free_find h bp y = free_find h bp (hd Y)" by (subst free_find.simps) auto
    then show ?thesis using Cons False by (auto simp: chained_Cons)
  qed
qed simp

text \<open>The search from any node of the ring ends at the last node below the block.\<close>

lemma free_find_ring:
  assumes l: "chained h (X @ p # Y) z" and s: "sorted_wrt (<) (X @ p # Y)" and x: "\<forall>x\<in>set (X @ [p]). x < bp"
    and y: "\<forall>y\<in>set Y. bp < y" and z: "z = hd (X @ [p])" and f: "f \<in> set (X @ p # Y)"
  shows "free_find h bp f = Some p"
proof (cases "f \<in> set Y")
  case True
  then obtain Y1 Y2 where Y: "Y = Y1 @ f # Y2" by (meson split_list)
  have "chained h (f # Y2) z" using l unfolding Y by (simp add: chained_append chained_Cons)
  then have "free_find h bp f = free_find h bp z"
    using free_find_after [of h "f # Y2" z bp] s y x z unfolding Y
    by (cases X) (auto simp: sorted_wrt_append)
  also have "\<dots> = Some p" using free_find_before [OF l s x y] z by simp
  finally show ?thesis .
next
  case False
  then have "f \<in> set (X @ [p])" using f by auto
  then obtain X1 X2 where X: "X @ [p] = X1 @ f # X2" by (meson split_list)
  then obtain X3 where X3: "X = X1 @ X3" "hd (X3 @ [p]) = f"
    by (cases X2 rule: rev_cases) auto
  have "z \<le> f" using f s z by (cases X) (auto intro: order.strict_implies_order)
  then show ?thesis
    using free_find_before [of h X3 p Y z bp] l s x y X3 by (auto simp: chained_append sorted_wrt_append split: if_splits)
qed

section \<open>Freeing a block\<close>

lemma hptr_set [simp]: "hptr (set_ptr p q h) = (hptr h)(p := q)" "hptr (set_size p n h) = hptr h"
  and hsize_set [simp]: "hsize (set_size p n h) = (hsize h)(p := n)" "hsize (set_ptr p q h) = hsize h"
  and freep_set [simp]: "freep (set_ptr p q h) = freep h" "freep (set_size p n h) = freep h"
  by (simp_all add: set_ptr_def set_size_def)

lemma chained_cong: "(\<And>a. a \<in> set L \<Longrightarrow> hptr h' a = hptr h a) \<Longrightarrow> chained h' L z = chained h L z"
  by (simp add: chained_def cong: map_cong)

lemma unat_hadd: "unat a + 8 * unat s < 2 ^ 32 \<Longrightarrow> unat (hadd a s) = unat a + 8 * unat s"
proof -
  assume a: "unat a + 8 * unat s < 2 ^ 32"
  then have "unat (8 * s) = 8 * unat s" by (subst unat_mult_lem [THEN iffD1]) auto
  then show ?thesis using a by (simp add: hadd_def unat_add32_small)
qed

lemma unat_add_small: "unat (a :: u32) + unat b < 2 ^ 32 \<Longrightarrow> unat (a + b) = unat a + unat b"
  by (simp add: unat_add32_small)

text \<open>Blocks below and above an address.\<close>

lemma ordered_split:
  assumes "ordered lo bs hi" "\<forall>b'\<in>set bs. extent b' \<inter> extent (b, s) = {}" "0 < unat s" "lo \<le> unat b" "unat b + 8 * unat s \<le> hi"
  obtains xs ys where "bs = xs @ ys" "ordered lo xs (unat b)" "ordered (unat b + 8 * unat s) ys hi"
proof -
  have "\<exists>xs ys. bs = xs @ ys \<and> ordered lo xs (unat b) \<and> ordered (unat b + 8 * unat s) ys hi"
    using assms
  proof (induction bs arbitrary: lo)
    case Nil
    then show ?case by auto
  next
    case (Cons c bs)
    obtain a t where c: "c = (a, t)" by force
    have o: "lo \<le> unat a" "0 < unat t" "ordered (unat a + 8 * unat t) bs hi" using Cons(2) c by auto
    have d: "extent (a, t) \<inter> extent (b, s) = {}" using Cons(3) c by simp
    show ?case
    proof (cases "unat a < unat b")
      case True
      have "unat b \<in> extent (b, s)" using Cons(4) by (simp add: extent_def)
      then have "unat a + 8 * unat t \<le> unat b" using d True by (auto simp: extent_def)
      from Cons(1) [OF o(3) _ Cons(4) this Cons(6)] Cons(3) obtain xs ys where
        "bs = xs @ ys" "ordered (unat a + 8 * unat t) xs (unat b)" "ordered (unat b + 8 * unat s) ys hi" by auto
      then show ?thesis using o c by (intro exI [of _ "c # xs"] exI [of _ ys]) auto
    next
      case False
      have "unat a \<in> extent (a, t)" using o(2) by (simp add: extent_def)
      then have "unat b + 8 * unat s \<le> unat a" using d False by (auto simp: extent_def)
      then show ?thesis using o c Cons(5) by (intro exI [of _ "[]"] exI [of _ "c # bs"]) auto
    qed
  qed
  then show thesis using that by blast
qed

lemma ordered_sorted: "ordered lo bs hi \<Longrightarrow> sorted_wrt (<) (map fst bs)"
proof (induction bs arbitrary: lo)
  case (Cons b bs)
  obtain a s where b: "b = (a, s)" by force
  have "a < a'" if "(a', s') \<in> set bs" for a' s'
    using ordered_bounds(1) [of "unat a + 8 * unat s" bs hi a' s'] Cons(2) that b by (auto simp: word_less_nat_alt)
  then show ?case using Cons b by auto
qed simp

lemma extent_join: "unat a + 8 * unat s = unat b \<Longrightarrow> unat s + unat t < 2 ^ 32 \<Longrightarrow> extent (a, s + t) = extent (a, s) \<union> extent (b, t)"
  by (auto simp: extent_def unat_add_small)

lemma eq_hadd: "unat a + 8 * unat s < 2 ^ 32 \<Longrightarrow> hadd a s = b \<longleftrightarrow> unat a + 8 * unat s = unat b"
  by (simp add: word32_eq_iff unat_hadd)

lemma free_right_ok:
  assumes o: "ordered (unat b + 8 * unat s) ys hi" and hi: "hi < 2 ^ 32" and sz: "hsize h b = s" "0 < unat s"
    and ysz: "\<forall>(a, t)\<in>set ys. hsize h a = t" and l: "chained h (map fst ys) base" and p: "hptr h p = hd (map fst ys @ [base])"
    and base: "unat base < unat b"
  obtains s1 ys1 where "free_right b p h = set_ptr b (hd (map fst ys1 @ [base])) (set_size b s1 h)"
    "ordered (unat b) ((b, s1) # ys1) hi" "free_mem ((b, s1) # ys1) = free_mem ((b, s) # ys)"
    "chained h (map fst ys1) base" "set ys1 \<subseteq> set ys" "unat s \<le> unat s1"
proof -
  have le: "unat b + 8 * unat s \<le> hi" using o by (rule ordered_le)
  have triv: "set_size b s h = h" using sz(1) by (cases h) (auto simp: set_size_def fun_upd_idem)
  show thesis
  proof (cases "hadd b s = hptr h p")
    case False
    then have "free_right b p h = set_ptr b (hd (map fst ys @ [base])) (set_size b s h)"
      using p triv sz(1) by (simp add: free_right_def)
    then show thesis using that [of ys s] o sz l by auto
  next
    case True
    have e: "unat b + 8 * unat s = unat (hptr h p)" using eq_hadd [of b s "hptr h p"] True le hi by simp
    have "ys \<noteq> []" using p e base by (cases ys) auto
    then obtain y t zs where ys: "ys = (y, t) # zs" by (metis list.exhaust prod.exhaust)
    then have y: "hptr h p = y" "hsize h y = t" using p ysz by auto
    have oz: "ordered (unat y + 8 * unat t) zs hi" "0 < unat t" using o ys by auto
    have yt: "unat y + 8 * unat t \<le> hi" using oz(1) by (rule ordered_le)
    have u: "unat (s + t) = unat s + unat t" using e y yt hi by (intro unat_add_small) simp
    have "hptr h y = hd (map fst zs @ [base])" using l ys by (cases zs) (auto simp: chained_Cons)
    then have "free_right b p h = set_ptr b (hd (map fst zs @ [base])) (set_size b (s + t) h)"
      using True y sz(1) by (simp add: free_right_def)
    moreover have q: "unat b + 8 * unat (s + t) = unat y + 8 * unat t" using u e y by simp
    have "0 < unat (s + t)" using u sz(2) by simp
    then have "ordered (unat b) ((b, s + t) # zs) hi" unfolding ordered.simps q using oz(1) by simp
    moreover have "free_mem ((b, s + t) # zs) = free_mem ((b, s) # ys)"
      using extent_join [of b s y t] e y u unat_lt32 [of "s + t"] by (auto simp: ys)
    moreover have "chained h (map fst zs) base" using l ys by (simp add: chained_Cons)
    ultimately show thesis using that [of zs "s + t"] ys u by auto
  qed
qed

lemma ordered_join:
  "ordered lo xs m \<Longrightarrow> m \<le> m' \<Longrightarrow> ordered m' ys hi \<Longrightarrow> ordered lo (xs @ ys) hi"
  using ordered_weaken ordered_append by blast

text \<open>
  The ring cut open at a block \<open>b\<close> being freed, whose right neighbour has been joined to it: \<open>xs\<close> the blocks below it, of which
  \<open>p\<close> is the last address (or the base), \<open>ys\<close> those above.
\<close>

definition cut :: "u32 \<Rightarrow> mheap \<Rightarrow> nat \<Rightarrow> u32 \<Rightarrow> u32 \<Rightarrow> u32 list \<Rightarrow> u32 \<Rightarrow> (u32 \<times> u32) list \<Rightarrow> (u32 \<times> u32) list \<Rightarrow> bool" where
  "cut base h hi b s X p xs ys \<longleftrightarrow> base \<noteq> 0 \<and> hi < 2 ^ 32 \<and> hsize h base = 0 \<and> base # map fst xs = X @ [p] \<and>
     ordered (unat base + 8) xs (unat b) \<and> ordered (unat b) ((b, s) # ys) hi \<and> chained h X p \<and> chained h (map fst ys) base \<and>
     (\<forall>(a, t)\<in>set xs \<union> set ys. hsize h a = t) \<and> b \<notin> set (X @ [p]) \<and> p \<notin> set X \<and> b \<notin> fst ` set ys \<and> p \<notin> fst ` set ys"

lemma cutD:
  assumes "cut base h hi b s X p xs ys"
  shows "base \<noteq> 0" "hi < 2 ^ 32" "hsize h base = 0" "base # map fst xs = X @ [p]" "ordered (unat base + 8) xs (unat b)"
    "ordered (unat b) ((b, s) # ys) hi" "chained h X p" "chained h (map fst ys) base" "(a, t) \<in> set xs \<union> set ys \<Longrightarrow> hsize h a = t"
    "p \<noteq> b" "b \<notin> set X" "p \<notin> set X" "b \<notin> fst ` set ys" "p \<notin> fst ` set ys" "base \<noteq> b" "(b, t) \<notin> set xs"
proof -
  show "base \<noteq> b" "(b, t) \<notin> set xs"
    using assms unfolding cut_def by (metis list.set_intros(1), metis image_eqI fst_conv list.set_map list.set_intros(2))
  have "\<forall>(a, t)\<in>set xs \<union> set ys. hsize h a = t" using assms unfolding cut_def by (elim conjE)
  from bspec [OF this, of "(a, t)"] show "(a, t) \<in> set xs \<union> set ys \<Longrightarrow> hsize h a = t" by simp
qed (use assms in \<open>auto simp: cut_def\<close>)

lemma ufree_cut:
  assumes ok: "heap_ok base h bs hi" and sz: "hsize h b = s" "0 < unat s"
    and d: "free_mem bs \<inter> extent (b, s) = {}" and lo: "unat base + 8 \<le> unat b" and hi: "unat b + 8 * unat s \<le> hi"
  obtains X p xs ys s1 where "cut base h hi b s1 X p xs ys" "free_find h b (freep h) = Some p"
    "free_right b p h = set_ptr b (hd (map fst ys @ [base])) (set_size b s1 h)" "unat s \<le> unat s1"
    "free_mem (xs @ (b, s1) # ys) = free_mem bs \<union> extent (b, s)" "free_mem xs \<subseteq> free_mem bs"
proof -
  note H = heap_okD [OF ok]
  have "\<forall>b'\<in>set bs. extent b' \<inter> extent (b, s) = {}" using d by (auto simp: free_mem_def)
  from ordered_split [OF H(2) this sz(2) lo hi] obtain xs ys where
    bs: "bs = xs @ ys" and ox: "ordered (unat base + 8) xs (unat b)" and oy: "ordered (unat b + 8 * unat s) ys hi" .
  obtain X p where Xp: "base # map fst xs = X @ [p]" by (metis append_butlast_last_id list.distinct(1))
  then have L: "base # map fst bs = X @ p # map fst ys" by (simp add: bs)
  have "a < b" if "(a, t) \<in> set xs" for a t using that ordered_bounds(2,3) [OF ox] by (fastforce simp: word_less_nat_alt)
  moreover have bb: "base < b" using lo by (simp add: word_less_nat_alt)
  ultimately have xb: "a < b" if "a \<in> set (X @ [p])" for a using that unfolding Xp [symmetric] by auto
  have yb: "b < a" if "a \<in> set (map fst ys)" for a
    using that ordered_bounds(1) [OF oy] sz(2) by (force simp: word_less_nat_alt)
  have "base < a" if "a \<in> fst ` set bs" for a using H(8) [OF that] by (simp add: word_less_nat_alt)
  then have srt: "sorted_wrt (<) (X @ p # map fst ys)" using ordered_sorted [OF H(2)] unfolding L [symmetric] by auto
  have lk: "chained h (X @ p # map fst ys) base" and f: "freep h \<in> set (X @ p # map fst ys)" using H(4,7) L by simp_all
  have z: "base = hd (X @ [p])" using Xp by (metis list.sel(1))
  have find: "free_find h b (freep h) = Some p" by (rule free_find_ring [OF lk srt _ _ z f]) (use xb yb in auto)
  have hp: "hptr h p = hd (map fst ys @ [base])" and ly: "chained h (map fst ys) base" and lx: "chained h X p"
    using lk by (auto simp: chained_append chained_Cons hd_append)
  have szs: "\<forall>(a, t)\<in>set ys. hsize h a = t" "\<forall>(a, t)\<in>set xs. hsize h a = t" using H(6) bs by auto
  obtain s1 ys1 where r: "free_right b p h = set_ptr b (hd (map fst ys1 @ [base])) (set_size b s1 h)"
    "ordered (unat b) ((b, s1) # ys1) hi" "free_mem ((b, s1) # ys1) = free_mem ((b, s) # ys)"
    "chained h (map fst ys1) base" "set ys1 \<subseteq> set ys" "unat s \<le> unat s1"
    by (rule free_right_ok [OF oy H(3) sz szs(1) ly hp]) (use bb in \<open>simp add: word_less_nat_alt\<close>)
  have "b \<notin> set (X @ [p])" "b \<notin> fst ` set ys1" "p \<notin> set X" "p \<notin> fst ` set ys1"
    using xb [of b] yb [of b] r(5) srt by (auto simp: sorted_wrt_append)
  then have "cut base h hi b s1 X p xs ys1"
    unfolding cut_def using H(1,3,5) Xp ox r(2,4,5) lx szs by auto
  moreover have "free_mem (xs @ (b, s1) # ys1) = free_mem bs \<union> extent (b, s)" using r(3) by (auto simp: bs)
  ultimately show thesis using that find r(1,6) by (simp add: bs)
qed

text \<open>A block not next to the one below is put into the ring.\<close>

lemma cut_insert:
  assumes c: "cut base h hi b s X p xs ys"
    and h': "h' = (set_ptr p b (set_ptr b (hd (map fst ys @ [base])) (set_size b s h)))\<lparr>freep := p\<rparr>"
  shows "heap_ok base h' (xs @ (b, s) # ys) hi"
proof -
  note C = cutD [OF c]
  let ?bs = "xs @ (b, s) # ys"
  have L: "base # map fst ?bs = (X @ [p]) @ b # map fst ys" by (simp add: C(4))
  have "chained h' X p \<longleftrightarrow> chained h X p" "chained h' (map fst ys) base \<longleftrightarrow> chained h (map fst ys) base"
    by (rule chained_cong; use C(11-14) in \<open>auto simp: h'\<close>)+
  then have "chained h' (base # map fst ?bs) base"
    unfolding L using C(7,8,10) by (auto simp: chained_append chained_Cons h' hd_append)
  moreover have "freep h' \<in> set (base # map fst ?bs)" unfolding L by (simp add: h')
  moreover have "ordered (unat base + 8) ?bs hi" by (rule ordered_join [OF C(5) order.refl C(6)])
  moreover have "hsize h' a = t" if "(a, t) \<in> set ?bs" for a t
    using that C(9) [of a t] C(13,16) by (cases "a = b") (force simp: h')+
  ultimately show ?thesis unfolding heap_ok_def using C(1-3,15) by (auto simp: h')
qed

text \<open>A block next to the one below is joined to it.\<close>

lemma cut_merge:
  assumes c: "cut base h hi b s X p (xs @ [(p, ps)]) ys" and e: "unat p + 8 * unat ps = unat b"
    and h': "h' = (set_ptr p (hd (map fst ys @ [base])) (set_size p (ps + s) (set_ptr b n (set_size b s h))))\<lparr>freep := p\<rparr>"
  shows "heap_ok base h' (xs @ (p, ps + s) # ys) hi" "unat (ps + s) = unat ps + unat s"
proof -
  note C = cutD [OF c]
  let ?bs = "xs @ (p, ps + s) # ys"
  have X: "X = base # map fst xs" using C(4) by simp
  have op: "ordered (unat base + 8) xs (unat p)" "0 < unat ps"
    using C(5) by (auto simp: ordered_append dest: ordered_weaken [of _ _ _ _ "unat p"])
  have bh: "unat b + 8 * unat s \<le> hi" using C(6) ordered_le by fastforce
  show u: "unat (ps + s) = unat ps + unat s" using e bh C(2) by (intro unat_add_small) simp
  have L: "base # map fst ?bs = X @ p # map fst ys" by (simp add: X)
  have "chained h' X p \<longleftrightarrow> chained h X p" "chained h' (map fst ys) base \<longleftrightarrow> chained h (map fst ys) base"
    by (rule chained_cong; use C(11-14) in \<open>auto simp: h'\<close>)+
  then have "chained h' (base # map fst ?bs) base"
    unfolding L using C(7,8) by (auto simp: chained_append chained_Cons h' hd_append)
  moreover have "freep h' \<in> set (base # map fst ?bs)" unfolding L by (simp add: h')
  moreover have "unat p + 8 * unat (ps + s) = unat b + 8 * unat s" "0 < unat (ps + s)" using u e op(2) by simp_all
  then have "ordered (unat p) ((p, ps + s) # ys) hi" using C(6) by simp
  then have "ordered (unat base + 8) ?bs hi" using op(1) by (intro ordered_join) auto
  moreover have "hsize h' a = t" if "(a, t) \<in> set ?bs" for a t
  proof -
    have "(b, t) \<notin> set xs" "(b, t) \<notin> set ys" "(p, t) \<notin> set xs" "(p, t) \<notin> set ys" for t using C(11-14) X by force+
    then show ?thesis using that C(9) [of a t] by (cases "a = b"; cases "a = p") (auto simp: h')
  qed
  moreover have "base \<noteq> p" using C(12) X by auto
  ultimately show "heap_ok base h' ?bs hi" unfolding heap_ok_def using C(1-3,15) by (auto simp: h')
qed

lemma ufree_ok:
  assumes ok: "heap_ok base h bs hi" and sz: "hsize h b = s" "0 < unat s"
    and d: "free_mem bs \<inter> extent (b, s) = {}" and lo: "unat base + 8 \<le> unat b" and hi: "unat b + 8 * unat s \<le> hi"
  obtains h' bs' where "ufree (b + 8) h = Some h'" "heap_ok base h' bs' hi" "free_mem bs' = free_mem bs \<union> extent (b, s)"
    "\<exists>(a, t)\<in>set bs'. unat s \<le> unat t"
    "\<And>a. unat a \<notin> free_mem bs \<union> extent (b, s) \<Longrightarrow> hsize h' a = hsize h a"
proof -
  obtain X p xs ys s1 where c: "cut base h hi b s1 X p xs ys" and find: "free_find h b (freep h) = Some p"
    and r: "free_right b p h = set_ptr b (hd (map fst ys @ [base])) (set_size b s1 h)" and le: "unat s \<le> unat s1"
    and fm: "free_mem (xs @ (b, s1) # ys) = free_mem bs \<union> extent (b, s)" and fx: "free_mem xs \<subseteq> free_mem bs"
    using ufree_cut [OF assms] .
  note C = cutD [OF c]
  let ?n = "hd (map fst ys @ [base])"
  show thesis
  proof (cases "hadd p (hsize h p) = b")
    case False
    define h' where "h' = (set_ptr p b (set_ptr b ?n (set_size b s1 h)))\<lparr>freep := p\<rparr>"
    have "ufree (b + 8) h = Some h'" using find r False C(10) by (simp add: ufree_def free_left_def h'_def)
    moreover have "hsize h' a = hsize h a" if "unat a \<notin> free_mem bs \<union> extent (b, s)" for a
      using that sz(2) by (auto simp: h'_def extent_def)
    moreover have "\<exists>(a, t)\<in>set (xs @ (b, s1) # ys). unat s \<le> unat t" using le by auto
    ultimately show thesis using that cut_insert [OF c h'_def] fm by blast
  next
    case True
    have "xs \<noteq> []" using True C(3,4,15) by (auto simp: hadd_def)
    then obtain xs' ps where xs: "xs = xs' @ [(p, ps)]" using C(4) by (cases xs rule: rev_cases) auto
    have ps: "hsize h p = ps" using C(9) [of p ps] xs by simp
    have op: "0 < unat ps" "unat p + 8 * unat ps \<le> unat b" using C(5) xs by (auto simp: ordered_append)
    have e: "unat p + 8 * unat ps = unat b" using True ps eq_hadd [of p ps b] op(2) unat_lt32 [of b] by simp
    define h' where "h' = (set_ptr p ?n (set_size p (ps + s1) (set_ptr b ?n (set_size b s1 h))))\<lparr>freep := p\<rparr>"
    note m = cut_merge [OF c [unfolded xs] e h'_def]
    have "ufree (b + 8) h = Some h'" using find r True ps C(10) by (simp add: ufree_def free_left_def h'_def)
    moreover have "free_mem (xs' @ (p, ps + s1) # ys) = free_mem bs \<union> extent (b, s)"
      using fm extent_join [of p ps b s1] e m(2) unat_lt32 [of "ps + s1"] by (auto simp: xs)
    moreover have "unat p \<in> free_mem bs" using fx op(1) by (auto simp: xs extent_def)
    then have "hsize h' a = hsize h a" if "unat a \<notin> free_mem bs \<union> extent (b, s)" for a
      using that sz(2) by (auto simp: h'_def extent_def)
    moreover have "\<exists>(a, t)\<in>set (xs' @ (p, ps + s1) # ys). unat s \<le> unat t" using le m(2) by auto
    ultimately show thesis using that m(1) by blast
  qed
qed

section \<open>Allocating a block\<close>

lemma heap_ok_distinct:
  assumes "heap_ok base h bs hi"
  shows "distinct (base # map fst bs)"
  using ordered_distinct [OF heap_okD(2) [OF assms]] heap_okD(8) [OF assms, of base] by auto

lemma chained_last:
  assumes "chained h L p" "L \<noteq> []"
  shows "chained h (butlast L) (last L)" "hptr h (last L) = p"
  using assms by (cases L rule: rev_cases; auto simp: chained_append chained_Cons)+

lemma pred_unique:
  assumes ok: "heap_ok base h bs hi" and bs: "bs = xs @ (p, s) # ys" and q: "q \<in> set (base # map fst bs)" "hptr h q = p"
  shows "q = last (base # map fst xs)"
proof -
  have l: "map (hptr h) (base # map fst bs) = map fst bs @ [base]" using heap_okD(4) [OF ok] by (simp add: chained_def)
  have "distinct (map (hptr h) (base # map fst bs))" unfolding l using heap_ok_distinct [OF ok] by auto
  then have inj: "inj_on (hptr h) (set (base # map fst bs))" by (simp only: distinct_map)
  let ?X = "base # map fst xs"
  have "chained h (?X @ p # map fst ys) base" using heap_okD(4) [OF ok] bs by simp
  then have "chained h ?X p" unfolding chained_append by simp
  then have "hptr h (last ?X) = p" by (rule chained_last(2)) simp
  moreover have "set ?X \<subseteq> set (base # map fst bs)" using bs by auto
  then have "last ?X \<in> set (base # map fst bs)" by (rule subsetD) (rule last_in_set, simp)
  ultimately show ?thesis using inj_onD [OF inj, of q "last ?X"] q by simp
qed

text \<open>A heap seen from one of its free blocks.\<close>

lemma heap_split:
  assumes ok: "heap_ok base h bs hi" and bs: "bs = xs @ (p, s) # ys"
  shows "ordered (unat base + 8) xs (unat p)" "0 < unat s" "ordered (unat p + 8 * unat s) ys hi"
    "chained h (base # map fst xs) p" "chained h (p # map fst ys) base" "distinct ((base # map fst xs) @ p # map fst ys)"
    "free_mem xs \<inter> extent (p, s) = {}" "free_mem ys \<inter> extent (p, s) = {}" "hsize h p = s"
proof -
  note H = heap_okD [OF ok]
  show o: "ordered (unat base + 8) xs (unat p)" "0 < unat s" "ordered (unat p + 8 * unat s) ys hi"
    using H(2) bs by (auto simp: ordered_append intro: ordered_weaken)
  show "chained h (base # map fst xs) p" "chained h (p # map fst ys) base"
    using H(4) bs chained_append [of h "base # map fst xs" "p # map fst ys" base] by simp_all
  show "distinct ((base # map fst xs) @ p # map fst ys)" using heap_ok_distinct [OF ok] bs by simp
  show "free_mem xs \<inter> extent (p, s) = {}" "free_mem ys \<inter> extent (p, s) = {}"
    using ordered_bounds(2) [OF o(1)] ordered_bounds(1) [OF o(3)] by (fastforce simp: free_mem_def extent_def)+
  show "hsize h p = s" using H(6) [of p s] bs by simp
qed

text \<open>A block of exactly the size wanted is taken out of the ring.\<close>

lemma carve_whole:
  assumes ok: "heap_ok base h bs hi" and bs: "bs = xs @ (p, s) # ys" and ql: "q = last (base # map fst xs)"
    and h': "h' = (set_ptr q (hptr h p) h)\<lparr>freep := q\<rparr>"
  shows "heap_ok base h' (xs @ ys) hi" "free_mem (xs @ ys) = free_mem bs - extent (p, s)"
proof -
  note H = heap_okD [OF ok] and B = heap_split [OF ok bs]
  let ?X = "base # map fst xs"
  define X where "X = butlast ?X"
  have Xq: "?X = X @ [q]" using ql by (simp add: X_def)
  have pn: "hptr h p = hd (map fst ys @ [base])" using B(5) by (cases ys) (auto simp: chained_Cons)
  have "chained h X q" unfolding X_def ql by (rule chained_last(1) [OF B(4)]) simp
  moreover have q': "q \<notin> set X" "q \<notin> set (map fst ys)" using B(6) unfolding Xq by auto
  ultimately have l1: "chained h' X q" by (subst chained_cong [of _ h' h]) (auto simp: h')
  have l2: "chained h' (map fst ys) base"
    using B(5) q' by (subst chained_cong [of _ h' h]) (auto simp: h' chained_Cons)
  have "chained h' (X @ q # map fst ys) base"
    unfolding chained_append chained_Cons using l1 l2 pn by (simp add: h' hd_append)
  moreover have "base # map fst (xs @ ys) = X @ q # map fst ys" using Xq by simp
  ultimately have lk': "chained h' (base # map fst (xs @ ys)) base" by (simp only:)
  have "q \<in> set ?X" unfolding Xq by simp
  moreover have "hsize h a = t" if "(a, t) \<in> set xs \<union> set ys" for a t using H(6) that bs by auto
  ultimately show "heap_ok base h' (xs @ ys) hi" unfolding heap_ok_def
    using H(1,3,5) lk' ordered_join [OF B(1) _ B(3)] by (auto simp: h')
  show "free_mem (xs @ ys) = free_mem bs - extent (p, s)" using B(7,8) bs by auto
qed

text \<open>From a larger block the tail is cut off.\<close>

lemma carve_tail:
  assumes ok: "heap_ok base h bs hi" and bs: "bs = xs @ (p, s) # ys" and q: "q \<in> set (base # map fst xs)"
    and n: "unat n < unat s" "0 < unat n" and b: "b = hadd p (s - n)"
    and h': "h' = (set_size b n (set_size p (s - n) h))\<lparr>freep := q\<rparr>"
  shows "heap_ok base h' (xs @ (p, s - n) # ys) hi" "free_mem (xs @ (p, s - n) # ys) = free_mem bs - extent (b, n)"
    "extent (b, n) \<subseteq> extent (p, s)" "unat b \<in> extent (p, s)"
proof -
  note H = heap_okD [OF ok] and B = heap_split [OF ok bs]
  let ?bs = "xs @ (p, s - n) # ys"
  have u: "unat (s - n) = unat s - unat n" using n(1) by (intro unat_sub) (simp add: word_le_nat_alt)
  have "unat p + 8 * unat s < 2 ^ 32" using ordered_le [OF B(3)] H(3) by simp
  then have ub: "unat b = unat p + 8 * (unat s - unat n)" unfolding b using u n(1) by (subst unat_hadd) auto
  show eb: "extent (b, n) \<subseteq> extent (p, s)" using ub n(1) by (auto simp: extent_def)
  show be: "unat b \<in> extent (p, s)" using ub n by (auto simp: extent_def)
  have bp: "unat b \<noteq> unat p" and pe: "unat p \<in> extent (p, s)" using ub n by (auto simp: extent_def)
  have nb: "a \<noteq> b \<and> a \<noteq> p \<and> hsize h a = t" if at: "(a, t) \<in> set xs \<union> set ys" for a t
  proof -
    have "0 < unat t" using at ordered_bounds(3) [OF B(1)] ordered_bounds(3) [OF B(3)] by auto
    then have "unat a \<in> free_mem xs \<union> free_mem ys" using at by (force simp: free_mem_def extent_def)
    then show ?thesis using B(7,8) be pe H(6) [of a t] at bs by auto
  qed
  have "base \<noteq> b" "base \<noteq> p" using H(8) [of p] bs ub by auto
  moreover have "0 < unat (s - n)" using u n(1) by simp
  then have "ordered (unat base + 8) ?bs hi"
    using B(3) u n(1) ordered_weaken [OF B(3)] by (intro ordered_join [OF B(1) order.refl]) auto
  moreover have "chained h' (base # map fst ?bs) base" using H(4) bs by (subst chained_cong [of _ h' h]) (auto simp: h')
  moreover have "hsize h' a = t" if "(a, t) \<in> set ?bs" for a t using that nb [of a t] bp by (auto simp: h')
  ultimately show "heap_ok base h' ?bs hi" unfolding heap_ok_def using H(1,3,5) q by (auto simp: h')
  have "extent (p, s - n) = extent (p, s) - extent (b, n)" using ub u n(1) by (auto simp: extent_def)
  then show "free_mem ?bs = free_mem bs - extent (b, n)" using B(7,8) eb bs by auto
qed

lemma carve_ok:
  assumes ok: "heap_ok base h bs hi" and p: "(p, s) \<in> set bs" and n: "n \<le> s" "0 < unat n"
    and q: "q \<in> set (base # map fst bs)" "hptr h q = p"
  obtains b h' bs' where "carve n q p h = (b + 8, h')" "heap_ok base h' bs' hi" "extent (b, n) \<subseteq> extent (p, s)"
    "free_mem bs' = free_mem bs - extent (b, n)" "hsize h' b = n"
    "\<forall>a. unat a \<notin> free_mem bs \<longrightarrow> hsize h' a = hsize h a"
proof -
  from p obtain xs ys where bs: "bs = xs @ (p, s) # ys" by (meson split_list)
  have ql: "q = last (base # map fst xs)" by (rule pred_unique [OF ok bs q])
  note B = heap_split [OF ok bs]
  show thesis
  proof (cases "s = n")
    case True
    define h' where "h' = (set_ptr q (hptr h p) h)\<lparr>freep := q\<rparr>"
    have "carve n q p h = (p + 8, h')" using True B(9) by (simp add: carve_def h'_def hadd_def)
    then show thesis using carve_whole [OF ok bs ql h'_def] that [of p h' "xs @ ys"] True B(9) by (auto simp: h'_def)
  next
    case False
    define b where "b = hadd p (s - n)"
    define h' where "h' = (set_size b n (set_size p (s - n) h))\<lparr>freep := q\<rparr>"
    have qX: "q \<in> set (base # map fst xs)" unfolding ql by (rule last_in_set) simp
    have "unat n < unat s" using n(1) False by (simp add: word_le_nat_alt word32_eq_iff)
    note T = carve_tail [OF ok bs qX this n(2) b_def h'_def]
    have "carve n q p h = (b + 8, h')" using False B(9) by (simp add: carve_def h'_def hadd_def b_def Let_def)
    moreover have "unat p \<in> extent (p, s)" using B(2) by (simp add: extent_def)
    then have "hsize h' a = hsize h a" if "unat a \<notin> free_mem bs" for a using that T(4) bs by (auto simp: h'_def)
    ultimately show thesis using that [OF _ T(1,3,2)] by (simp add: h'_def)
  qed
qed

text \<open>The walk of \<^verbatim>\<open>malloc\<close> past blocks that are too small.\<close>

lemma malloc_walk:
  "chained h (q # T) p \<Longrightarrow> \<forall>t\<in>set T. hsize h t < n \<and> t \<noteq> freep h \<Longrightarrow>
   malloc_loop sb n q (hptr h q) h w = malloc_loop sb n (last (q # T)) p h w"
proof (induction T arbitrary: q)
  case Nil
  then show ?case by (simp add: chained_Cons)
next
  case (Cons t T)
  then have "hptr h q = t" "\<not> n \<le> hsize h t" "t \<noteq> freep h" by (auto simp: chained_Cons)
  then have "malloc_loop sb n q (hptr h q) h w = malloc_loop sb n t (hptr h t) h w"
    by (subst malloc_loop.simps) simp
  also have "\<dots> = malloc_loop sb n (last (t # T)) p h w" using Cons by (simp add: chained_Cons)
  finally show ?case by simp
qed

text \<open>The ring, read from \<^verbatim>\<open>freep\<close> on.\<close>

lemma ring_from:
  assumes ok: "heap_ok base h bs hi"
  obtains R where "chained h (freep h # R) (freep h)" "set (freep h # R) = set (base # map fst bs)" "freep h \<notin> set R"
proof -
  obtain A B where L: "base # map fst bs = A @ freep h # B" using heap_okD(7) [OF ok] by (meson split_list)
  have l: "chained h (A @ freep h # B) base" using heap_okD(4) [OF ok] L by simp
  have "chained h (freep h # B @ A) (freep h)"
  proof (cases A)
    case Nil
    then show ?thesis using l L by simp
  next
    case (Cons a A')
    then have "a = base" using L by simp
    then show ?thesis using l Cons unfolding append_Cons [symmetric] chained_append by (auto split: if_splits)
  qed
  moreover have "set (freep h # B @ A) = set (base # map fst bs)" unfolding L by auto
  moreover have "freep h \<notin> set (B @ A)" using heap_ok_distinct [OF ok] unfolding L by auto
  ultimately show thesis using that by blast
qed

lemma malloc_found:
  assumes ok: "heap_ok base h bs hi" and n: "0 < unat n" and e: "\<exists>(a, t)\<in>set bs. n \<le> t"
  obtains q p s where "malloc_loop sb n (freep h) (hptr h (freep h)) h w = (case carve n q p h of (r, h) \<Rightarrow> Some (r, h, w))"
    "(p, s) \<in> set bs" "n \<le> s" "q \<in> set (base # map fst bs)" "hptr h q = p"
proof -
  note H = heap_okD [OF ok]
  obtain R where R: "chained h (freep h # R) (freep h)" "set (freep h # R) = set (base # map fst bs)" "freep h \<notin> set R"
    by (rule ring_from [OF ok])
  obtain a t where at: "(a, t) \<in> set bs" "n \<le> t" using e by auto
  have "a \<in> set (freep h # R)" unfolding R(2) using at by force
  moreover have "n \<le> hsize h a" using at H(6) by auto
  ultimately have "\<exists>x\<in>set (R @ [freep h]). n \<le> hsize h x" by auto
  then obtain T1 p T2 where T: "R @ [freep h] = T1 @ p # T2" "n \<le> hsize h p" "\<forall>x\<in>set T1. \<not> n \<le> hsize h x"
    by (elim split_list_first_propE) auto
  have sub: "set T1 \<subseteq> set R"
    using T(1) by (cases T2 rule: rev_cases) auto
  have l: "chained h (freep h # T1) p"
  proof (cases T2 rule: rev_cases)
    case Nil
    then show ?thesis using T(1) R(1) by simp
  next
    case (snoc T3 z)
    then have "R = T1 @ p # T3" using T(1) by simp
    then have "chained h ((freep h # T1) @ p # T3) (freep h)" using R(1) by simp
    then show ?thesis unfolding chained_append by simp
  qed
  let ?q = "last (freep h # T1)"
  have "malloc_loop sb n (freep h) (hptr h (freep h)) h w = malloc_loop sb n ?q p h w"
    using sub R(3) T(3) by (intro malloc_walk [OF l]) auto
  moreover have "\<dots> = (case carve n ?q p h of (r, h) \<Rightarrow> Some (r, h, w))"
    using T(2) by (subst malloc_loop.simps) simp
  moreover have "p \<in> set (R @ [freep h])" unfolding T(1) by simp
  then have p: "p \<in> set (base # map fst bs)" unfolding R(2) [symmetric] by auto
  moreover have "p \<noteq> base" using T(2) n H(5) by (auto simp: word_le_nat_alt)
  then obtain s where "(p, s) \<in> set bs" using p by auto
  moreover from this have "n \<le> s" using T(2) H(6) by auto
  moreover have "?q \<in> set (freep h # T1)" by (rule last_in_set) simp
  then have "?q \<in> set (base # map fst bs)" unfolding R(2) [symmetric] using sub by auto
  moreover have "hptr h ?q = p" by (rule chained_last(2) [OF l]) simp
  ultimately show thesis using that by metis
qed

lemma malloc_none:
  assumes ok: "heap_ok base h bs hi" and n: "0 < unat n" and e: "\<forall>(a, t)\<in>set bs. t < n"
  shows "malloc_loop sb n (freep h) (hptr h (freep h)) h w =
    Option.bind (morecore sb n h w) (\<lambda>(p, h, w). if p = 0 then Some (0, h, w) else malloc_loop sb n p (hptr h p) h w)"
proof -
  note H = heap_okD [OF ok]
  obtain R where R: "chained h (freep h # R) (freep h)" "set (freep h # R) = set (base # map fst bs)" "freep h \<notin> set R"
    by (rule ring_from [OF ok])
  have small: "hsize h x < n" if "x \<in> set (freep h # R)" for x
  proof -
    have "x = base \<or> (\<exists>t. (x, t) \<in> set bs)" using that unfolding R(2) by auto
    then show ?thesis using e H(5,6) n by (auto simp: word_less_nat_alt)
  qed
  have "malloc_loop sb n (freep h) (hptr h (freep h)) h w = malloc_loop sb n (last (freep h # R)) (freep h) h w"
    using small R(3) by (intro malloc_walk [OF R(1)]) auto
  also have "\<dots> = Option.bind (morecore sb n h w) (\<lambda>(p, h, w). if p = 0 then Some (0, h, w) else malloc_loop sb n p (hptr h p) h w)"
  proof -
    have ns: "(n \<le> hsize h (freep h)) = False" using small [of "freep h"] by (simp add: not_le)
    show ?thesis by (subst malloc_loop.simps) (simp only: ns if_False refl if_True)
  qed
  finally show ?thesis .
qed

text \<open>What the code relies on of \<^verbatim>\<open>sbrk\<close>: it refuses, or returns the old break and moves it.\<close>

definition sbrk_laws :: "(u32 \<Rightarrow> 'w \<Rightarrow> u32 \<times> 'w) \<Rightarrow> ('w \<Rightarrow> nat) \<Rightarrow> bool" where
  "sbrk_laws sb brk \<longleftrightarrow> (\<forall>n w. case sb n w of (r, w') \<Rightarrow>
     (r = - 1 \<and> brk w' = brk w) \<or>
     (r = of_nat (brk w) \<and> brk w' = brk w + unat n \<and> brk w' < 2 ^ 32))"

lemma sbrk_cases:
  assumes "sbrk_laws sb brk" "sb n w = (r, w')"
  shows "(r = - 1 \<and> brk w' = brk w) \<or> (r = of_nat (brk w) \<and> brk w' = brk w + unat n \<and> brk w' < 2 ^ 32)"
  using assms(1) [unfolded sbrk_laws_def, THEN spec [where x = n], THEN spec [where x = w]] assms(2) by simp

lemma morecore_ok:
  assumes ok: "heap_ok base h bs (brk w)" and sb: "sbrk_laws sb brk" and n: "8 * unat n < 2 ^ 32" and lo: "unat base + 8 \<le> brk w"
  shows "(\<exists>w'. morecore sb n h w = Some (0, h, w') \<and> brk w' = brk w) \<or>
    (\<exists>h' bs' w'. morecore sb n h w = Some (freep h', h', w') \<and> heap_ok base h' bs' (brk w') \<and> brk w \<le> brk w' \<and>
      free_mem bs' = free_mem bs \<union> {brk w..<brk w'} \<and> (\<exists>(a, t)\<in>set bs'. n \<le> t) \<and>
      (\<forall>a. unat a \<notin> free_mem bs \<union> {brk w..<brk w'} \<longrightarrow> hsize h' a = hsize h a))"
proof -
  define m where "m = (if n < 4096 then 4096 else n)"
  have u4: "unat (4096 :: u32) = 4096" by simp
  have m: "8 * unat m < 2 ^ 32" "n \<le> m" "0 < unat m"
    using n by (auto simp: m_def word_less_nat_alt word_le_nat_alt)
  have u: "unat (m * 8) = 8 * unat m" using m(1) by (subst unat_mult_lem [THEN iffD1]) auto
  obtain r w' where r: "sb (m * 8) w = (r, w')" by force
  note sc = sbrk_cases [OF sb r]
  consider (no) "r = - 1" "brk w' = brk w" | (yes) "r = of_nat (brk w)" "brk w' = brk w + 8 * unat m" "brk w' < 2 ^ 32"
    using sc unfolding u by blast
  then show ?thesis
  proof cases
    case no
    then show ?thesis using r by (auto simp: morecore_def Let_def m_def [symmetric])
  next
    case yes
    have ur: "unat r = brk w" using yes by (simp add: unat_of_nat32)
    have "unat (r + 1) = unat r + unat (1 :: u32)" by (rule unat_add_small) (use ur yes m(3) in simp)
    then have "r \<noteq> - 1" by auto
    define h1 where "h1 = set_size r m h"
    note H = heap_okD [OF ok]
    have ob: "unat a < brk w" if "(a, t) \<in> set bs" for a t
      using ordered_bounds(2,3) [OF H(2) that] by linarith
    have "base \<noteq> r" using ur lo by auto
    moreover have "(r, t) \<notin> set bs" for t using ob [of r t] ur by auto
    moreover have "chained h1 (base # map fst bs) base"
      using H(4) by (subst chained_cong [of _ h1 h]) (auto simp: h1_def)
    ultimately have ok1: "heap_ok base h1 bs (brk w')"
      using H(1,2,5,6,7) yes ordered_weaken [OF H(2) order.refl, of "brk w'"] unfolding heap_ok_def by (auto simp: h1_def)
    have ext: "extent (r, m) = {brk w..<brk w'}" using yes(2) ur by (simp add: extent_def)
    have d: "free_mem bs \<inter> extent (r, m) = {}"
      unfolding ext using ordered_bounds(2) [OF H(2)] by (fastforce simp: free_mem_def extent_def)
    obtain h' bs' where f: "ufree (r + 8) h1 = Some h'" "heap_ok base h' bs' (brk w')" "free_mem bs' = free_mem bs \<union> extent (r, m)"
      "\<exists>(a, t)\<in>set bs'. unat m \<le> unat t" "\<And>a. unat a \<notin> free_mem bs \<union> extent (r, m) \<Longrightarrow> hsize h' a = hsize h1 a"
      using ufree_ok [OF ok1 _ m(3) d] lo ur yes(2) by (auto simp: h1_def)
    have "morecore sb n h w = Some (freep h', h', w')"
      using r f(1) \<open>r \<noteq> - 1\<close> by (simp add: morecore_def Let_def m_def [symmetric] h1_def hadd_def)
    moreover from f(4) obtain a t where "(a, t) \<in> set bs'" "m \<le> t" by (auto simp: word_le_nat_alt)
    then have "\<exists>(a, t)\<in>set bs'. n \<le> t" using m(2) by (auto intro: order_trans)
    moreover have "hsize h' a = hsize h a" if "unat a \<notin> free_mem bs \<union> {brk w..<brk w'}" for a
      using f(5) [of a] that ur yes(2) m(3) unfolding ext by (auto simp: h1_def)
    ultimately show ?thesis using f(2,3) yes(2) unfolding ext
      by (intro disjI2 exI [of _ h'] exI [of _ bs'] exI [of _ w']) auto
  qed
qed

definition nunits :: "u32 \<Rightarrow> u32" where
  "nunits nbytes = (nbytes + 8 - 1) div 8 + 1"

lemma unat_nunits:
  assumes "unat nbytes < 2 ^ 31"
  shows "unat (nunits nbytes) = (unat nbytes + 7) div 8 + 1"
proof -
  have "unat (nbytes + 7) = unat nbytes + 7" using assms by (subst unat_add_small) auto
  then have d: "unat ((nbytes + 7) div 8) = (unat nbytes + 7) div 8" by (simp add: unat_div)
  have "(unat nbytes + 7) div 8 < 2 ^ 31" using assms by simp
  then have "unat ((nbytes + 7) div 8 + 1) = (unat nbytes + 7) div 8 + 1" using d by (subst unat_add_small) auto
  moreover have "nbytes + 8 - 1 = nbytes + 7" by simp
  ultimately show ?thesis unfolding nunits_def by (simp only:)
qed

text \<open>The result of \<^verbatim>\<open>malloc\<close> on a heap with a ring: none, or a block cut from free or new memory.\<close>

lemma umalloc_ring:
  assumes ok: "heap_ok base h bs (brk w)" and sb: "sbrk_laws sb brk" and lo: "unat base + 8 \<le> brk w"
    and k: "unat k < 2 ^ 31"
  obtains (refused) w' where "umalloc sb base k h w = Some (0, h, w')" "brk w' = brk w"
  | (block) b h' bs' w' where "umalloc sb base k h w = Some (b + 8, h', w')" "b + 8 \<noteq> 0" "heap_ok base h' bs' (brk w')"
      "brk w \<le> brk w'" "extent (b, nunits k) \<subseteq> free_mem bs \<union> {brk w..<brk w'}"
      "free_mem bs' = free_mem bs \<union> {brk w..<brk w'} - extent (b, nunits k)" "hsize h' b = nunits k"
      "\<And>a. unat a \<notin> free_mem bs \<union> {brk w..<brk w'} \<Longrightarrow> hsize h' a = hsize h a"
proof -
  let ?n = "nunits k"
  have n: "0 < unat ?n" "8 * unat ?n < 2 ^ 32" using unat_nunits [OF k] k by simp_all
  have f0: "freep h' \<noteq> 0" if "heap_ok base h' bs' hi" for h' bs' hi
    using heap_okD(1,7,8) [OF that] by fastforce
  have u: "umalloc sb base k h w = malloc_loop sb ?n (freep h) (hptr h (freep h)) h w"
    using f0 [OF ok] by (simp add: umalloc_def nunits_def Let_def)
  have cut: thesis
    if ok1: "heap_ok base h1 bs1 (brk w1)" and e: "\<exists>(a, t)\<in>set bs1. ?n \<le> t" and le: "brk w \<le> brk w1"
      and fm: "free_mem bs1 = free_mem bs \<union> {brk w..<brk w1}"
      and hd: "\<And>a. unat a \<notin> free_mem bs \<union> {brk w..<brk w1} \<Longrightarrow> hsize h1 a = hsize h a"
      and run: "umalloc sb base k h w = malloc_loop sb ?n (freep h1) (hptr h1 (freep h1)) h1 w1" for h1 bs1 w1
  proof -
    obtain q p s where m: "malloc_loop sb ?n (freep h1) (hptr h1 (freep h1)) h1 w1 = (case carve ?n q p h1 of (r, h) \<Rightarrow> Some (r, h, w1))"
      "(p, s) \<in> set bs1" "?n \<le> s" "q \<in> set (base # map fst bs1)" "hptr h1 q = p"
      by (rule malloc_found [OF ok1 n(1) e])
    obtain b h' bs' where c: "carve ?n q p h1 = (b + 8, h')" "heap_ok base h' bs' (brk w1)" "extent (b, ?n) \<subseteq> extent (p, s)"
      "free_mem bs' = free_mem bs1 - extent (b, ?n)" "hsize h' b = ?n"
      "\<forall>a. unat a \<notin> free_mem bs1 \<longrightarrow> hsize h' a = hsize h1 a"
      by (rule carve_ok [OF ok1 m(2,3) n(1) m(4,5)])
    have sub: "extent (b, ?n) \<subseteq> free_mem bs1" using c(3) m(2) by (auto simp: free_mem_def)
    have "unat p + 8 * unat s \<le> brk w1" "brk w1 < 2 ^ 32"
      using ordered_bounds(2) [OF heap_okD(2) [OF ok1] m(2)] heap_okD(3) [OF ok1] by auto
    moreover have "unat b + 7 \<in> extent (b, ?n)" using n(1) by (simp add: extent_def)
    then have "unat b + 7 \<in> extent (p, s)" using c(3) by blast
    ultimately have "unat (b + 8) = unat b + 8" by (subst unat_add_small) (auto simp: extent_def)
    then have "b + 8 \<noteq> 0" by (metis add_is_0 unat_0 zero_neq_numeral)
    then show thesis
      using block [of b h' w1 bs'] run m(1) c le sub hd unfolding fm by simp
  qed
  show thesis
  proof (cases "\<exists>(a, t)\<in>set bs. ?n \<le> t")
    case True
    then show thesis using cut [OF ok] u by simp
  next
    case False
    then have "\<forall>(a, t)\<in>set bs. t < ?n" by auto
    note mn = malloc_none [OF ok n(1) this, of sb w]
    from morecore_ok [OF ok sb n(2) lo] show thesis
    proof (elim disjE exE conjE)
      fix w'
      assume "morecore sb ?n h w = Some (0, h, w')" "brk w' = brk w"
      then show thesis using refused u mn by simp
    next
      fix h1 bs1 w1
      assume a: "morecore sb ?n h w = Some (freep h1, h1, w1)" "heap_ok base h1 bs1 (brk w1)" "brk w \<le> brk w1"
        "free_mem bs1 = free_mem bs \<union> {brk w..<brk w1}" "\<exists>(a, t)\<in>set bs1. ?n \<le> t"
        "\<forall>a. unat a \<notin> free_mem bs \<union> {brk w..<brk w1} \<longrightarrow> hsize h1 a = hsize h a"
      have "umalloc sb base k h w = malloc_loop sb ?n (freep h1) (hptr h1 (freep h1)) h1 w1"
        using u mn a(1) f0 [OF a(2)] by simp
      then show thesis using cut [OF a(2,5,3,4)] a(6) by blast
    qed
  qed
qed

section \<open>A program that allocates and frees\<close>

text \<open>
  A client keeps its live blocks: header address, units, and the bytes it asked for. It frees only blocks
  it holds.
\<close>

datatype uop = Malloc u32 | Free nat

type_synonym ublock = "u32 \<times> u32 \<times> u32"

fun ustep :: "(u32 \<Rightarrow> 'w \<Rightarrow> u32 \<times> 'w) \<Rightarrow> u32 \<Rightarrow> uop \<Rightarrow> mheap \<times> 'w \<times> ublock list \<Rightarrow> (mheap \<times> 'w \<times> ublock list) option" where
  "ustep sb base (Malloc k) (h, w, live) =
     Option.bind (umalloc sb base k h w) (\<lambda>(r, h, w).
       Some (h, w, if r = 0 then live else (r - 8, hsize h (r - 8), k) # live))"
| "ustep sb base (Free i) (h, w, live) =
     (if i < length live then
        Option.bind (ufree (fst (live ! i) + 8) h) (\<lambda>h. Some (h, w, take i live @ drop (Suc i) live))
      else Some (h, w, live))"

fun urun :: "(u32 \<Rightarrow> 'w \<Rightarrow> u32 \<times> 'w) \<Rightarrow> u32 \<Rightarrow> uop list \<Rightarrow> mheap \<times> 'w \<times> ublock list \<Rightarrow> (mheap \<times> 'w \<times> ublock list) option" where
  "urun sb base [] c = Some c"
| "urun sb base (op # ops) c = Option.bind (ustep sb base op c) (urun sb base ops)"

definition uext :: "ublock \<Rightarrow> nat set" where
  "uext x = extent (fst x, fst (snd x))"

text \<open>Every byte obtained from the system is in exactly one block, free or live, and live blocks are large enough.\<close>

definition blocks_partition :: "(u32 \<times> u32) list \<Rightarrow> ublock list \<Rightarrow> nat set \<Rightarrow> bool" where
  "blocks_partition bs live mem \<longleftrightarrow> sorted_wrt (\<lambda>x y. uext x \<inter> uext y = {}) live \<and>
     free_mem bs \<inter> \<Union> (uext ` set live) = {} \<and> free_mem bs \<union> \<Union> (uext ` set live) = mem \<and>
     (\<forall>(b, n, k)\<in>set live. unat k + 8 \<le> 8 * unat n)"

definition client_ok :: "u32 \<Rightarrow> ('w \<Rightarrow> nat) \<Rightarrow> nat \<Rightarrow> mheap \<times> 'w \<times> ublock list \<Rightarrow> bool" where
  "client_ok base brk b0 c \<longleftrightarrow> (case c of (h, w, live) \<Rightarrow> b0 \<le> brk w \<and> brk w < 2 ^ 32 \<and>
     (\<exists>bs. (freep h = 0 \<and> bs = [] \<and> live = [] \<or> heap_ok base h bs (brk w)) \<and> blocks_partition bs live {b0..<brk w} \<and>
       (\<forall>(b, n, k)\<in>set live. hsize h b = n)))"

lemma umalloc_first:
  assumes "freep h = 0" "base \<noteq> 0"
  shows "umalloc sb base k h w = umalloc sb base k (set_size base 0 ((set_ptr base base h)\<lparr>freep := base\<rparr>)) w"
  using assms by (simp add: umalloc_def Let_def)

lemma heap_ok_first:
  "base \<noteq> 0 \<Longrightarrow> unat base + 8 \<le> hi \<Longrightarrow> hi < 2 ^ 32 \<Longrightarrow>
   heap_ok base (set_size base 0 ((set_ptr base base h)\<lparr>freep := base\<rparr>)) [] hi"
  by (simp add: heap_ok_def chained_Cons)

lemma client_ring_malloc:
  assumes ok: "heap_ok base h bs (brk w)" and part: "blocks_partition bs live {b0..<brk w}" "\<forall>(b, n, k)\<in>set live. hsize h b = n"
    and sb: "sbrk_laws sb brk" and lo: "unat base + 8 \<le> b0" "b0 \<le> brk w" and k: "unat k < 2 ^ 31"
  shows "\<exists>c. ustep sb base (Malloc k) (h, w, live) = Some c \<and> client_ok base brk b0 c"
proof -
  have lo': "unat base + 8 \<le> brk w" using lo by simp
  show ?thesis
  proof (cases rule: umalloc_ring [OF ok sb lo' k])
    case (1 w')
    then show ?thesis using part ok heap_okD(3) [OF ok] lo(2) by (auto simp: client_ok_def)
  next
    case (2 b h' bs' w')
    let ?x = "(b, nunits k, k)"
    have st: "ustep sb base (Malloc k) (h, w, live) = Some (h', w', ?x # live)" using 2(1,2,7) by simp
    have ux: "uext ?x = extent (b, nunits k)" by (simp add: uext_def)
    have old: "y \<subseteq> {b0..<brk w}" "free_mem bs \<inter> y = {}" if "y \<in> uext ` set live" for y
      using part(1) that unfolding blocks_partition_def by blast+
    have dj: "uext ?x \<inter> y = {}" if "y \<in> uext ` set live" for y
      using old [OF that] 2(5) unfolding ux by force
    have k8: "unat k + 8 \<le> 8 * unat (nunits k)" using unat_nunits [OF k] by simp
    have "blocks_partition bs' (?x # live) {b0..<brk w'}" unfolding blocks_partition_def
    proof (intro conjI)
      show "sorted_wrt (\<lambda>x y. uext x \<inter> uext y = {}) (?x # live)" using dj part(1) by (simp add: blocks_partition_def)
      show "free_mem bs' \<inter> \<Union> (uext ` set (?x # live)) = {}" unfolding 2(6) using old by (force simp: ux)
      have "{b0..<brk w'} = {b0..<brk w} \<union> {brk w..<brk w'}" using 2(4) lo(2) by auto
      then show "free_mem bs' \<union> \<Union> (uext ` set (?x # live)) = {b0..<brk w'}"
        using 2(5) part(1) unfolding 2(6) blocks_partition_def by (auto simp: ux)
      show "\<forall>(b, n, k)\<in>set (?x # live). unat k + 8 \<le> 8 * unat n" using k8 part(1) by (simp add: blocks_partition_def)
    qed
    moreover have "hsize h' b' = n'" if "(b', n', k') \<in> set live" for b' n' k'
    proof -
      have "0 < unat n'" using part(1) that unfolding blocks_partition_def by fastforce
      then have "unat b' \<in> uext (b', n', k')" by (simp add: uext_def extent_def)
      moreover have y: "uext (b', n', k') \<in> uext ` set live" using that by (rule imageI)
      ultimately have "unat b' \<notin> free_mem bs \<union> {brk w..<brk w'}" using old [OF y] by auto
      then show ?thesis using 2(8) part(2) that by fastforce
    qed
    ultimately have "client_ok base brk b0 (h', w', ?x # live)"
      unfolding client_ok_def using 2(3,4,7) lo(2) heap_okD(3) [OF 2(3)] by auto
    then show ?thesis using st by blast
  qed
qed

text \<open>Moving one live block to the free ones keeps the partition, and nothing else overlaps it.\<close>

lemma blocks_partition_take:
  assumes p: "blocks_partition bs (xs @ (b, n, k) # ys) mem"
  shows "extent (b, n) \<subseteq> mem" "free_mem bs \<inter> extent (b, n) = {}" "unat k + 8 \<le> 8 * unat n"
    "free_mem bs' = free_mem bs \<union> extent (b, n) \<Longrightarrow> blocks_partition bs' (xs @ ys) mem"
proof -
  have ux: "uext (b, n, k) = extent (b, n)" by (simp add: uext_def)
  note P = p [unfolded blocks_partition_def sorted_wrt_append set_append list.set image_Un image_insert Union_Un_distrib Union_insert ux]
  show "extent (b, n) \<subseteq> mem" "free_mem bs \<inter> extent (b, n) = {}" using P by blast+
  show "unat k + 8 \<le> 8 * unat n" using P by simp
  assume f: "free_mem bs' = free_mem bs \<union> extent (b, n)"
  have s: "sorted_wrt (\<lambda>x y. uext x \<inter> uext y = {}) xs" "sorted_wrt (\<lambda>x y. uext x \<inter> uext y = {}) ys"
    "\<forall>x\<in>set xs. \<forall>y\<in>set ys. uext x \<inter> uext y = {}" "\<forall>x\<in>set xs. uext x \<inter> extent (b, n) = {}" "\<forall>y\<in>set ys. extent (b, n) \<inter> uext y = {}"
    using P by (auto simp: uext_def)
  have k: "\<forall>(b, n, k)\<in>set (xs @ ys). unat k + 8 \<le> 8 * unat n" using P by auto
  have "free_mem bs' \<inter> \<Union> (uext ` set (xs @ ys)) = {}" unfolding f using P s(4,5) by (auto; blast)
  moreover have "free_mem bs' \<union> \<Union> (uext ` set (xs @ ys)) = mem" unfolding f using P by auto
  ultimately show "blocks_partition bs' (xs @ ys) mem" using s(1-3) k by (simp add: blocks_partition_def sorted_wrt_append)
qed

lemma client_free:
  assumes ok: "heap_ok base h bs (brk w)" and part: "blocks_partition bs live {b0..<brk w}" "\<forall>(b, n, k)\<in>set live. hsize h b = n"
    and lo: "unat base + 8 \<le> b0" "b0 \<le> brk w" and i: "i < length live"
  shows "\<exists>c. ustep sb base (Free i) (h, w, live) = Some c \<and> client_ok base brk b0 c"
proof -
  obtain b n k where x: "live ! i = (b, n, k)" by (metis prod_cases3)
  define rest where "rest = take i live @ drop (Suc i) live"
  have L: "live = take i live @ (b, n, k) # drop (Suc i) live" using id_take_nth_drop [OF i] x by simp
  have "(b, n, k) \<in> set live" using nth_mem [OF i] x by simp
  then have hs: "hsize h b = n" using part(2) by blast
  note P = blocks_partition_take [OF part(1) [unfolded L [THEN arg_cong, of "\<lambda>x. blocks_partition bs x {b0..<brk w}"]]]
  have n: "0 < unat n" using P(3) by linarith
  have "unat b \<in> extent (b, n)" "unat b + 8 * unat n - 1 \<in> extent (b, n)" using n by (auto simp: extent_def)
  then have "unat b \<in> {b0..<brk w}" "unat b + 8 * unat n - 1 \<in> {b0..<brk w}" using P(1) by blast+
  then have rng: "unat base + 8 \<le> unat b" "unat b + 8 * unat n \<le> brk w" using lo(1) n by auto
  obtain h' bs' where f: "ufree (b + 8) h = Some h'" "heap_ok base h' bs' (brk w)" "free_mem bs' = free_mem bs \<union> extent (b, n)"
    "\<forall>a. unat a \<notin> free_mem bs \<union> extent (b, n) \<longrightarrow> hsize h' a = hsize h a"
    by (rule ufree_ok [OF ok hs n P(2) rng]) simp
  have p': "blocks_partition bs' rest {b0..<brk w}" unfolding rest_def by (rule P(4) [OF f(3)])
  have sub: "set rest \<subseteq> set live" unfolding rest_def using set_take_subset set_drop_subset by fastforce
  have "hsize h' b' = n'" if "(b', n', k') \<in> set rest" for b' n' k'
  proof -
    from that obtain xs ys where "rest = xs @ (b', n', k') # ys" by (metis in_set_conv_decomp)
    then have "free_mem bs' \<inter> extent (b', n') = {}" "unat k' + 8 \<le> 8 * unat n'"
      using blocks_partition_take(2,3) p' by blast+
    then have "unat b' \<notin> free_mem bs'" by (auto simp: uext_def extent_def)
    then show ?thesis using f(3,4) part(2) sub that by auto
  qed
  with p' have "client_ok base brk b0 (h', w, rest)"
    unfolding client_ok_def using f(2) lo(2) heap_okD(3) [OF ok] by auto
  moreover have "ustep sb base (Free i) (h, w, live) = Some (h', w, rest)" using i x f(1) by (simp add: rest_def)
  ultimately show ?thesis by blast
qed

lemma client_step:
  assumes c: "client_ok base brk b0 c" and sb: "sbrk_laws sb brk" and base: "base \<noteq> 0" "unat base + 8 \<le> b0"
    and op: "\<And>k. op = Malloc k \<Longrightarrow> unat k < 2 ^ 31"
  shows "\<exists>c'. ustep sb base op c = Some c' \<and> client_ok base brk b0 c'"
proof -
  obtain h w live where c': "c = (h, w, live)" by (metis prod_cases3)
  obtain bs where r: "b0 \<le> brk w" "brk w < 2 ^ 32" "freep h = 0 \<and> bs = [] \<and> live = [] \<or> heap_ok base h bs (brk w)"
    "blocks_partition bs live {b0..<brk w}" "\<forall>(b, n, k)\<in>set live. hsize h b = n"
    using c unfolding client_ok_def c' by auto
  show ?thesis
  proof (cases op)
    case (Malloc k)
    show ?thesis
    proof (cases "heap_ok base h bs (brk w)")
      case True
      show ?thesis unfolding Malloc c' by (rule client_ring_malloc [OF True r(4,5) sb base(2) r(1) op [OF Malloc]])
    next
      case False
      let ?h = "set_size base 0 ((set_ptr base base h)\<lparr>freep := base\<rparr>)"
      have z: "freep h = 0" "bs = []" "live = []" using r(3) False by auto
      have ok: "heap_ok base ?h [] (brk w)" using base r(1,2) by (intro heap_ok_first) auto
      have "blocks_partition [] live {b0..<brk w}" "\<forall>(b, n, k)\<in>set live. hsize ?h b = n" using r(4) z(2,3) by auto
      from client_ring_malloc [OF ok this sb base(2) r(1) op [OF Malloc]]
      have "\<exists>c. ustep sb base (Malloc k) (?h, w, live) = Some c \<and> client_ok base brk b0 c" .
      then show ?thesis unfolding Malloc c' ustep.simps umalloc_first [OF z(1) base(1), of sb k w] .
    qed
  next
    case (Free i)
    show ?thesis
    proof (cases "i < length live")
      case True
      then have "heap_ok base h bs (brk w)" using r(3) by auto
      from client_free [of base h bs brk w, OF this r(4,5) base(2) r(1) True] show ?thesis unfolding Free c' .
    next
      case False
      then show ?thesis using Free c' c by simp
    qed
  qed
qed

text \<open>
  C6: The allocator is safe and loses nothing. On any \<^verbatim>\<open>sbrk\<close> that refuses or extends the break, every
  sequence of calls of \<^verbatim>\<open>malloc\<close> (for less than 2 GB) and \<^verbatim>\<open>free\<close> (of blocks that are live) runs to its end. At
  the end every byte the system has given out lies in exactly one block, free or live: live blocks overlap
  neither each other nor free memory, each is as large as was asked for, and the free list holds all the rest.
\<close>

theorem umalloc_partition:
  assumes sb: "sbrk_laws sb brk" and base: "base \<noteq> 0" "unat base + 8 \<le> brk w0" and w0: "brk w0 < 2 ^ 32"
    and h: "freep h = 0" and ops: "\<forall>k. Malloc k \<in> set ops \<longrightarrow> unat k < 2 ^ 31"
  shows "\<exists>h' w live bs. urun sb base ops (h, w0, []) = Some (h', w, live) \<and>
    (freep h' = 0 \<and> bs = [] \<or> heap_ok base h' bs (brk w)) \<and> blocks_partition bs live {brk w0..<brk w}"
proof -
  have run: "\<exists>c'. urun sb base ops c = Some c' \<and> client_ok base brk (brk w0) c'"
    if "client_ok base brk (brk w0) c" "\<forall>k. Malloc k \<in> set ops \<longrightarrow> unat k < 2 ^ 31" for c
    using that
  proof (induction ops arbitrary: c)
    case (Cons op ops)
    have "unat k < 2 ^ 31" if "op = Malloc k" for k using that Cons(3) by simp
    from client_step [OF Cons(2) sb base this]
    obtain c1 where "ustep sb base op c = Some c1" "client_ok base brk (brk w0) c1" by blast
    then show ?case using Cons(1) [of c1] Cons(3) by auto
  qed simp
  have "client_ok base brk (brk w0) (h, w0, [])" using w0 h by (auto simp: client_ok_def blocks_partition_def)
  from run [OF this ops] show ?thesis by (auto simp: client_ok_def split: prod.splits)
qed

text \<open>A system with 1 MB to give, for the witness.\<close>

definition small_sbrk :: "u32 \<Rightarrow> nat \<Rightarrow> u32 \<times> nat" where
  "small_sbrk n w = (if w + unat n < 0x100000 then (of_nat w, w + unat n) else (- 1, w))"

theorem umalloc_partition_witness:
  "\<exists>h' w live bs. urun small_sbrk 0x1000 [Malloc 100, Malloc 5000, Free 1, Malloc 40]
      (\<lparr>hptr = (\<lambda>_. 0), hsize = (\<lambda>_. 0), freep = 0\<rparr>, 0x2000, []) = Some (h', w, live) \<and>
    (freep h' = 0 \<and> bs = [] \<or> heap_ok 0x1000 h' bs w) \<and> blocks_partition bs live {0x2000..<w}"
proof -
  have "sbrk_laws small_sbrk id" by (auto simp: sbrk_laws_def small_sbrk_def)
  from umalloc_partition [OF this, of "0x1000" "0x2000" "\<lparr>hptr = (\<lambda>_. 0), hsize = (\<lambda>_. 0), freep = 0\<rparr>"
      "[Malloc 100, Malloc 5000, Free 1, Malloc 40]"]
  show ?thesis by auto
qed

end
