(* ===== verification/Exec.thy ===== *)
theory Exec
  imports Sysfile Kvm Log
begin

text \<open>
  Running a program (\<^verbatim>\<open>exec.c\<close>) from an executable file (\<^verbatim>\<open>elf.h\<close>). The inode layer is the record \<open>kcalls\<close> of the
  file-system calls; the operations on user memory, commented out in \<^verbatim>\<open>vm.c\<close>, are a second record. \<^verbatim>\<open>setupkvm\<close>
  is the one of \<^verbatim>\<open>vm.c\<close>. C strings are strings without their terminator.
\<close>

section \<open>elf.h\<close>

definition ELF_MAGIC :: u32 where "ELF_MAGIC = 0x464C457F"
definition ELF_PROG_LOAD :: u32 where "ELF_PROG_LOAD = 1"

record elfhdr =
  eh_magic :: u32
  eh_elf :: "u8 list"
  eh_type :: u16
  eh_machine :: u16
  eh_version :: u32
  eh_entry :: u32
  eh_phoff :: u32
  eh_shoff :: u32
  eh_flags :: u32
  eh_ehsize :: u16
  eh_phentsize :: u16
  eh_phnum :: u16
  eh_shentsize :: u16
  eh_shnum :: u16
  eh_shstrndx :: u16

record proghdr =
  ph_type :: u32
  ph_off :: u32
  ph_vaddr :: u32
  ph_paddr :: u32
  ph_filesz :: u32
  ph_memsz :: u32
  ph_flags :: u32
  ph_align :: u32

definition get16 :: "u8 list \<Rightarrow> nat \<Rightarrow> u16" where
  "get16 b k = ucast (b ! k) OR push_bit 8 (ucast (b ! (k + 1)))"

text \<open>The structures as the bytes of a little-endian machine.\<close>

definition elfhdr_of :: "u8 list \<Rightarrow> elfhdr" where
  "elfhdr_of b = \<lparr>eh_magic = get32 b 0, eh_elf = take 12 (drop 4 b), eh_type = get16 b 16, eh_machine = get16 b 18,
     eh_version = get32 b 20, eh_entry = get32 b 24, eh_phoff = get32 b 28, eh_shoff = get32 b 32, eh_flags = get32 b 36,
     eh_ehsize = get16 b 40, eh_phentsize = get16 b 42, eh_phnum = get16 b 44, eh_shentsize = get16 b 46,
     eh_shnum = get16 b 48, eh_shstrndx = get16 b 50\<rparr>"

definition proghdr_of :: "u8 list \<Rightarrow> proghdr" where
  "proghdr_of b = \<lparr>ph_type = get32 b 0, ph_off = get32 b 4, ph_vaddr = get32 b 8, ph_paddr = get32 b 12,
     ph_filesz = get32 b 16, ph_memsz = get32 b 20, ph_flags = get32 b 24, ph_align = get32 b 28\<rparr>"

section \<open>exec.c\<close>

text \<open>The fields of the process and of its trap frame that \<^verbatim>\<open>exec\<close> sets.\<close>

record xproc =
  x_sz :: u32
  x_pgdir :: u32
  x_eip :: u32
  x_esp :: u32
  x_name :: string

text \<open>The operations on user memory and on the process that are not live, and the arguments of \<^verbatim>\<open>setupkvm\<close>.\<close>

record 's ucalls =
  allocuvm :: "u32 \<Rightarrow> u32 \<Rightarrow> u32 \<Rightarrow> 's \<Rightarrow> u32 \<times> 's"
  loaduvm :: "u32 \<Rightarrow> u32 \<Rightarrow> u32 \<Rightarrow> u32 \<Rightarrow> u32 \<Rightarrow> 's \<Rightarrow> int \<times> 's"
  clearpteu :: "u32 \<Rightarrow> u32 \<Rightarrow> 's \<Rightarrow> 's"
  copyout :: "u32 \<Rightarrow> u32 \<Rightarrow> string \<Rightarrow> 's \<Rightarrow> int \<times> 's"
  switchuvm :: "xproc \<Rightarrow> 's \<Rightarrow> 's"
  freevm :: "u32 \<Rightarrow> 's \<Rightarrow> 's"
  safestrcpy :: "string \<Rightarrow> nat \<Rightarrow> string"
  u_target :: target
  u_trans :: trans
  u_data :: u32
  u_end :: u32
  u_pgdir :: u32

type_synonym 'k kst = "kstate \<times> 'k"

definition exec_setupkvm :: "'k kst ucalls \<Rightarrow> 'k kst \<Rightarrow> (u32 \<times> 'k kst) res" where
  "exec_setupkvm U s =
     bindR (setupkvm (u_target U) (u_trans U) (u_data U) (u_end U) (u_pgdir U) (fst s)) (\<lambda>r.
       case r of (pgdir, ks) \<Rightarrow> Inr (pgdir, ks, snd s))"

text \<open>The loop over the program headers, \<open>n\<close> of them left; \<open>None\<close> is the jump to \<^verbatim>\<open>bad\<close>.\<close>

fun load_segs :: "'s kcalls \<Rightarrow> 's ucalls \<Rightarrow> u32 \<Rightarrow> u32 \<Rightarrow> nat \<Rightarrow> u32 \<Rightarrow> u32 \<Rightarrow> 's \<Rightarrow> u32 option \<times> 's" where
  "load_segs K U ip pgdir 0 off sz s = (Some sz, s)"
| "load_segs K U ip pgdir (Suc n) off sz s =
     (case readi K ip off 32 s of (r, b, s) \<Rightarrow>
      if r \<noteq> 32 then (None, s)
      else let ph = proghdr_of b in
      if ph_type ph \<noteq> ELF_PROG_LOAD then load_segs K U ip pgdir n (off + 32) sz s
      else if ph_memsz ph < ph_filesz ph then (None, s)
      else (case allocuvm U pgdir sz (ph_vaddr ph + ph_memsz ph) s of (sz, s) \<Rightarrow>
        if sz = 0 then (None, s)
        else (case loaduvm U pgdir (ph_vaddr ph) ip (ph_off ph) (ph_filesz ph) s of (r, s) \<Rightarrow>
          if r < 0 then (None, s) else load_segs K U ip pgdir n (off + 32) sz s)))"

text \<open>The loop over the arguments: the stack pointer after it, their number and the array \<^verbatim>\<open>ustack\<close>.\<close>

fun push_args :: "'s ucalls \<Rightarrow> u32 \<Rightarrow> string list \<Rightarrow> nat \<Rightarrow> u32 \<Rightarrow> u32 list \<Rightarrow> 's \<Rightarrow> (nat \<times> u32 \<times> u32 list) option \<times> 's" where
  "push_args U pgdir [] argc sp ustack s = (Some (argc, sp, ustack), s)"
| "push_args U pgdir (a # argv) argc sp ustack s =
     (if argc \<ge> MAXARG then (None, s)
      else let sp = (sp - of_nat (length a + 1)) AND NOT 3 in
        (case copyout U pgdir sp (a @ [CHR 0x00]) s of (r, s) \<Rightarrow>
          if r < 0 then (None, s) else push_args U pgdir argv (argc + 1) sp (ustack[3 + argc := sp]) s))"

text \<open>The words of \<^verbatim>\<open>ustack\<close> as bytes; the array is not initialised, and \<open>exec_stack\<close> copies only words it has set.\<close>

definition word_chars :: "u32 \<Rightarrow> string" where
  "word_chars v = [char_of (unat v mod 256), char_of (unat (v div 256) mod 256), char_of (unat (v div 65536) mod 256),
     char_of (unat (v div 16777216) mod 256)]"

definition exec_stack :: "'s ucalls \<Rightarrow> u32 \<Rightarrow> string list \<Rightarrow> u32 \<Rightarrow> 's \<Rightarrow> u32 option \<times> 's" where
  "exec_stack U pgdir argv sz s =
     (case push_args U pgdir argv 0 sz (replicate (3 + MAXARG + 1) 0) s of
        (None, s) \<Rightarrow> (None, s)
      | (Some (argc, sp, ustack), s) \<Rightarrow>
          let ustack = ustack[3 + argc := 0];
              ustack = ustack[0 := 0xffffffff];
              ustack = ustack[1 := of_nat argc];
              ustack = ustack[2 := sp - of_nat ((argc + 1) * 4)];
              sp = sp - of_nat ((3 + argc + 1) * 4)
          in (case copyout U pgdir sp (concat (map word_chars (take (3 + argc + 1) ustack))) s of (r, s) \<Rightarrow>
            if r < 0 then (None, s) else (Some sp, s)))"

text \<open>What follows the last slash of the path.\<close>

fun last_elem :: "string \<Rightarrow> string \<Rightarrow> string" where
  "last_elem lst [] = lst"
| "last_elem lst (c # s) = last_elem (if c = CHR ''/'' then s else lst) s"

definition exec_bad :: "'s kcalls \<Rightarrow> 's ucalls \<Rightarrow> u32 \<Rightarrow> u32 \<Rightarrow> xproc \<Rightarrow> 's \<Rightarrow> (int \<times> xproc \<times> 's) res" where
  "exec_bad K U pgdir ip p s =
     (let s = (if pgdir \<noteq> 0 then freevm U pgdir s else s);
          s = (if ip \<noteq> 0 then iunlockput K ip s else s)
      in Inr (- 1, p, s))"

definition exec_commit :: "'s ucalls \<Rightarrow> string \<Rightarrow> u32 \<Rightarrow> u32 \<Rightarrow> u32 \<Rightarrow> u32 \<Rightarrow> xproc \<Rightarrow> 's \<Rightarrow> (int \<times> xproc \<times> 's) res" where
  "exec_commit U path pgdir sz entry sp p s =
     (let p = p\<lparr>x_name := safestrcpy U (last_elem path path) 16\<rparr>;
          oldpgdir = x_pgdir p;
          p = p\<lparr>x_pgdir := pgdir, x_sz := sz, x_eip := entry, x_esp := sp\<rparr>;
          s = switchuvm U p s
      in Inr (0, p, freevm U oldpgdir s))"

text \<open>From the loading of the program on.\<close>

definition exec_load :: "'s kcalls \<Rightarrow> 's ucalls \<Rightarrow> string \<Rightarrow> string list \<Rightarrow> u32 \<Rightarrow> elfhdr \<Rightarrow> u32 \<Rightarrow> xproc \<Rightarrow> 's \<Rightarrow> (int \<times> xproc \<times> 's) res" where
  "exec_load K U path argv ip elf pgdir p s =
     (case load_segs K U ip pgdir (unat (eh_phnum elf)) (eh_phoff elf) 0 s of
        (None, s) \<Rightarrow> exec_bad K U pgdir ip p s
      | (Some sz, s) \<Rightarrow>
          let s = iunlockput K ip s; sz = PGROUNDUP sz in
          (case allocuvm U pgdir sz (sz + 2 * PGSIZE) s of (sz, s) \<Rightarrow>
            if sz = 0 then exec_bad K U pgdir 0 p s
            else let s = clearpteu U pgdir (sz - 2 * PGSIZE) s in
            (case exec_stack U pgdir argv sz s of
              (None, s) \<Rightarrow> exec_bad K U pgdir 0 p s
            | (Some sp, s) \<Rightarrow> exec_commit U path pgdir sz (eh_entry elf) sp p s)))"

text \<open>The length that \<^verbatim>\<open>readi\<close> returns is compared as an unsigned number.\<close>

definition exec :: "'k kst kcalls \<Rightarrow> 'k kst ucalls \<Rightarrow> string \<Rightarrow> string list \<Rightarrow> xproc \<Rightarrow> 'k kst \<Rightarrow> (int \<times> xproc \<times> 'k kst) res" where
  "exec K U path argv p s =
     (case namei K path s of (ip, s) \<Rightarrow>
      if ip = 0 then Inr (- 1, p, s)
      else let s = ilock K ip s in
      case readi K ip 0 52 s of (r, b, s) \<Rightarrow>
      if (word_of_int r :: u32) < 52 then exec_bad K U 0 ip p s
      else let elf = elfhdr_of b in
      if eh_magic elf \<noteq> ELF_MAGIC then exec_bad K U 0 ip p s
      else bindR (exec_setupkvm U s) (\<lambda>(pgdir, s).
        if pgdir = 0 then exec_bad K U 0 ip p s else exec_load K U path argv ip elf pgdir p s))"

section \<open>Bytes and words in memory\<close>

fun writes :: "u32 \<Rightarrow> string \<Rightarrow> (u32 \<Rightarrow> char option) \<Rightarrow> u32 \<Rightarrow> char option" where
  "writes va [] m = m"
| "writes va (c # cs) m = writes (va + 1) cs (m(va \<mapsto> c))"

lemma writes_at:
  assumes "unat va + length cs \<le> 2 ^ 32"
  shows "writes va cs m a = (if unat va \<le> unat a \<and> unat a < unat va + length cs then Some (cs ! (unat a - unat va)) else m a)"
  using assms
proof (induction cs arbitrary: va m)
  case (Cons c cs)
  show ?case
  proof (cases cs)
    case Nil
    then show ?thesis by (auto simp: word32_eq_iff)
  next
    case nonempty: (Cons c' cs')
    then have u: "unat (va + 1) = unat va + 1" using Cons.prems by (intro trans [OF unat_add32_small]) auto
    have "unat (va + 1) + length cs \<le> 2 ^ 32" using u Cons.prems by simp
    note ih = Cons.IH [OF this, of "m(va \<mapsto> c)"]
    consider "a = va" | "unat a < unat va" | "unat va < unat a" using word32_eq_iff [of a va] by linarith
    then show ?thesis
    proof cases
      case 1
      then show ?thesis using ih u by (simp add: fun_upd_same del: fun_upd_apply)
    next
      case 3
      then have "unat a - unat va = Suc (unat a - (unat va + 1))" "a \<noteq> va" by auto
      then show ?thesis using 3 by (simp add: ih u)
    qed (auto simp: ih u)
  qed
qed auto

text \<open>The string \<open>t\<close>, with its terminator, at \<open>a\<close>; the word \<open>v\<close> at \<open>a\<close>.\<close>

definition string_at :: "(u32 \<Rightarrow> char option) \<Rightarrow> u32 \<Rightarrow> string \<Rightarrow> bool" where
  "string_at m a t \<longleftrightarrow> (\<forall>i<length t + 1. m (a + of_nat i) = Some ((t @ [CHR 0x00]) ! i))"

definition word_at :: "(u32 \<Rightarrow> char option) \<Rightarrow> u32 \<Rightarrow> u32 \<Rightarrow> bool" where
  "word_at m a v \<longleftrightarrow> (\<forall>i<4. m (a + of_nat i) \<noteq> None) \<and> load_int (\<lambda>a. the (m a)) a = v"

lemma length_word_chars [simp]: "length (word_chars v) = 4"
  by (simp add: word_chars_def)

lemma of_char_byte: "of_char (char_of (n :: nat)) = (of_nat (n mod 256) :: u32)"
  by (metis of_char_of of_nat_of_char)

lemma word_chars_value:
  "of_char (word_chars v ! 0) + 256 * of_char (word_chars v ! 1) + 65536 * of_char (word_chars v ! 2)
     + 16777216 * of_char (word_chars v ! 3) = v"
proof -
  let ?n = "unat v"
  have d: "unat (v div 256) = ?n div 256" "unat (v div 65536) = ?n div 65536" "unat (v div 16777216) = ?n div 16777216"
    by (simp_all add: unat_div)
  have l: "?n < 4294967296" using unat_lt32 [of v] by simp
  have 1: "?n = 256 * (?n div 256) + ?n mod 256" by simp
  have 2: "?n div 256 = 256 * (?n div 65536) + ?n div 256 mod 256" using div_mult_mod_eq [of "?n div 256" 256] by (simp add: div_mult2_eq [symmetric])
  have 3: "?n div 65536 = 256 * (?n div 16777216) + ?n div 65536 mod 256" using div_mult_mod_eq [of "?n div 65536" 256] by (simp add: div_mult2_eq [symmetric])
  have 4: "?n div 16777216 mod 256 = ?n div 16777216" using l by (intro mod_less) (simp add: less_mult_imp_div_less)
  have "?n mod 256 + 256 * (?n div 256 mod 256) + 65536 * (?n div 65536 mod 256) + 16777216 * (?n div 16777216 mod 256) = ?n"
    using 1 2 3 4 by linarith
  from arg_cong [OF this, of "of_nat :: nat \<Rightarrow> u32"]
  have "of_nat (?n mod 256) + 256 * of_nat (?n div 256 mod 256) + 65536 * of_nat (?n div 65536 mod 256)
      + 16777216 * of_nat (?n div 16777216 mod 256) = (of_nat ?n :: u32)"
    by (simp only: of_nat_add of_nat_mult of_nat_numeral)
  then show ?thesis by (simp add: word_chars_def of_char_byte d)
qed

lemma concat_words_nth:
  "i < length ws \<Longrightarrow> j < 4 \<Longrightarrow> concat (map word_chars ws) ! (4 * i + j) = word_chars (ws ! i) ! j"
proof (induction ws arbitrary: i)
  case (Cons w ws)
  then show ?case by (cases i) (auto simp: nth_append)
qed simp

lemma length_concat_words [simp]: "length (concat (map word_chars ws)) = 4 * length ws"
  by (induction ws) simp_all

lemma word_at_writes:
  assumes n: "unat va + 4 * length ws \<le> 2 ^ 32" and i: "i < length ws"
  shows "word_at (writes va (concat (map word_chars ws)) m) (va + of_nat (4 * i)) (ws ! i)"
proof -
  let ?m = "writes va (concat (map word_chars ws)) m"
  have b: "?m (va + of_nat k) = Some (concat (map word_chars ws) ! k)" if k: "k < 4 * length ws" for k
  proof -
    have u: "unat (va + of_nat k) = unat va + k"
      using n k by (subst unat_add32_small) (simp_all add: unat_of_nat32)
    show ?thesis using n k by (subst writes_at) (simp_all add: u)
  qed
  have b': "?m (va + of_nat (4 * i) + of_nat j) = Some (word_chars (ws ! i) ! j)" if "j < 4" for j
  proof -
    have "4 * i + j < 4 * length ws" using i that by linarith
    from b [OF this] show ?thesis unfolding concat_words_nth [OF i that] of_nat_add add.assoc .
  qed
  have "load_int (\<lambda>a. the (?m a)) (va + of_nat (4 * i)) = ws ! i"
    using b' [of 0] b' [of 1] b' [of 2] b' [of 3] word_chars_value [of "ws ! i"] by (simp add: load_int_def)
  then show ?thesis using b' by (auto simp: word_at_def)
qed

section \<open>The stack\<close>

text \<open>
  What is relied on: \<open>um pg s\<close> is the memory a program sees under the table \<open>pg\<close>, a byte being absent where it has
  no access. \<^verbatim>\<open>copyout\<close> fails or writes all its bytes, to accessible places; \<^verbatim>\<open>clearpteu\<close> removes access to a page;
  \<^verbatim>\<open>allocuvm\<close> returns 0 or the new size, which lies below the kernel; \<^verbatim>\<open>switchuvm\<close> and freeing another table change
  nothing of it.
\<close>

definition uvm_laws :: "'s ucalls \<Rightarrow> (u32 \<Rightarrow> 's \<Rightarrow> u32 \<Rightarrow> char option) \<Rightarrow> bool" where
  "uvm_laws U um \<longleftrightarrow>
     (\<forall>pg va cs s. 0 \<le> fst (copyout U pg va cs s) \<longrightarrow>
        (\<forall>i<length cs. um pg s (va + of_nat i) \<noteq> None) \<and> um pg (snd (copyout U pg va cs s)) = writes va cs (um pg s)) \<and>
     (\<forall>pg va s a. PGROUNDDOWN a = PGROUNDDOWN va \<longrightarrow> um pg (clearpteu U pg va s) a = None) \<and>
     (\<forall>pg old new s. fst (allocuvm U pg old new s) \<noteq> 0 \<longrightarrow>
        new < KERNBASE \<and> fst (allocuvm U pg old new s) = (if new < old then old else new)) \<and>
     (\<forall>pg p s. um pg (switchuvm U p s) = um pg s) \<and>
     (\<forall>pg pg' s. pg \<noteq> pg' \<longrightarrow> um pg (freevm U pg' s) = um pg s)"

text \<open>\<open>B\<close> is where the page of the stack starts; the page below it is the guard.\<close>

definition guarded :: "nat \<Rightarrow> (u32 \<Rightarrow> char option) \<Rightarrow> bool" where
  "guarded B m \<longleftrightarrow> (\<forall>a. B - 4096 \<le> unat a \<and> unat a < B \<longrightarrow> m a = None)"

text \<open>A block of \<open>n\<close> bytes that ends within four bytes below \<open>sp\<close> and is accessible lies in the page of the stack.\<close>

lemma stack_room:
  assumes g: "guarded B m" and B: "4096 \<le> B" and sp: "unat sp = B + d" "4 dvd d"
    and acc: "\<forall>i<n. m (sp - of_nat n - of_nat e + of_nat i) \<noteq> None" and n: "0 < n" and e: "e < 4"
  shows "n \<le> d"
proof (rule ccontr)
  assume "\<not> n \<le> d"
  have Bs: "unat (of_nat B :: u32) = B" using sp(1) unat_lt32 [of sp] by (simp add: unat_of_nat32)
  have spw: "sp = of_nat B + of_nat d" using arg_cong [OF sp(1), of "of_nat :: nat \<Rightarrow> u32"] by simp
  have below: "m (of_nat B - of_nat (Suc j)) = None" if "j < 4096" for j
  proof -
    have "of_nat B - of_nat (Suc j) = (of_nat (B - Suc j) :: u32)" using that B by (subst of_nat_diff) auto
    moreover have "unat (of_nat (B - Suc j) :: u32) = B - Suc j" using Bs unat_lt32 [of "of_nat B"] by (simp add: unat_of_nat32)
    ultimately show ?thesis using g that B by (auto simp: guarded_def)
  qed
  show False
  proof (cases "d = 0")
    case True
    have "sp - of_nat n - of_nat e + of_nat (n - 1) = of_nat B - of_nat (Suc e)"
      using n by (simp add: spw True of_nat_diff algebra_simps)
    moreover have "n - 1 < n" "e < 4096" using n e by auto
    ultimately show False using acc below by metis
  next
    case False
    then have "4 \<le> d" using sp(2) by (metis dvd_imp_le gr0I)
    then have i: "n + e - d - 1 < n" using e n by linarith
    have "n + e = (n + e - d - 1) + d + 1" using \<open>\<not> n \<le> d\<close> by linarith
    then have "(of_nat n + of_nat e :: u32) = of_nat (n + e - d - 1) + of_nat d + 1" by (metis of_nat_1 of_nat_add)
    then have "sp - of_nat n - of_nat e + of_nat (n + e - d - 1) = of_nat B - of_nat (Suc 0)"
      by (simp add: spw algebra_simps)
    then show False using acc i below [of 0] by auto
  qed
qed

text \<open>The strings \<open>args\<close> lie at \<open>ps\<close>, between the stack pointer and the end of the page.\<close>

definition pushed :: "nat \<Rightarrow> (u32 \<Rightarrow> char option) \<Rightarrow> u32 \<Rightarrow> u32 list \<Rightarrow> string list \<Rightarrow> bool" where
  "pushed B m sp ps args \<longleftrightarrow> guarded B m \<and> 4096 \<le> B \<and> B + 4096 < 2 ^ 32 \<and> 4 dvd B \<and> 4 dvd unat sp \<and>
     B \<le> unat sp \<and> unat sp \<le> B + 4096 \<and> length ps = length args \<and>
     (\<forall>i<length args. sp \<le> ps ! i \<and> unat (ps ! i) + length (args ! i) < B + 4096 \<and> string_at m (ps ! i) (args ! i))"

lemma pushedD:
  assumes "pushed B m sp ps args"
  shows "guarded B m" "4096 \<le> B" "B + 4096 < 2 ^ 32" "4 dvd B" "4 dvd unat sp" "B \<le> unat sp" "unat sp \<le> B + 4096"
    "length ps = length args"
    "i < length args \<Longrightarrow> unat sp \<le> unat (ps ! i)" "i < length args \<Longrightarrow> unat (ps ! i) + length (args ! i) < B + 4096"
    "i < length args \<Longrightarrow> string_at m (ps ! i) (args ! i)"
  using assms unfolding pushed_def word_le_nat_alt by (elim conjE; (assumption | simp only:))+

lemma pushedI:
  assumes "guarded B m" "4096 \<le> B" "B + 4096 < 2 ^ 32" "4 dvd B" "4 dvd unat sp" "B \<le> unat sp" "unat sp \<le> B + 4096"
    "length ps = length args"
    "\<And>i. i < length args \<Longrightarrow> unat sp \<le> unat (ps ! i) \<and> unat (ps ! i) + length (args ! i) < B + 4096 \<and> string_at m (ps ! i) (args ! i)"
  shows "pushed B m sp ps args"
  unfolding pushed_def word_le_nat_alt by (intro conjI allI impI assms(1-8)) (use assms(9) in auto)

lemma string_at_keep:
  assumes "string_at m q t" "unat q + length t < 2 ^ 32" "\<And>a. unat q \<le> unat a \<Longrightarrow> m' a = m a"
  shows "string_at m' q t"
proof -
  have "unat q \<le> unat (q + of_nat i)" if "i < length t + 1" for i
    using assms(2) that by (subst unat_add32_small) (simp_all add: unat_of_nat32)
  then show ?thesis using assms(1,3) by (simp add: string_at_def)
qed

lemma string_at_writes:
  assumes "unat q + length t < 2 ^ 32"
  shows "string_at (writes q (t @ [CHR 0x00]) m) q t"
proof -
  have "writes q (t @ [CHR 0x00]) m (q + of_nat i) = Some ((t @ [CHR 0x00]) ! i)" if "i < length t + 1" for i
  proof -
    have "unat (q + of_nat i) = unat q + i"
      using assms that by (subst unat_add32_small) (simp_all add: unat_of_nat32)
    then show ?thesis using assms that by (subst writes_at) auto
  qed
  then show ?thesis by (simp add: string_at_def)
qed

text \<open>Writing a block below the stack pointer keeps what is pushed.\<close>

lemma pushed_writes:
  assumes p: "pushed B m sp ps args" and acc: "\<forall>i<length cs. m (va + of_nat i) \<noteq> None" and n: "cs \<noteq> []"
    and va: "va = sp - of_nat (length cs) - of_nat e" "e < 4" "4 dvd length cs + e"
  shows "pushed B (writes va cs m) va ps args" "unat va + length cs + e = unat sp" "B \<le> unat va"
proof -
  note P = pushedD [OF p]
  obtain d where d: "unat sp = B + d" using P(6) le_Suc_ex by blast
  then have d4: "4 dvd d" using P(4,5) by (metis dvd_add_right_iff)
  have "length cs \<le> d"
  proof (rule stack_room [of B m sp d "length cs" e])
    show "\<forall>i<length cs. m (sp - of_nat (length cs) - of_nat e + of_nat i) \<noteq> None" using acc va(1) by simp
  qed (use P(1,2) d d4 n va(2) in auto)
  then have le: "length cs + e \<le> d" using va(2,3) d4 by (elim dvdE) presburger
  then have "of_nat (length cs) + of_nat e \<le> sp" "unat (of_nat (length cs) + of_nat e :: u32) = length cs + e"
    using d unat_lt32 [of sp] by (simp_all add: word_le_nat_alt unat_of_nat32 flip: of_nat_add del: unat_lt32)
  then have u: "unat va = unat sp - (length cs + e)" unfolding va(1) diff_diff_eq by (simp add: unat_sub)
  show *: "unat va + length cs + e = unat sp" "B \<le> unat va" using u le d by auto
  have w: "writes va cs m a = m a" if "unat a < B \<or> unat sp \<le> unat a" for a
  proof -
    have "unat va + length cs \<le> 2 ^ 32" using *(1) P(3,7) by linarith
    then show ?thesis using that * by (subst writes_at) auto
  qed
  have A: "4 dvd unat va" using P(5) va(3) *(1) by (metis add.assoc dvd_add_left_iff)
  have C: "unat va \<le> unat (ps ! i) \<and> unat (ps ! i) + length (args ! i) < B + 4096 \<and> string_at (writes va cs m) (ps ! i) (args ! i)"
    if "i < length args" for i
    using P(3) P(9-11) [OF that] w *(1) by (auto intro!: string_at_keep [of m])
  have "guarded B (writes va cs m)" using P(1) w by (simp add: guarded_def)
  moreover have "unat va \<le> B + 4096" using *(1) P(7) by linarith
  ultimately show "pushed B (writes va cs m) va ps args" by (rule pushedI [OF _ P(2,3,4) A *(2) _ P(8) C])
qed

lemma copyout_ok:
  assumes "uvm_laws U um" "copyout U pg va cs s = (r, s')" "\<not> r < 0"
  shows "\<forall>i<length cs. um pg s (va + of_nat i) \<noteq> None" "um pg s' = writes va cs (um pg s)"
proof -
  have "0 \<le> fst (copyout U pg va cs s)" "snd (copyout U pg va cs s) = s'" using assms(2,3) by auto
  then show "\<forall>i<length cs. um pg s (va + of_nat i) \<noteq> None" "um pg s' = writes va cs (um pg s)"
    using assms(1) unfolding uvm_laws_def by blast+
qed

lemma and_not_3: "x AND NOT 3 = (x - of_nat (unat x mod 4) :: u32)" "4 dvd unat (x AND NOT 3 :: u32)"
proof -
  have "mask 2 = (3 :: u32)" by (simp add: mask_eq_exp_minus_1)
  then have u: "unat (x AND NOT 3) = unat x - unat x mod 4" using and_not_mask32 [of x 2] by simp
  have m: "unat (of_nat (unat x mod 4) :: u32) = unat x mod 4" by (simp add: unat_of_nat32)
  then have "unat (x - of_nat (unat x mod 4)) = unat x - unat x mod 4" by (subst unat_sub) (simp_all add: word_le_nat_alt)
  with u show "x AND NOT 3 = x - of_nat (unat x mod 4)" by (simp add: word32_eq_iff)
  show "4 dvd unat (x AND NOT 3)" unfolding u by (simp add: minus_mod_eq_mult_div)
qed

lemma dvd4_diff:
  assumes "4 dvd unat (a :: u32)" "4 dvd unat (a - of_nat n)"
  shows "4 dvd n"
proof -
  have "unat a = (unat (a - of_nat n) + n mod 2 ^ 32) mod 2 ^ 32"
    using unat_word_ariths(1) [of "a - of_nat n" "of_nat n"] by (simp add: unat_of_nat)
  moreover have "(4 :: nat) dvd 2 ^ 32" by simp
  ultimately have "4 dvd unat (a - of_nat n) + n mod 2 ^ 32" using assms(1) by (metis dvd_mod_iff)
  then have "4 dvd n mod 2 ^ 32" using assms(2) by (simp only: dvd_add_right_iff)
  then show ?thesis using \<open>4 dvd 2 ^ 32\<close> by (simp only: dvd_mod_iff)
qed

lemma push_one:
  assumes laws: "uvm_laws U um" and p: "pushed B (um pg s) sp ps args"
    and va: "va = (sp - of_nat (length t + 1)) AND NOT 3" and c: "copyout U pg va (t @ [CHR 0x00]) s = (r, s')" "\<not> r < 0"
  shows "pushed B (um pg s') va (ps @ [va]) (args @ [t])"
proof -
  define e where "e = unat (sp - of_nat (length t + 1)) mod 4"
  have va': "va = sp - of_nat (length (t @ [CHR 0x00])) - of_nat e" unfolding va and_not_3 e_def by simp
  have "4 dvd unat (sp - of_nat (length (t @ [CHR 0x00]) + e))" using and_not_3(2) va va' by (metis diff_diff_eq of_nat_add)
  from dvd4_diff [OF pushedD(5) [OF p] this] have e: "e < 4" "4 dvd length (t @ [CHR 0x00]) + e" by (simp_all add: e_def)
  have ne: "t @ [CHR 0x00] \<noteq> []" by simp
  note w = pushed_writes [OF p copyout_ok(1) [OF laws c] ne va' e]
  note P = pushedD [OF p] and W = pushedD [OF w(1)]
  have lt: "unat va + length t < B + 4096" using w(2) P(7) unfolding length_append by simp
  have at: "string_at (writes va (t @ [CHR 0x00]) (um pg s)) va t" using lt P(3) by (intro string_at_writes) linarith
  show ?thesis unfolding copyout_ok(2) [OF laws c]
  proof (rule pushedI [OF W(1-7)])
    fix i assume "i < length (args @ [t])"
    then consider "i < length args" | "i = length args" by fastforce
    then show "unat va \<le> unat ((ps @ [va]) ! i) \<and> unat ((ps @ [va]) ! i) + length ((args @ [t]) ! i) < B + 4096 \<and>
        string_at (writes va (t @ [CHR 0x00]) (um pg s)) ((ps @ [va]) ! i) ((args @ [t]) ! i)"
      by cases (use W(9-11) P(8) lt at in \<open>auto simp: nth_append\<close>)
  qed (use P(8) in simp_all)
qed

lemma take_drop_snoc:
  assumes "take n (drop 3 xs) = ps" "3 + n < length xs"
  shows "take (n + 1) (drop 3 (xs[3 + n := v])) = ps @ [v]"
  using assms by (simp add: drop_update_swap take_Suc_conv_app_nth)

lemma push_args_ok:
  assumes laws: "uvm_laws U um" and "push_args U pg argv argc sp us s = (Some (argc', sp', us'), s')"
    and "pushed B (um pg s) sp (take argc (drop 3 us)) args" and "length us = 36" "length args = argc"
  shows "argc' = argc + length argv \<and> (argv \<noteq> [] \<longrightarrow> argc' \<le> MAXARG) \<and> length us' = 36 \<and>
    pushed B (um pg s') sp' (take argc' (drop 3 us')) (args @ argv)"
  using assms(2-)
proof (induction argv arbitrary: argc sp us s args)
  case (Cons t argv)
  define va where "va = (sp - of_nat (length t + 1)) AND NOT 3"
  obtain r s1 where c: "copyout U pg va (t @ [CHR 0x00]) s = (r, s1)" by fastforce
  from Cons.prems(1) [unfolded push_args.simps Let_def, folded va_def] c have r: "\<not> r < 0" "argc < 32"
    and rest: "push_args U pg argv (argc + 1) va (us[3 + argc := va]) s1 = (Some (argc', sp', us'), s')"
    by (auto simp: MAXARG_def split: if_splits)
  have "pushed B (um pg s1) va (take argc (drop 3 us) @ [va]) (args @ [t])"
    by (rule push_one [OF laws Cons.prems(2) va_def c r(1)])
  then have "pushed B (um pg s1) va (take (argc + 1) (drop 3 (us[3 + argc := va]))) (args @ [t])"
    using take_drop_snoc [of argc us _ va, OF refl] r(2) Cons.prems(3) by simp
  from Cons.IH [OF rest this] show ?case using Cons.prems(3,4) r(2) rest by (cases argv) (auto simp: MAXARG_def)
qed auto

text \<open>
  What a program finds at its stack pointer: a return address that cannot be used, the number of arguments,
  the array of pointers to them, ended by a null pointer, and the strings.
\<close>

definition args_at :: "(u32 \<Rightarrow> char option) \<Rightarrow> u32 \<Rightarrow> string list \<Rightarrow> bool" where
  "args_at m sp argv \<longleftrightarrow> word_at m sp 0xffffffff \<and> word_at m (sp + 4) (of_nat (length argv)) \<and> word_at m (sp + 8) (sp + 12) \<and>
     (\<forall>i<length argv. \<exists>q. word_at m (sp + 12 + of_nat (4 * i)) q \<and> string_at m q (argv ! i)) \<and>
     word_at m (sp + 12 + of_nat (4 * length argv)) 0"

lemma exec_stack_ok:
  assumes laws: "uvm_laws U um" and e: "exec_stack U pg argv sz s = (Some sp, s')" and p: "pushed B (um pg s) sz [] []"
  shows "args_at (um pg s') sp argv" "B \<le> unat sp" "unat sp < B + 4096" "4 dvd unat sp" "length argv \<le> MAXARG"
proof -
  let ?us = "replicate (3 + MAXARG + 1) (0 :: u32)"
  obtain argc sp1 us s1 where a: "push_args U pg argv 0 sz ?us s = (Some (argc, sp1, us), s1)"
    using e by (auto simp: exec_stack_def split: prod.splits option.splits)
  define ws where "ws = take (3 + argc + 1) (us[3 + argc := 0, 0 := 0xffffffff, 1 := of_nat argc, 2 := sp1 - of_nat ((argc + 1) * 4)])"
  define cs where "cs = concat (map word_chars ws)"
  obtain r s2 where c: "copyout U pg (sp1 - of_nat ((3 + argc + 1) * 4)) cs s1 = (r, s2)" by fastforce
  from e a c have r: "\<not> r < 0" and sp: "sp = sp1 - of_nat ((3 + argc + 1) * 4)" and s': "s' = s2"
    by (auto simp: exec_stack_def Let_def cs_def ws_def split: if_splits)
  have "length ?us = 36" by (simp add: MAXARG_def)
  from push_args_ok [OF laws a, of B "[]"] p this
  have A: "argc = length argv" "argv \<noteq> [] \<longrightarrow> argc \<le> MAXARG" "length us = 36" "pushed B (um pg s1) sp1 (take argc (drop 3 us)) argv"
    by auto
  then have n: "argc \<le> 32" by (cases argv) (auto simp: MAXARG_def)
  then show "length argv \<le> MAXARG" using A(1) by (simp add: MAXARG_def)
  have lw: "length ws = argc + 4" using A(3) n by (simp add: ws_def)
  then have lc: "length cs = (3 + argc + 1) * 4" by (simp add: cs_def)
  have va: "sp = sp1 - of_nat (length cs) - of_nat 0" by (simp add: sp lc)
  have "cs \<noteq> []" "(0 :: nat) < 4" "4 dvd length cs + 0" using lc by auto
  note w = pushed_writes [OF A(4) copyout_ok(1) [OF laws c [folded sp] r] this(1) va this(2,3)]
  note W = pushedD [OF w(1)] and P = pushedD [OF A(4)] and m = copyout_ok(2) [OF laws c [folded sp] r]
  show "B \<le> unat sp" "4 dvd unat sp" using w(3) W(5) by auto
  show "unat sp < B + 4096" using w(2) lc P(7) by simp
  have room: "unat sp + 4 * length ws \<le> 2 ^ 32" using w(2) lc lw P(3,7) by simp
  have at: "word_at (um pg s') (sp + of_nat (4 * i)) (ws ! i)" if "i < argc + 4" for i
    unfolding s' m cs_def using room lw that by (intro word_at_writes) auto
  have ws: "ws ! 0 = 0xffffffff" "ws ! 1 = of_nat argc" "ws ! 2 = sp + 12" "ws ! (3 + argc) = 0"
    using A(3) n by (simp_all add: ws_def sp algebra_simps)
  have args: "\<exists>q. word_at (um pg s') (sp + 12 + of_nat (4 * i)) q \<and> string_at (um pg s') q (argv ! i)" if "i < length argv" for i
  proof -
    have "ws ! (3 + i) = take argc (drop 3 us) ! i" using A(1,3) n that by (simp add: ws_def)
    moreover have "string_at (um pg s') (take argc (drop 3 us) ! i) (argv ! i)" using W(11) [OF that] by (simp add: s' m)
    moreover have "word_at (um pg s') (sp + of_nat (4 * (3 + i))) (ws ! (3 + i))" using that A(1) by (intro at) simp
    ultimately show ?thesis by (auto simp: algebra_simps)
  qed
  show "args_at (um pg s') sp argv"
    unfolding args_at_def using args at [of 0] at [of 1] at [of 2] at [of "3 + argc"] ws A(1) by (auto simp: algebra_simps)
qed

section \<open>The calls of exec\<close>

text \<open>\<^verbatim>\<open>setupkvm\<close> returns the static table, or 0.\<close>

lemma setupkvm_result: "setupkvm t tr kdata kend pd s = Inr (r, s') \<Longrightarrow> r = 0 \<or> r = pd"
proof -
  have "kmap_loop tr pd ks s = Inr (r, s') \<Longrightarrow> r = 0 \<or> r = pd" for ks s
    by (induction ks arbitrary: s) (auto simp: bindR_eq_Inr split: if_splits)
  then show "setupkvm t tr kdata kend pd s = Inr (r, s') \<Longrightarrow> r = 0 \<or> r = pd"
    by (auto simp: setupkvm_def bindR_eq_Inr Let_def split: if_splits)
qed

lemma allocuvm_ok:
  assumes "uvm_laws U um" "allocuvm U pg old new s = (r, s')" "r \<noteq> 0"
  shows "new < KERNBASE" "r = (if new < old then old else new)"
proof -
  have "fst (allocuvm U pg old new s) = r" using assms(2) by simp
  then show "new < KERNBASE" "r = (if new < old then old else new)"
    using assms(1,3) unfolding uvm_laws_def by blast+
qed

lemma uvm_frame:
  assumes "uvm_laws U um"
  shows "um pg (switchuvm U p s) = um pg s" "pg \<noteq> pg' \<Longrightarrow> um pg (freevm U pg' s) = um pg s"
  using assms by (simp_all add: uvm_laws_def)

lemma load_segs_size:
  assumes laws: "uvm_laws U um" and "load_segs K U ip pg n off sz s = (Some sz', s')" and "sz < KERNBASE"
  shows "sz' < KERNBASE"
  using assms(2,3)
proof (induction n arbitrary: off sz s)
  case (Suc n)
  then show ?case using allocuvm_ok [OF laws]
    by (auto simp: Let_def split: prod.splits if_splits) (metis (full_types))+
qed simp

text \<open>The stack as \<^verbatim>\<open>exec\<close> prepares it: a page, and the page below it out of reach.\<close>

lemma stack_pages:
  assumes laws: "uvm_laws U um" and sz: "sz < KERNBASE"
    and a: "allocuvm U pg (PGROUNDUP sz) (PGROUNDUP sz + 2 * PGSIZE) s = (sz', s')" "sz' \<noteq> 0"
  shows "pushed (unat sz' - 4096) (um pg (clearpteu U pg (sz' - 2 * PGSIZE) s')) sz' [] []" "unat sz' mod 4096 = 0" "4096 \<le> unat sz' - 4096"
proof -
  define up where "up = PGROUNDUP sz"
  have szn: "unat sz < 0xC0000000" using sz by (simp add: word_less_nat_alt KERNBASE_def)
  have "up = PGROUNDDOWN (sz + 4095)" by (simp add: up_def PGROUNDUP_def PGROUNDDOWN_def PGSIZE_def add.commute)
  moreover have "unat (sz + 4095) = unat sz + 4095" using szn by (subst unat_add32_small) auto
  ultimately have up: "unat up mod 4096 = 0" "unat up \<le> unat sz + 4095"
    using aligned_PGROUNDDOWN by (simp_all add: unat_PGROUNDDOWN)
  have u: "unat (up + 8192) = unat up + 8192" using up(2) szn by (subst unat_add32_small) auto
  have s': "sz' = up + 8192"
    using allocuvm_ok(2) [OF laws a [folded up_def]] u by (simp add: PGSIZE_def word_less_nat_alt)
  have lt: "unat sz' < 0xC0000000"
    using allocuvm_ok(1) [OF laws a [folded up_def]] s' by (simp add: PGSIZE_def KERNBASE_def word_less_nat_alt)
  show al: "unat sz' mod 4096 = 0" unfolding s' u using up(1) by (simp add: mod_add_eq [symmetric])
  show "4096 \<le> unat sz' - 4096" using s' u by simp
  have g: "guarded (unat up + 4096) (um pg (clearpteu U pg up s'))"
    unfolding guarded_def
  proof (intro allI impI)
    fix a :: u32 assume "unat up + 4096 - 4096 \<le> unat a \<and> unat a < unat up + 4096"
    then obtain k where k: "unat a = unat up + k" "k < 4096" by (metis add_diff_cancel_right' add_less_cancel_left le_Suc_ex)
    then have "PGROUNDDOWN a = PGROUNDDOWN up" using up(1) by (simp add: word32_eq_iff unat_PGROUNDDOWN mod_add_eq [symmetric])
    then show "um pg (clearpteu U pg up s') a = None" using laws by (simp add: uvm_laws_def)
  qed
  have "(4 :: nat) dvd 4096" "4096 dvd unat sz'" "4096 dvd unat up" using al up(1) by (auto simp: dvd_eq_mod_eq_0)
  then have d: "4 dvd unat sz'" "4 dvd unat up + 4096" by (blast intro: dvd_trans, meson dvd_add dvd_trans)
  have us: "unat sz' = unat up + 8192" by (simp only: s' u)
  have e: "unat sz' - 4096 = unat up + 4096" "sz' - 2 * PGSIZE = up" using u by (simp_all add: s' PGSIZE_def)
  show "pushed (unat sz' - 4096) (um pg (clearpteu U pg (sz' - 2 * PGSIZE) s')) sz' [] []"
    unfolding e by (rule pushedI [OF g _ _ d(2,1)]) (use lt us in simp_all)
qed

lemma exec_load_success:
  assumes "exec_load K U path argv ip elf pg p s = Inr (0, p', s')"
  obtains sz s1 sz' s2 sp s3 where "load_segs K U ip pg (unat (eh_phnum elf)) (eh_phoff elf) 0 s = (Some sz, s1)"
    "allocuvm U pg (PGROUNDUP sz) (PGROUNDUP sz + 2 * PGSIZE) (iunlockput K ip s1) = (sz', s2)" "sz' \<noteq> 0"
    "exec_stack U pg argv sz' (clearpteu U pg (sz' - 2 * PGSIZE) s2) = (Some sp, s3)"
    "exec_commit U path pg sz' (eh_entry elf) sp p s3 = Inr (0, p', s')"
proof -
  have bad: "exec_bad K U pg ip p s \<noteq> Inr (0, p', s')" for pg ip s by (simp add: exec_bad_def Let_def)
  note E = assms [unfolded exec_load_def Let_def]
  obtain x s1 where l: "load_segs K U ip pg (unat (eh_phnum elf)) (eh_phoff elf) 0 s = (x, s1)" by (metis surj_pair)
  with E bad obtain sz where x: "x = Some sz" by (cases x) auto
  obtain sz' s2 where a: "allocuvm U pg (PGROUNDUP sz) (PGROUNDUP sz + 2 * PGSIZE) (iunlockput K ip s1) = (sz', s2)" by (metis surj_pair)
  obtain y s3 where st: "exec_stack U pg argv sz' (clearpteu U pg (sz' - 2 * PGSIZE) s2) = (y, s3)" by (metis surj_pair)
  from E bad l x a have nz: "sz' \<noteq> 0" by (auto split: if_splits)
  with E bad l x a st obtain sp where y: "y = Some sp" by (cases y) auto
  with E bad l x a st nz have c: "exec_commit U path pg sz' (eh_entry elf) sp p s3 = Inr (0, p', s')" by auto
  from that [OF l [unfolded x] a nz st [unfolded y] c] show thesis .
qed

lemma exec_success:
  assumes "exec K U path argv p s = Inr (0, p', s')"
  obtains ip elf s1 where "exec_load K U path argv ip elf (u_pgdir U) p s1 = Inr (0, p', s')"
proof -
  have bad: "exec_bad K U pg ip p s \<noteq> Inr (0, p', s')" for pg ip s by (simp add: exec_bad_def Let_def)
  obtain ip s0 where n: "namei K path s = (ip, s0)" by (metis surj_pair)
  obtain r b s1 where rd: "readi K ip 0 52 (ilock K ip s0) = (r, b, s1)" by (metis prod_cases3)
  from assms [unfolded exec_def n rd prod.case Let_def] bad
  obtain pg s2 where k: "exec_setupkvm U s1 = Inr (pg, s2)" "pg \<noteq> 0"
    "exec_load K U path argv ip (elfhdr_of b) pg p s2 = Inr (0, p', s')"
    by (auto simp: bindR_eq_Inr split: if_splits)
  then have "pg = u_pgdir U" using setupkvm_result by (fastforce simp: exec_setupkvm_def bindR_eq_Inr)
  with k(3) that show thesis by blast
qed

text \<open>What is relied on for the locks: the operations on user memory lock and unlock no inode.\<close>

definition uvm_keeps :: "'k kst ucalls \<Rightarrow> ('k \<Rightarrow> int) \<Rightarrow> ('k \<Rightarrow> u32 multiset) \<Rightarrow> bool" where
  "uvm_keeps U depth locks \<longleftrightarrow>
     (\<forall>pg a b s. keeps depth locks (snd s) (snd (snd (allocuvm U pg a b s)))) \<and>
     (\<forall>pg v ip a b s. keeps depth locks (snd s) (snd (snd (loaduvm U pg v ip a b s)))) \<and>
     (\<forall>pg va s. keeps depth locks (snd s) (snd (clearpteu U pg va s))) \<and>
     (\<forall>pg va cs s. keeps depth locks (snd s) (snd (snd (copyout U pg va cs s)))) \<and>
     (\<forall>p s. keeps depth locks (snd s) (snd (switchuvm U p s))) \<and>
     (\<forall>pg s. keeps depth locks (snd s) (snd (freevm U pg s)))"

lemma uvm_simps:
  assumes "uvm_keeps U depth locks"
  shows "depth (snd (snd (allocuvm U pg a b s))) = depth (snd s)" "locks (snd (snd (allocuvm U pg a b s))) = locks (snd s)"
    "depth (snd (snd (loaduvm U pg v ip a b s))) = depth (snd s)" "locks (snd (snd (loaduvm U pg v ip a b s))) = locks (snd s)"
    "depth (snd (clearpteu U pg va s)) = depth (snd s)" "locks (snd (clearpteu U pg va s)) = locks (snd s)"
    "depth (snd (snd (copyout U pg va cs s))) = depth (snd s)" "locks (snd (snd (copyout U pg va cs s))) = locks (snd s)"
    "depth (snd (switchuvm U p s)) = depth (snd s)" "locks (snd (switchuvm U p s)) = locks (snd s)"
    "depth (snd (freevm U pg s)) = depth (snd s)" "locks (snd (freevm U pg s)) = locks (snd s)"
  using assms by (simp_all add: uvm_keeps_def keeps_def del: split_paired_All)

abbreviation fs_on_snd :: "'k kst kcalls \<Rightarrow> ('k \<Rightarrow> int) \<Rightarrow> ('k \<Rightarrow> u32 multiset) \<Rightarrow> bool" where
  "fs_on_snd K depth locks \<equiv> fs_laws K (\<lambda>s. depth (snd s)) (\<lambda>s. locks (snd s))"

lemma load_segs_locks:
  assumes u: "uvm_keeps U depth locks" and f: "fs_on_snd K depth locks"
  shows "depth (snd (snd (load_segs K U ip pg n off sz s))) = depth (snd s) \<and> locks (snd (snd (load_segs K U ip pg n off sz s))) = locks (snd s)"
proof (induction n arbitrary: off sz s)
  case (Suc n)
  then show ?case by (simp add: Let_def case_prod_beta uvm_simps [OF u] fs_projs [OF f])
qed simp

lemma push_args_locks:
  assumes u: "uvm_keeps U depth locks"
  shows "depth (snd (snd (push_args U pg argv argc sp us s))) = depth (snd s) \<and> locks (snd (snd (push_args U pg argv argc sp us s))) = locks (snd s)"
proof (induction argv arbitrary: argc sp us s)
  case (Cons t argv)
  then show ?case by (simp add: Let_def case_prod_beta uvm_simps [OF u])
qed simp

lemma exec_stack_locks:
  assumes u: "uvm_keeps U depth locks"
  shows "depth (snd (snd (exec_stack U pg argv sz s))) = depth (snd s) \<and> locks (snd (snd (exec_stack U pg argv sz s))) = locks (snd s)"
proof -
  obtain x s1 where a: "push_args U pg argv 0 sz (replicate (3 + MAXARG + 1) 0) s = (x, s1)" by (metis surj_pair)
  then have l: "depth (snd s1) = depth (snd s)" "locks (snd s1) = locks (snd s)" using push_args_locks [OF u] by (metis snd_conv)+
  show ?thesis
  proof (cases x)
    case None
    then show ?thesis using a l by (simp add: exec_stack_def)
  next
    case (Some y)
    then show ?thesis using a l by (simp add: exec_stack_def Let_def case_prod_beta uvm_simps [OF u])
  qed
qed

text \<open>The end of a run of \<^verbatim>\<open>exec\<close> entered with the locks \<open>L\<close>: the locks \<open>X\<close> are held after it.\<close>

definition clean :: "('k \<Rightarrow> int) \<Rightarrow> ('k \<Rightarrow> u32 multiset) \<Rightarrow> int \<Rightarrow> u32 multiset \<Rightarrow> xproc \<Rightarrow> (int \<times> xproc \<times> 'k kst) res \<Rightarrow> bool" where
  "clean depth locks d X p out \<longleftrightarrow> (\<forall>r p' s'. out = Inr (r, p', s') \<longrightarrow>
     depth (snd s') = d \<and> locks (snd s') = X \<and> (r = 0 \<or> r = - 1 \<and> p' = p))"

lemma clean_simps [simp]:
  "clean depth locks d X p (Inl e)"
  "clean depth locks d X p (Inr (r, p', s')) \<longleftrightarrow> depth (snd s') = d \<and> locks (snd s') = X \<and> (r = 0 \<or> r = - 1 \<and> p' = p)"
  by (simp_all add: clean_def del: split_paired_All)

lemma clean_bad:
  assumes u: "uvm_keeps U depth locks" and f: "fs_on_snd K depth locks" and "depth (snd s) = d"
    "locks (snd s) = (if ip = 0 then X else add_mset ip X)"
  shows "clean depth locks d X p (exec_bad K U pg ip p s)"
  using assms(3,4) by (simp add: exec_bad_def Let_def uvm_simps [OF u] fs_simps [OF f])

lemma clean_commit:
  assumes u: "uvm_keeps U depth locks" and "depth (snd s) = d" "locks (snd s) = X"
  shows "clean depth locks d X p (exec_commit U path pg sz entry sp p s)"
  using assms(2,3) by (simp add: exec_commit_def Let_def uvm_simps [OF u])

lemma exec_load_clean:
  assumes u: "uvm_keeps U depth locks" and f: "fs_on_snd K depth locks"
    and i: "ip \<noteq> 0" and k: "depth (snd s) = d" "locks (snd s) = add_mset ip X"
  shows "clean depth locks d X p (exec_load K U path argv ip elf pg p s)"
proof -
  note bad = clean_bad [OF u f, of _ d _ X] and E = exec_load_def Let_def
  obtain x s1 where l: "load_segs K U ip pg (unat (eh_phnum elf)) (eh_phoff elf) 0 s = (x, s1)" by (metis surj_pair)
  have k1: "depth (snd s1) = d" "locks (snd s1) = add_mset ip X"
    using load_segs_locks [OF u f, of ip pg "unat (eh_phnum elf)" "eh_phoff elf" 0 s] k by (simp_all add: l)
  show ?thesis
  proof (cases x)
    case None
    then show ?thesis using l k1 i by (simp add: E bad)
  next
    case (Some sz)
    obtain sz' s2 where a: "allocuvm U pg (PGROUNDUP sz) (PGROUNDUP sz + 2 * PGSIZE) (iunlockput K ip s1) = (sz', s2)" by (metis surj_pair)
    have k2: "depth (snd s2) = d" "locks (snd s2) = X"
      using uvm_simps(1,2) [OF u, of pg "PGROUNDUP sz" "PGROUNDUP sz + 2 * PGSIZE" "iunlockput K ip s1"] k1
      by (simp_all add: a fs_simps [OF f])
    obtain y s3 where st: "exec_stack U pg argv sz' (clearpteu U pg (sz' - 2 * PGSIZE) s2) = (y, s3)" by (metis surj_pair)
    have k3: "depth (snd s3) = d" "locks (snd s3) = X"
      using exec_stack_locks [OF u, of pg argv sz' "clearpteu U pg (sz' - 2 * PGSIZE) s2"] k2 by (simp_all add: st uvm_simps [OF u])
    show ?thesis using Some l a st k2 k3 by (cases y) (simp_all add: E bad clean_commit [OF u])
  qed
qed

lemma exec_clean:
  assumes u: "uvm_keeps U depth locks" and f: "fs_on_snd K depth locks"
  shows "clean depth locks (depth (snd s)) (locks (snd s)) p (exec K U path argv p s)"
proof -
  note bad = clean_bad [OF u f, of _ "depth (snd s)" _ "locks (snd s)"]
  obtain ip s0 where n: "namei K path s = (ip, s0)" by (metis surj_pair)
  have k0: "depth (snd s0) = depth (snd s)" "locks (snd s0) = locks (snd s)"
    using fs_projs(1,2) [OF f, of path s] by (simp_all add: n)
  obtain r b s1 where rd: "readi K ip 0 52 (ilock K ip s0) = (r, b, s1)" by (metis prod_cases3)
  have k1: "depth (snd s1) = depth (snd s)" "locks (snd s1) = add_mset ip (locks (snd s))"
    using fs_projs(11,12) [OF f, of ip 0 52 "ilock K ip s0"] k0 by (simp_all add: rd fs_simps [OF f])
  have sv: "snd s2 = snd s1" if "exec_setupkvm U s1 = Inr (pg, s2)" for pg s2
    using that by (auto simp: exec_setupkvm_def bindR_eq_Inr)
  show ?thesis
  proof (cases "ip = 0 \<or> (word_of_int r :: u32) < 52 \<or> eh_magic (elfhdr_of b) \<noteq> ELF_MAGIC")
    case True
    then show ?thesis using n rd k0 k1 by (auto simp: exec_def Let_def bad)
  next
    case False
    then have e: "exec K U path argv p s = bindR (exec_setupkvm U s1) (\<lambda>(pg, s).
        if pg = 0 then exec_bad K U 0 ip p s else exec_load K U path argv ip (elfhdr_of b) pg p s)"
      by (simp add: exec_def n rd Let_def)
    show ?thesis
    proof (cases "exec_setupkvm U s1")
      case (Inr q)
      then have "snd (snd q) = snd s1" using sv [of "fst q" "snd q"] by simp
      then show ?thesis using Inr False k1 unfolding e by (simp add: case_prod_beta bad exec_load_clean [OF u f])
    qed (simp add: e)
  qed
qed

section \<open>Properties\<close>



text \<open>A kernel for the witnesses: one address space, a count of transactions and the locks.\<close>

type_synonym demo = "((u32 \<Rightarrow> char option) \<times> int \<times> u32 multiset) kst"

definition demo_mem :: "((u32 \<Rightarrow> char option) \<Rightarrow> u32 \<Rightarrow> char option) \<Rightarrow> demo \<Rightarrow> demo" where
  "demo_mem f s = (fst s, f (fst (snd s)), snd (snd s))"

fun demo_acc :: "(u32 \<Rightarrow> char option) \<Rightarrow> u32 \<Rightarrow> string \<Rightarrow> bool" where
  "demo_acc m va [] \<longleftrightarrow> True"
| "demo_acc m va (c # cs) \<longleftrightarrow> m va \<noteq> None \<and> demo_acc m (va + 1) cs"

lemma demo_acc_iff: "demo_acc m va cs \<longleftrightarrow> (\<forall>i<length cs. m (va + of_nat i) \<noteq> None)"
proof (induction cs arbitrary: va)
  case (Cons c cs)
  have "(\<forall>i<length (c # cs). m (va + of_nat i) \<noteq> None) \<longleftrightarrow> m va \<noteq> None \<and> (\<forall>i<length cs. m (va + of_nat (Suc i)) \<noteq> None)"
    by (simp add: All_less_Suc2 del: of_nat_Suc)
  then show ?case using Cons.IH [of "va + 1"] by (simp add: add.assoc)
qed simp

definition demo_u :: "demo ucalls" where
  "demo_u = \<lparr>allocuvm = (\<lambda>pg old new s. if new \<ge> KERNBASE then (0, s) else if new < old then (old, s)
       else (new, demo_mem (\<lambda>m a. if old \<le> a \<and> a < new then Some (CHR 0x00) else m a) s)),
     loaduvm = (\<lambda>pg v ip off n s. (0, s)),
     clearpteu = (\<lambda>pg va s. demo_mem (\<lambda>m a. if PGROUNDDOWN a = PGROUNDDOWN va then None else m a) s),
     copyout = (\<lambda>pg va cs s. if demo_acc (fst (snd s)) va cs then (0, demo_mem (writes va cs) s) else (- 1, s)),
     switchuvm = (\<lambda>p s. s), freevm = (\<lambda>pg s. s), safestrcpy = (\<lambda>t n. take (n - 1) t),
     u_target = QEMU, u_trans = entry_translate QEMU, u_data = 0xC0010000, u_end = 0xC0020000, u_pgdir = 0xC0014000\<rparr>"

text \<open>Its only file is a program without segments, or a text of four bytes.\<close>

definition demo_k :: "u8 list \<Rightarrow> demo kcalls" where
  "demo_k b = \<lparr>begin_tr = (\<lambda>(s, m, d, l). (s, m, d + 1, l)), commit_tr = (\<lambda>(s, m, d, l). (s, m, d - 1, l)),
     namei = (\<lambda>s k. (5, k)), nameiparent = (\<lambda>s k. (7, s, k)),
     ilock = (\<lambda>i (s, m, d, l). (s, m, d, add_mset i l)), iunlock = (\<lambda>i (s, m, d, l). (s, m, d, l - {#i#})),
     iunlockput = (\<lambda>i (s, m, d, l). (s, m, d, l - {#i#})), iput = (\<lambda>i k. k), iupdate = (\<lambda>i k. k),
     ialloc = (\<lambda>d t k. (9, k)), dirlookup = (\<lambda>d s k. (0, 0, k)), dirlink = (\<lambda>d s i k. (0, k)),
     readi = (\<lambda>d off n k. (int (length b), b, k)), writei = (\<lambda>d bs off k. (int (length bs), k)), namecmp = (\<lambda>s t. 1),
     inode_of = (\<lambda>i k. \<lparr>idev = 1, inum = i, itype = 2, imajor = 0, iminor = 0, inlink = 1, isize = 0\<rparr>),
     set_inode = (\<lambda>i x k. k), filealloc = (\<lambda>k. (3, k)), fileclose = (\<lambda>f k. k), filedup = (\<lambda>f k. k),
     fileread = (\<lambda>f a n p. Inr (Done 0, p)), filewrite = (\<lambda>f a n p. Inr (Done 0, p)), filestat = (\<lambda>f a p. Inr (Done 0, p)),
     set_file = (\<lambda>f x k. k), pipe_alloc = (\<lambda>k. ((- 1, 0, 0), k)), kexec = (\<lambda>a v p. Inr (Done 0, p))\<rparr>"

definition demo_elf :: "u8 list" where
  "demo_elf = [0x7F, 0x45, 0x4C, 0x46] @ replicate 48 0"

definition demo_proc :: xproc where
  "demo_proc = \<lparr>x_sz = 0, x_pgdir = 0xC0018000, x_eip = 0, x_esp = 0, x_name = ''sh''\<rparr>"

lemma demo_laws:
  "uvm_laws demo_u (\<lambda>pg s. fst (snd s))" "uvm_keeps demo_u (\<lambda>k. fst (snd k)) (\<lambda>k. snd (snd k))"
  "fs_laws (demo_k b) (\<lambda>s. fst (snd (snd s))) (\<lambda>s. snd (snd (snd s)))"
proof -
  show "uvm_laws demo_u (\<lambda>pg s. fst (snd s))" by (auto simp: uvm_laws_def demo_u_def demo_mem_def demo_acc_iff)
  show "uvm_keeps demo_u (\<lambda>k. fst (snd k)) (\<lambda>k. snd (snd k))" by (simp add: uvm_keeps_def keeps_def demo_u_def demo_mem_def)
  show "fs_laws (demo_k b) (\<lambda>s. fst (snd (snd s))) (\<lambda>s. snd (snd (snd s)))" by (simp add: fs_laws_def keeps_def demo_k_def)
qed

lemma demo_words:
  "take 5 ((replicate 36 (0 :: u32))[3 := 8188, 4 := 0, 0 := 4294967295, Suc 0 := 1, 2 := 8180]) = [4294967295, 1, 8180, 8188, 0]"
  by code_simp

lemma demo_exec:
  assumes "setupkvm QEMU (entry_translate QEMU) 0xC0010000 0xC0020000 0xC0014000 ks = Inr (0xC0014000, ks')"
  shows "\<exists>p' s'. exec (demo_k demo_elf) demo_u ''/bin/hi'' [''hi''] demo_proc (ks, Map.empty, 0, {#}) = Inr (0, p', s') \<and>
    x_pgdir p' = 0xC0014000 \<and> x_name p' = ''hi'' \<and> x_esp p' = 8168"
  by (simp add: exec_def exec_load_def exec_setupkvm_def exec_stack_def exec_commit_def demo_u_def demo_k_def demo_elf_def assms
    elfhdr_of_def get32_def get16_def ELF_MAGIC_def PGROUNDUP_def PGROUNDDOWN_def PGSIZE_def KERNBASE_def Let_def MAXARG_def demo_mem_def word_chars_def demo_proc_def demo_words)

lemma demo_setupkvm:
  "\<exists>ks ks'. setupkvm QEMU (entry_translate QEMU) 0xC0010000 0xC0020000 0xC0014000 ks = Inr (0xC0014000, ks')"
proof -
  obtain s xs where s: "kmem_inv (entry_translate QEMU) 0xC0020000 s xs" and lay: "kernel_layout 0xC0010000 0xC0020000 0xC0014000"
    and low: "\<forall>x \<in> set xs. low_page 0xC0020000 x" and n: "length xs = 992" by (rule boot_allocator)
  from n obtain v ys where "xs = v # ys" "35 \<le> length ys" by (cases xs) auto
  then show ?thesis using setupkvm_ok [OF lay, of QEMU s v ys] s low by blast
qed



end
