(* ===== verification/Kbd.thy ===== *)
theory Kbd
  imports Prelude
begin

text \<open>
  The keyboard driver (\<^verbatim>\<open>kbd.c\<close>) and its tables (\<^verbatim>\<open>kbd.h\<close>). The instruction \<^verbatim>\<open>inb\<close>, commented out in \<^verbatim>\<open>x86.h\<close>, and
  \<^verbatim>\<open>consoleintr\<close>, commented out in \<^verbatim>\<open>console.c\<close>, are parameters.
\<close>

section \<open>kbd.h\<close>

definition KBSTATP :: u16 where "KBSTATP = 0x64"
definition KBS_DIB :: u8 where "KBS_DIB = 0x01"
definition KBDATAP :: u16 where "KBDATAP = 0x60"

definition SHIFT :: u8 where "SHIFT = push_bit 0 1"
definition CTL :: u8 where "CTL = push_bit 1 1"
definition ALT :: u8 where "ALT = push_bit 2 1"
definition CAPSLOCK :: u8 where "CAPSLOCK = push_bit 3 1"
definition NUMLOCK :: u8 where "NUMLOCK = push_bit 4 1"
definition SCROLLLOCK :: u8 where "SCROLLLOCK = push_bit 5 1"
definition E0ESC :: u32 where "E0ESC = push_bit 6 1"

text \<open>\<^verbatim>\<open>NO\<close>, the byte of a character, and \<^verbatim>\<open>C('A')\<close>, control-A.\<close>

definition NO :: u8 where "NO = 0"

definition ch :: "char \<Rightarrow> u8" where "ch c = of_char c"

definition Ctl :: "char \<Rightarrow> u8" where "Ctl c = ch c - ch (CHR ''@'')"

text \<open>An array initialiser: the leading elements, zeros, and the designated elements.\<close>

definition initialiser :: "u8 list \<Rightarrow> (nat \<times> u8) list \<Rightarrow> u8 list" where
  "initialiser xs ds = fold (\<lambda>(i, v) t. t[i := v]) ds (xs @ replicate (256 - length xs) 0)"

definition shiftcode :: "u8 list" where
  "shiftcode = initialiser [] [(0x1D, CTL), (0x2A, SHIFT), (0x36, SHIFT), (0x38, ALT), (0x9D, CTL), (0xB8, ALT)]"

definition togglecode :: "u8 list" where
  "togglecode = initialiser [] [(0x3A, CAPSLOCK), (0x45, NUMLOCK), (0x46, SCROLLLOCK)]"

text \<open>The keys of the extended block, \<^verbatim>\<open>KEY_UP\<close>, \<^verbatim>\<open>KEY_DN\<close> and so on, the same in the three maps.\<close>

definition extended :: "(nat \<times> u8) list" where
  "extended = [(0xC8, 0xE2), (0xD0, 0xE3), (0xC9, 0xE6), (0xD1, 0xE7), (0xCB, 0xE4), (0xCD, 0xE5), (0x97, 0xE0), (0xCF, 0xE1),
     (0xD2, 0xE8), (0xD3, 0xE9)]"

definition normalmap :: "u8 list" where
  "normalmap = initialiser
     ([NO, 0x1B] @ map ch ''123456'' @
      map ch ''7890-='' @ [0x08, 0x09] @
      map ch ''qwertyui'' @
      map ch ''op[]'' @ [0x0A, NO] @ map ch ''as'' @
      map ch ''dfghjkl;'' @
      [0x27, ch CHR 0x60, NO, 0x5C] @ map ch ''zxcv'' @
      map ch ''bnm,./'' @ [NO] @ map ch ''*'' @
      [NO] @ map ch '' '' @ [NO, NO, NO, NO, NO, NO] @
      [NO, NO, NO, NO, NO, NO, NO] @ map ch ''7'' @
      map ch ''89-456+1'' @
      map ch ''230.'' @ [NO, NO, NO, NO])
     ([(0x9C, 0x0A), (0xB5, ch (CHR ''/''))] @ extended)"

definition shiftmap :: "u8 list" where
  "shiftmap = initialiser
     ([NO, 0x1B] @ map ch ''!@#$%^'' @
      map ch ''&*()_+'' @ [0x08, 0x09] @
      map ch ''QWERTYUI'' @
      map ch ''OP{}'' @ [0x0A, NO] @ map ch ''AS'' @
      map ch ''DFGHJKL:'' @
      [0x22] @ map ch ''~'' @ [NO] @ map ch ''|ZXCV'' @
      map ch ''BNM<>?'' @ [NO] @ map ch ''*'' @
      [NO] @ map ch '' '' @ [NO, NO, NO, NO, NO, NO] @
      [NO, NO, NO, NO, NO, NO, NO] @ map ch ''7'' @
      map ch ''89-456+1'' @
      map ch ''230.'' @ [NO, NO, NO, NO])
     ([(0x9C, 0x0A), (0xB5, ch (CHR ''/''))] @ extended)"

definition ctlmap :: "u8 list" where
  "ctlmap = initialiser
     (replicate 16 NO @
      map Ctl ''QWERTYUI'' @
      map Ctl ''OP'' @ [NO, NO, 0x0D, NO] @ map Ctl ''AS'' @
      map Ctl ''DFGHJKL'' @ [NO] @
      [NO, NO, NO, Ctl CHR 0x5C] @ map Ctl ''ZXCV'' @
      map Ctl ''BNM'' @ [NO, NO] @ map Ctl ''/'' @ [NO, NO])
     ([(0x9C, 0x0D), (0xB5, Ctl (CHR ''/''))] @ extended)"

section \<open>kbd.c\<close>

definition charcode :: "u8 list list" where
  "charcode = [normalmap, shiftmap, ctlmap, ctlmap]"

text \<open>What \<^verbatim>\<open>kbdgetc\<close> reads: nothing, or a byte of the keyboard.\<close>

definition kbd_in :: "(u16 \<Rightarrow> 'w \<Rightarrow> u8 \<times> 'w) \<Rightarrow> 'w \<Rightarrow> u8 option \<times> 'w" where
  "kbd_in inb w =
     (case inb KBSTATP w of (st, w) \<Rightarrow>
      if st AND KBS_DIB = 0 then (None, w)
      else (case inb KBDATAP w of (data, w) \<Rightarrow> (Some data, w)))"

text \<open>A key pressed, from the update of the modifiers on; \<open>c\<close> is an unsigned number of 32 bits.\<close>

definition kbd_press :: "u8 \<Rightarrow> u32 \<Rightarrow> int \<times> u32" where
  "kbd_press data shift =
     (let shift = shift OR ucast (shiftcode ! unat data);
          shift = shift XOR ucast (togglecode ! unat data);
          c = ucast (charcode ! unat (shift AND ucast (CTL OR SHIFT)) ! unat data) :: u32;
          c = (if shift AND ucast CAPSLOCK \<noteq> 0 then
                 (if 97 \<le> c \<and> c \<le> 122 then c + (65 - 97)
                  else if 65 \<le> c \<and> c \<le> 90 then c + (97 - 65) else c)
               else c)
      in (sint c, shift))"

definition kbd_code :: "u8 \<Rightarrow> u32 \<Rightarrow> int \<times> u32" where
  "kbd_code data shift =
     (if data = 0xE0 then (0, shift OR E0ESC)
      else if data AND 0x80 \<noteq> 0 then
        (let data = (if shift AND E0ESC \<noteq> 0 then data else data AND 0x7F)
         in (0, shift AND NOT (ucast (shiftcode ! unat data) OR E0ESC)))
      else if shift AND E0ESC \<noteq> 0 then kbd_press (data OR 0x80) (shift AND NOT E0ESC)
      else kbd_press data shift)"

definition kbdgetc :: "(u16 \<Rightarrow> 'w \<Rightarrow> u8 \<times> 'w) \<Rightarrow> u32 \<times> 'w \<Rightarrow> int \<times> u32 \<times> 'w" where
  "kbdgetc inb s =
     (case kbd_in inb (snd s) of
        (None, w) \<Rightarrow> (- 1, fst s, w)
      | (Some data, w) \<Rightarrow> (case kbd_code data (fst s) of (c, shift) \<Rightarrow> (c, shift, w)))"

definition kbdintr :: "((u32 \<times> 'w \<Rightarrow> int \<times> u32 \<times> 'w) \<Rightarrow> 'c) \<Rightarrow> (u16 \<Rightarrow> 'w \<Rightarrow> u8 \<times> 'w) \<Rightarrow> 'c" where
  "kbdintr consoleintr inb = consoleintr (kbdgetc inb)"

section \<open>The tables\<close>

lemma length_initialiser: "length xs \<le> 256 \<Longrightarrow> length (initialiser xs ds) = 256"
proof -
  have "length (fold (\<lambda>(i, v) t. t[i := v]) ds t) = length t" for t :: "u8 list"
    by (induction ds arbitrary: t) auto
  then show "length xs \<le> 256 \<Longrightarrow> length (initialiser xs ds) = 256" by (simp add: initialiser_def)
qed

lemma length_tables [simp]:
  "length shiftcode = 256" "length togglecode = 256" "length normalmap = 256" "length shiftmap = 256" "length ctlmap = 256"
  by (simp_all add: shiftcode_def togglecode_def normalmap_def shiftmap_def ctlmap_def length_initialiser)

lemma unat_lt8: "unat (d :: u8) < 256"
  using unsigned_less [of d] by simp

lemma unat_u8_eq: "unat (d :: u8) = n \<longleftrightarrow> d = of_nat n \<and> n < 256"
  using unat_lt8 [of d] by (auto simp: word_unat_eq_iff unat_of_nat take_bit_eq_mod)

lemma shiftcode_nth:
  "shiftcode ! unat (d :: u8) = (if d = 0x2A \<or> d = 0x36 then 1 else if d = 0x1D \<or> d = 0x9D then 2
     else if d = 0x38 \<or> d = 0xB8 then 4 else 0)"
proof -
  have "unat d < 256" by (rule unat_lt8)
  then show ?thesis
    by (simp add: shiftcode_def initialiser_def nth_list_update unat_u8_eq SHIFT_def CTL_def ALT_def)
qed

lemma togglecode_nth:
  "togglecode ! unat (d :: u8) = (if d = 0x3A then 8 else if d = 0x45 then 16 else if d = 0x46 then 32 else 0)"
proof -
  have "unat d < 256" by (rule unat_lt8)
  then show ?thesis
    by (simp add: togglecode_def initialiser_def nth_list_update unat_u8_eq CAPSLOCK_def NUMLOCK_def SCROLLLOCK_def)
qed

section \<open>The modifiers\<close>

text \<open>What the bytes mean: keys going down and up, a prefix selecting the extended block; the newest event first.\<close>

datatype kev = Press u8 | Release u8

fun kbd_event :: "u8 \<Rightarrow> bool \<times> kev list \<Rightarrow> bool \<times> kev list" where
  "kbd_event d (esc, h) =
     (if d = 0xE0 then (True, h)
      else if bit d 7 then (False, Release (if esc then d else d AND 0x7F) # h)
      else (False, Press (if esc then d OR 0x80 else d) # h))"

text \<open>The last event of the keys \<open>K\<close> was that one went down; the key \<open>k\<close> has gone down an odd number of times.\<close>

fun down :: "u8 set \<Rightarrow> kev list \<Rightarrow> bool" where
  "down K [] \<longleftrightarrow> False"
| "down K (Press k # h) \<longleftrightarrow> k \<in> K \<or> down K h"
| "down K (Release k # h) \<longleftrightarrow> k \<notin> K \<and> down K h"

fun toggled :: "u8 \<Rightarrow> kev list \<Rightarrow> bool" where
  "toggled k [] \<longleftrightarrow> False"
| "toggled k (Press k' # h) \<longleftrightarrow> (k' = k) \<noteq> toggled k h"
| "toggled k (Release k' # h) \<longleftrightarrow> toggled k h"

definition tracked :: "u32 \<Rightarrow> bool \<times> kev list \<Rightarrow> bool" where
  "tracked shift e \<longleftrightarrow> (\<forall>n. bit shift n \<longleftrightarrow>
     n = 0 \<and> down {0x2A, 0x36} (snd e) \<or> n = 1 \<and> down {0x1D, 0x9D} (snd e) \<or> n = 2 \<and> down {0x38, 0xB8} (snd e) \<or>
     n = 3 \<and> toggled 0x3A (snd e) \<or> n = 4 \<and> toggled 0x45 (snd e) \<or> n = 5 \<and> toggled 0x46 (snd e) \<or> n = 6 \<and> fst e)"

lemma bit_lits:
  "bit (1 :: u32) n \<longleftrightarrow> n = 0" "bit (2 :: u32) n \<longleftrightarrow> n = 1" "bit (4 :: u32) n \<longleftrightarrow> n = 2" "bit (8 :: u32) n \<longleftrightarrow> n = 3"
  "bit (16 :: u32) n \<longleftrightarrow> n = 4" "bit (32 :: u32) n \<longleftrightarrow> n = 5" "bit (64 :: u32) n \<longleftrightarrow> n = 6"
proof -
  have p: "bit (push_bit k 1 :: u32) n \<longleftrightarrow> n = k" if "k < 32" for k using that by (auto simp: bit_simps)
  show "bit (1 :: u32) n \<longleftrightarrow> n = 0" "bit (2 :: u32) n \<longleftrightarrow> n = 1" "bit (4 :: u32) n \<longleftrightarrow> n = 2" "bit (8 :: u32) n \<longleftrightarrow> n = 3"
    "bit (16 :: u32) n \<longleftrightarrow> n = 4" "bit (32 :: u32) n \<longleftrightarrow> n = 5" "bit (64 :: u32) n \<longleftrightarrow> n = 6"
    using p [of 0] p [of 1] p [of 2] p [of 3] p [of 4] p [of 5] p [of 6] by simp_all
qed

lemma tracked_bit: "tracked shift e \<Longrightarrow> bit shift n \<longleftrightarrow>
     n = 0 \<and> down {0x2A, 0x36} (snd e) \<or> n = 1 \<and> down {0x1D, 0x9D} (snd e) \<or> n = 2 \<and> down {0x38, 0xB8} (snd e) \<or>
     n = 3 \<and> toggled 0x3A (snd e) \<or> n = 4 \<and> toggled 0x45 (snd e) \<or> n = 5 \<and> toggled 0x46 (snd e) \<or> n = 6 \<and> fst e"
  by (simp add: tracked_def)

lemma and_E0ESC: "(shift AND E0ESC \<noteq> 0) = bit (shift :: u32) 6"
  by (simp add: E0ESC_def and_exp_eq_0_iff_not_bit [where n = 6, simplified])

lemma and_0x80: "(d AND 0x80 \<noteq> 0) = bit (d :: u8) 7"
  using and_exp_eq_0_iff_not_bit [of d 7] by simp

lemma bit_codes:
  "bit (ucast (shiftcode ! unat d) :: u32) n \<longleftrightarrow>
     n = 0 \<and> d \<in> {0x2A, 0x36} \<or> n = 1 \<and> d \<in> {0x1D, 0x9D} \<or> n = 2 \<and> d \<in> {0x38, 0xB8 :: u8}"
  "bit (ucast (togglecode ! unat d) :: u32) n \<longleftrightarrow> n = 3 \<and> d = 0x3A \<or> n = 4 \<and> d = 0x45 \<or> n = 5 \<and> d = (0x46 :: u8)"
proof -
  have "(ucast (shiftcode ! unat d) :: u32) = (if d \<in> {0x2A, 0x36} then 1 else if d \<in> {0x1D, 0x9D} then 2
      else if d \<in> {0x38, 0xB8} then 4 else 0)"
    "(ucast (togglecode ! unat d) :: u32) = (if d = 0x3A then 8 else if d = 0x45 then 16 else if d = 0x46 then 32 else 0)"
    by (simp_all add: shiftcode_nth togglecode_nth)
  then show "bit (ucast (shiftcode ! unat d) :: u32) n \<longleftrightarrow>
      n = 0 \<and> d \<in> {0x2A, 0x36} \<or> n = 1 \<and> d \<in> {0x1D, 0x9D} \<or> n = 2 \<and> d \<in> {0x38, 0xB8 :: u8}"
    "bit (ucast (togglecode ! unat d) :: u32) n \<longleftrightarrow> n = 3 \<and> d = 0x3A \<or> n = 4 \<and> d = 0x45 \<or> n = 5 \<and> d = (0x46 :: u8)"
    by (simp_all add: bit_lits del: bit_numeral_word_iff)
qed

lemma trackedI:
  assumes "\<And>n. n < 7 \<Longrightarrow> bit shift n \<longleftrightarrow>
     n = 0 \<and> down {0x2A, 0x36} (snd e) \<or> n = 1 \<and> down {0x1D, 0x9D} (snd e) \<or> n = 2 \<and> down {0x38, 0xB8} (snd e) \<or>
     n = 3 \<and> toggled 0x3A (snd e) \<or> n = 4 \<and> toggled 0x45 (snd e) \<or> n = 5 \<and> toggled 0x46 (snd e) \<or> n = 6 \<and> fst e"
    and "\<And>n. 7 \<le> n \<Longrightarrow> \<not> bit shift n"
  shows "tracked shift e"
  unfolding tracked_def
proof
  fix n show "bit shift n \<longleftrightarrow>
     n = 0 \<and> down {0x2A, 0x36} (snd e) \<or> n = 1 \<and> down {0x1D, 0x9D} (snd e) \<or> n = 2 \<and> down {0x38, 0xB8} (snd e) \<or>
     n = 3 \<and> toggled 0x3A (snd e) \<or> n = 4 \<and> toggled 0x45 (snd e) \<or> n = 5 \<and> toggled 0x46 (snd e) \<or> n = 6 \<and> fst e"
    using assms [of n] by (cases "n < 7") simp_all
qed

lemma below_7: "n < 7 \<Longrightarrow> n = 0 \<or> n = 1 \<or> n = 2 \<or> n = 3 \<or> n = 4 \<or> n = 5 \<or> n = (6 :: nat)"
  by linarith

lemma press_tracked:
  assumes t: "tracked shift (False, h)"
  shows "tracked (snd (kbd_press d shift)) (False, Press d # h)"
proof -
  have e: "snd (kbd_press d shift) = (shift OR ucast (shiftcode ! unat d)) XOR ucast (togglecode ! unat d)"
    by (simp add: kbd_press_def Let_def)
  note b = bit_or_iff bit_xor_iff bit_codes tracked_bit [OF t]
  show ?thesis unfolding e
  proof (rule trackedI)
    fix n :: nat assume "n < 7"
    from below_7 [OF this] show "bit ((shift OR ucast (shiftcode ! unat d)) XOR ucast (togglecode ! unat d)) n \<longleftrightarrow>
     n = 0 \<and> down {0x2A, 0x36} (snd (False, Press d # h)) \<or> n = 1 \<and> down {0x1D, 0x9D} (snd (False, Press d # h)) \<or> n = 2 \<and> down {0x38, 0xB8} (snd (False, Press d # h)) \<or>
     n = 3 \<and> toggled 0x3A (snd (False, Press d # h)) \<or> n = 4 \<and> toggled 0x45 (snd (False, Press d # h)) \<or> n = 5 \<and> toggled 0x46 (snd (False, Press d # h)) \<or> n = 6 \<and> fst (False, Press d # h)"
      by (elim disjE) (auto simp: b)
  qed (simp add: b)
qed

lemma release_tracked:
  assumes t: "tracked shift (esc, h)"
  shows "tracked (shift AND NOT (ucast (shiftcode ! unat d) OR E0ESC)) (False, Release d # h)"
proof -
  have e: "E0ESC = 64" by (simp add: E0ESC_def)
  note b = bit_and_iff bit_not_iff bit_or_iff bit_codes bit_lits tracked_bit [OF t]
  show ?thesis unfolding e
  proof (rule trackedI)
    fix n :: nat assume "n < 7"
    from below_7 [OF this] show "bit (shift AND NOT (ucast (shiftcode ! unat d) OR 64)) n \<longleftrightarrow>
     n = 0 \<and> down {0x2A, 0x36} (snd (False, Release d # h)) \<or> n = 1 \<and> down {0x1D, 0x9D} (snd (False, Release d # h)) \<or> n = 2 \<and> down {0x38, 0xB8} (snd (False, Release d # h)) \<or>
     n = 3 \<and> toggled 0x3A (snd (False, Release d # h)) \<or> n = 4 \<and> toggled 0x45 (snd (False, Release d # h)) \<or> n = 5 \<and> toggled 0x46 (snd (False, Release d # h)) \<or> n = 6 \<and> fst (False, Release d # h)"
      by (elim disjE) (auto simp: b)
  qed (simp add: b)
qed

lemma esc_tracked:
  assumes t: "tracked shift (esc, h)"
  shows "tracked (shift OR E0ESC) (True, h)" "tracked (shift AND NOT E0ESC) (False, h)" "bit shift 6 = esc"
proof -
  have e: "E0ESC = 64" by (simp add: E0ESC_def)
  note b = bit_and_iff bit_not_iff bit_or_iff bit_lits tracked_bit [OF t]
  show "tracked (shift OR E0ESC) (True, h)" unfolding e tracked_def b by auto
  show "tracked (shift AND NOT E0ESC) (False, h)" unfolding e tracked_def b by (auto simp: bit_imp_le_length)
  show "bit shift 6 = esc" unfolding b by simp
qed

lemma code_tracked:
  assumes t: "tracked shift e"
  shows "tracked (snd (kbd_code d shift)) (kbd_event d e)"
proof -
  obtain esc h where e: "e = (esc, h)" by (cases e)
  note T = t [unfolded e]
  show ?thesis unfolding e kbd_code_def kbd_event.simps and_E0ESC and_0x80 esc_tracked(3) [OF T]
    using esc_tracked(1,2) [OF T] release_tracked [OF T] press_tracked [of shift h] press_tracked [of "shift AND NOT E0ESC" h] T
    by (cases esc) (simp_all add: Let_def)
qed

text \<open>The bytes taken from the keyboard by \<open>n\<close> calls, the modifiers and the device after them.\<close>

fun kbd_calls :: "(u16 \<Rightarrow> 'w \<Rightarrow> u8 \<times> 'w) \<Rightarrow> nat \<Rightarrow> u32 \<times> 'w \<Rightarrow> u8 list \<times> u32 \<times> 'w" where
  "kbd_calls inb 0 s = ([], s)"
| "kbd_calls inb (Suc n) s =
     (case kbd_calls inb n (snd (kbdgetc inb s)) of (ds, s') \<Rightarrow>
        (case fst (kbd_in inb (snd s)) of None \<Rightarrow> ds | Some d \<Rightarrow> d # ds, s'))"

lemma calls_tracked:
  "tracked (fst s) e \<Longrightarrow> kbd_calls inb n s = (ds, s') \<Longrightarrow> tracked (fst s') (fold kbd_event ds e)"
proof (induction n arbitrary: s e ds)
  case (Suc n)
  obtain x w where i: "kbd_in inb (snd s) = (x, w)" by fastforce
  obtain ds1 where c: "kbd_calls inb n (snd (kbdgetc inb s)) = (ds1, s')" using Suc.prems(2) by (auto split: prod.splits)
  show ?case
  proof (cases x)
    case None
    then show ?thesis using Suc.IH [of "snd (kbdgetc inb s)" e ds] Suc.prems i c by (simp add: kbdgetc_def)
  next
    case (Some d)
    then have "tracked (fst (snd (kbdgetc inb s))) (kbd_event d e)"
      using code_tracked [OF Suc.prems(1), of d] i by (simp add: kbdgetc_def case_prod_beta)
    from Suc.IH [OF this c] show ?thesis using Suc.prems(2) Some i c by auto
  qed
qed simp

section \<open>Characters\<close>

text \<open>The codes of the letter keys.\<close>

definition letters :: "(nat \<times> char) list" where
  "letters = zip ([0x10..<0x1A] @ [0x1E..<0x27] @ [0x2C..<0x33]) ''qwertyuiopasdfghjklzxcvbnm''"

lemma initialiser_nth:
  assumes "k < length xs" "k \<notin> fst ` set ds"
  shows "initialiser xs ds ! k = xs ! k"
proof -
  have "fold (\<lambda>(i, v) t. t[i := v]) ds t ! k = t ! k" if "k \<notin> fst ` set ds" for t :: "u8 list"
    using that by (induction ds arbitrary: t) auto
  then show ?thesis using assms by (simp add: initialiser_def nth_append)
qed

lemma letter_maps:
  "list_all (\<lambda>(k, c). normalmap ! k = ch c \<and> shiftmap ! k = ch c - 32 \<and> ctlmap ! k = ch c - 96 \<and> 16 \<le> k \<and> k < 51 \<and>
     k \<notin> {0x1D, 0x2A} \<and> 97 \<le> unat (ch c) \<and> unat (ch c) \<le> 122) letters"
proof -
  have l: "letters = [(16, CHR ''q''), (17, CHR ''w''), (18, CHR ''e''), (19, CHR ''r''), (20, CHR ''t''), (21, CHR ''y''),
      (22, CHR ''u''), (23, CHR ''i''), (24, CHR ''o''), (25, CHR ''p''), (30, CHR ''a''), (31, CHR ''s''), (32, CHR ''d''),
      (33, CHR ''f''), (34, CHR ''g''), (35, CHR ''h''), (36, CHR ''j''), (37, CHR ''k''), (38, CHR ''l''), (44, CHR ''z''),
      (45, CHR ''x''), (46, CHR ''c''), (47, CHR ''v''), (48, CHR ''b''), (49, CHR ''n''), (50, CHR ''m'')]"
    by code_simp
  show ?thesis unfolding l normalmap_def shiftmap_def ctlmap_def
    by (simp add: initialiser_nth extended_def nth_append ch_def Ctl_def)
qed

lemma lt128: "(x :: u32) < 128 \<longleftrightarrow> (\<forall>n\<ge>7. \<not> bit x n)"
proof -
  have "x < 128 \<longleftrightarrow> take_bit 7 (unat x) = unat x" by (simp add: take_bit_nat_eq_self_iff word_less_nat_alt)
  also have "\<dots> \<longleftrightarrow> take_bit 7 x = x" by (simp add: word_unat_eq_iff unsigned_take_bit_eq)
  also have "\<dots> \<longleftrightarrow> (\<forall>n\<ge>7. \<not> bit x n)"
  proof
    assume "take_bit 7 x = x"
    then show "\<forall>n\<ge>7. \<not> bit x n" using bit_take_bit_iff [of 7 x] by (metis not_le)
  qed (auto simp: bit_eq_iff bit_take_bit_iff not_le)
  finally show ?thesis .
qed

lemma charcode_index: "unat (shift AND ucast (CTL OR SHIFT) :: u32) = of_bool (bit shift 0) + 2 * of_bool (bit shift 1)"
proof -
  have "(ucast (CTL OR SHIFT) :: u32) = mask 2" by (simp add: CTL_def SHIFT_def mask_eq_exp_minus_1)
  then have "unat (shift AND ucast (CTL OR SHIFT) :: u32) = unat shift mod (2 * 2)" by (simp add: unat_and_mask32)
  also have "\<dots> = unat shift mod 2 + 2 * (unat shift div 2 mod 2)" unfolding mod_mult2_eq by simp
  also have "\<dots> = of_bool (bit (unat shift) 0) + 2 * of_bool (bit (unat shift) 1)"
    by (simp add: bit_iff_odd of_bool_odd_eq_mod_2)
  finally show ?thesis by (simp add: bit_unsigned_iff)
qed

lemma sint_small: "unat (w :: u32) < 256 \<Longrightarrow> sint w = int (unat w)"
proof -
  assume "unat w < 256"
  then have "- (2 ^ 31) \<le> int (unat w)" "int (unat w) < 2 ^ 31" by (simp_all del: of_nat_unat)
  then have "signed_take_bit 31 (int (unat w)) = int (unat w)" by (rule signed_take_bit_int_eq_self)
  then show ?thesis by (simp add: sint_uint)
qed

lemma unat_ucast8: "unat (ucast (x :: u8) :: u32) = unat x"
  using unat_lt8 [of x] by (simp add: unsigned_ucast_eq take_bit_nat_eq_self)

definition swap_case :: "nat \<Rightarrow> nat" where
  "swap_case c = (if 97 \<le> c \<and> c \<le> 122 then c - 32 else if 65 \<le> c \<and> c \<le> 90 then c + 32 else c)"

lemma swap_case_word:
  "sint (if 97 \<le> c \<and> c \<le> 122 then c + (65 - 97) else if 65 \<le> c \<and> c \<le> 90 then c + (97 - 65) else c) = int (swap_case (unat c))"
  if c: "unat (c :: u32) < 256"
proof -
  consider "97 \<le> unat c \<and> unat c \<le> 122" | "\<not> (97 \<le> unat c \<and> unat c \<le> 122)" "65 \<le> unat c \<and> unat c \<le> 90"
    | "\<not> (97 \<le> unat c \<and> unat c \<le> 122)" "\<not> (65 \<le> unat c \<and> unat c \<le> 90)" by blast
  then show ?thesis
  proof cases
    case 1
    then have "unat (c - 32) = unat c - 32" by (subst unat_sub) (simp_all add: word_le_nat_alt)
    then have "sint (c - 32) = int (unat c - 32)" using sint_small [of "c - 32"] c by (simp del: of_nat_unat)
    then show ?thesis using 1 by (simp add: swap_case_def word_le_nat_alt del: of_nat_unat)
  next
    case 2
    then have "unat (c + 32) = unat c + 32" by (subst unat_add32_small) auto
    then have "sint (c + 32) = int (unat c + 32)" using sint_small [of "c + 32"] 2 by (simp del: of_nat_unat)
    then show ?thesis using 2 by (simp add: swap_case_def word_le_nat_alt del: of_nat_unat)
  next
    case 3
    then show ?thesis using sint_small [OF c] by (auto simp: swap_case_def word_le_nat_alt simp del: of_nat_unat)
  qed
qed

text \<open>The character of a key, as a number below 256.\<close>

definition key_char :: "u8 \<Rightarrow> u32 \<Rightarrow> nat" where
  "key_char d s = (let c = unat (charcode ! (of_bool (bit s 0) + 2 * of_bool (bit s 1)) ! unat d)
     in if bit s 3 then swap_case c else c)"

lemma press_char: "fst (kbd_press d shift) = int (key_char d (snd (kbd_press d shift)))"
proof -
  define s where "s = (shift OR ucast (shiftcode ! unat d)) XOR ucast (togglecode ! unat d)"
  define c where "c = (ucast (charcode ! unat (s AND ucast (CTL OR SHIFT)) ! unat d) :: u32)"
  have c: "unat c = unat (charcode ! (of_bool (bit s 0) + 2 * of_bool (bit s 1)) ! unat d)"
    by (simp add: c_def charcode_index unat_ucast8)
  have lt: "unat c < 256" unfolding c by (rule unat_lt8)
  have caps: "s AND ucast CAPSLOCK \<noteq> 0 \<longleftrightarrow> bit s 3" using and_exp_eq_0_iff_not_bit [of s 3] by (simp add: CAPSLOCK_def)
  have "kbd_press d shift = (sint (if bit s 3 then (if 97 \<le> c \<and> c \<le> 122 then c + (65 - 97)
      else if 65 \<le> c \<and> c \<le> 90 then c + (97 - 65) else c) else c), s)"
    unfolding kbd_press_def Let_def s_def [symmetric] c_def [symmetric] caps by (rule refl)
  then have p: "fst (kbd_press d shift) = sint (if bit s 3 then (if 97 \<le> c \<and> c \<le> 122 then c + (65 - 97)
      else if 65 \<le> c \<and> c \<le> 90 then c + (97 - 65) else c) else c)" "snd (kbd_press d shift) = s" by (simp_all only: fst_conv snd_conv)
  show ?thesis unfolding p key_char_def Let_def c [symmetric]
  proof (cases "bit s 3")
    case True
    show "sint (if bit s 3 then (if 97 \<le> c \<and> c \<le> 122 then c + (65 - 97)
      else if 65 \<le> c \<and> c \<le> 90 then c + (97 - 65) else c) else c) = int (if bit s 3 then swap_case (unat c) else unat c)"
      unfolding if_P [OF True] by (rule swap_case_word [OF lt])
  next
    case False
    show "sint (if bit s 3 then (if 97 \<le> c \<and> c \<le> 122 then c + (65 - 97)
      else if 65 \<le> c \<and> c \<le> 90 then c + (97 - 65) else c) else c) = int (if bit s 3 then swap_case (unat c) else unat c)"
      unfolding if_not_P [OF False] by (rule sint_small [OF lt])
  qed
qed

lemma key_char_lt: "key_char d s < 256"
  using unat_lt8 [of "charcode ! (of_bool (bit s 0) + 2 * of_bool (bit s 1)) ! unat d"]
  by (auto simp: key_char_def Let_def swap_case_def)

lemma press_bits: "7 \<le> n \<Longrightarrow> bit (snd (kbd_press d shift)) n = bit shift n"
  by (simp add: kbd_press_def Let_def bit_or_iff bit_xor_iff bit_codes)

lemma code_typed:
  assumes "shift < 128" "kbd_code d shift = (c, shift')"
  shows "0 \<le> c \<and> c < 256 \<and> shift' < 128"
proof -
  have b: "\<not> bit shift n" if "7 \<le> n" for n using assms(1) that by (simp add: lt128)
  have "0 \<le> c' \<and> c' < 256" if "kbd_press d' s = (c', s')" for d' s c' s'
    using key_char_lt [of d' s'] press_char [of d' s] that by simp
  moreover have "\<not> bit (snd (kbd_code d shift)) n" if "7 \<le> n" for n
    using b [OF that] that by (auto simp: kbd_code_def Let_def press_bits bit_and_iff bit_or_iff E0ESC_def bit_lits simp del: bit_numeral_word_iff)
  ultimately show ?thesis using assms(2) by (auto simp: lt128 kbd_code_def Let_def split: if_splits)
qed

section \<open>Properties\<close>

text \<open>
  C17: the driver knows which modifiers are in force. However the device answers and however many times \<^verbatim>\<open>kbdgetc\<close> is
  called, its static word holds exactly the meaning of the bytes it has read: shift, control and alt are set
  when the last event of one of their keys was that it went down, the three locks when their key has gone down
  an odd number of times, the escape bit when the last byte was the prefix, and no other bit is ever set.
\<close>

theorem kbd_tracks_modifiers:
  "kbd_calls inb n (0, w) = (ds, shift, w') \<Longrightarrow> tracked shift (fold kbd_event ds (False, []))"
  using calls_tracked [of "(0, w)" "(False, [])" inb n ds "(shift, w')"] by (simp add: tracked_def)

definition script :: "u16 \<Rightarrow> u8 list \<Rightarrow> u8 \<times> u8 list" where
  "script port w = (if port = KBSTATP then (if w = [] then 0 else 1, w) else (hd w, tl w))"

lemma kbd_calls_2: "kbd_calls inb 2 s = kbd_calls inb (Suc (Suc 0)) s"
  by (simp only: numeral_2_eq_2)

theorem kbd_tracks_modifiers_witness:
  "\<exists>shift. kbd_calls script 2 (0, [0x2A, 0x1E]) = ([0x2A, 0x1E], shift, []) \<and> bit shift 0 \<and> \<not> bit shift 3"
proof -
  obtain shift where c: "kbd_calls script 2 (0, [0x2A, 0x1E]) = ([0x2A, 0x1E], shift, [])"
    unfolding kbd_calls_2 by (simp add: kbdgetc_def case_prod_beta kbd_in_def script_def KBSTATP_def KBDATAP_def KBS_DIB_def)
  note t = kbd_tracks_modifiers [OF this]
  have "kbd_event 0x1E (kbd_event 0x2A (False, [])) = (False, [Press 0x1E, Press 0x2A])" by (simp add: bit_iff_odd)
  then have "bit shift 0" "\<not> bit shift 3" using tracked_bit [OF t, of 0] tracked_bit [OF t, of 3] by simp_all
  with c show ?thesis by blast
qed



text \<open>
  The letters. Whatever other modifiers are in force, a letter key gives its control code when control is down;
  otherwise it gives the capital letter when exactly one of shift and caps lock is in force, and the small letter when
  both or none are; and it changes no modifier.
\<close>

lemma kbd_letters:
  assumes "(k, c) \<in> set letters" "\<not> bit shift 6"
  shows "kbd_code (of_nat k) shift =
    (if bit shift 1 then int (of_char c) - 96 else if bit shift 0 \<noteq> bit shift 3 then int (of_char c) - 32 else int (of_char c), shift)"
proof -
  have m: "normalmap ! k = ch c" "shiftmap ! k = ch c - 32" "ctlmap ! k = ch c - 96" "16 \<le> k" "k < 51" "k \<noteq> 0x1D" "k \<noteq> 0x2A"
    and c: "97 \<le> unat (ch c)" "unat (ch c) \<le> 122"
    using letter_maps assms(1) by (auto simp: list_all_iff)
  define d where "d = (of_nat k :: u8)"
  have u: "unat d = k" using m(5) by (simp add: d_def unat_of_nat take_bit_nat_eq_self)
  have "d \<noteq> v" if "unat v \<noteq> k" for v using that u by auto
  then have n: "d \<noteq> 0xE0" "d \<noteq> 0x1D" "d \<noteq> 0x2A" "d \<noteq> 0x36" "d \<noteq> 0x38" "d \<noteq> 0x9D" "d \<noteq> 0xB8" "d \<noteq> 0x3A" "d \<noteq> 0x45" "d \<noteq> 0x46"
    using m(5-7) by force+
  have "\<not> bit d 7" using u m(5) bit_unsigned_iff [of d 7, where 'a = nat] by (simp add: bit_iff_odd)
  then have "kbd_code d shift = kbd_press d shift" using n assms(2) by (simp add: kbd_code_def and_0x80 [THEN arg_cong [of _ _ Not], simplified] and_E0ESC [THEN arg_cong [of _ _ Not], simplified])
  moreover have s: "snd (kbd_press d shift) = shift" using n by (simp add: kbd_press_def Let_def shiftcode_nth togglecode_nth)
  moreover have "int (key_char d shift) = (if bit shift 1 then int (unat (ch c)) - 96 else if bit shift 0 \<noteq> bit shift 3 then int (unat (ch c)) - 32 else int (unat (ch c)))"
  proof -
    have "unat (ch c - 32) = unat (ch c) - 32" "unat (ch c - 96) = unat (ch c) - 96"
      using c by (simp_all add: unat_sub word_le_nat_alt)
    then show ?thesis using c m(1-3) by (auto simp: key_char_def u charcode_def swap_case_def Let_def)
  qed
  moreover have "unat (ch c) = of_char c"
  proof -
    have "ch c = of_nat (of_char c)" unfolding ch_def by (rule of_nat_of_char [symmetric])
    then show ?thesis using nat_of_char_less_256 [of c] by (simp only: unat_of_nat) (simp add: take_bit_nat_eq_self)
  qed
  ultimately show ?thesis using press_char [of d shift] unfolding d_def [symmetric] by (simp only: prod_eq_iff fst_conv snd_conv)
qed

end
