(* ===== verification/Mp.thy ===== *)
theory Mp
  imports Memlayout
begin

text \<open>
  The search for processors (\<^verbatim>\<open>mp.c\<close>) in the tables that the firmware of a multiprocessor leaves in memory (\<^verbatim>\<open>mp.h\<close>).
  Memory is a map from addresses to bytes; the port instructions, commented out in \<^verbatim>\<open>x86.h\<close>, are a log of writes and
  a parameter for reads. Loops that may not end are partial functions, whose value is then \<open>None\<close>.
\<close>

section \<open>mp.h\<close>

type_synonym bmem = "u32 \<Rightarrow> u8"

definition get_u16 :: "bmem \<Rightarrow> u32 \<Rightarrow> u32" where
  "get_u16 m a = ucast (m a) OR push_bit 8 (ucast (m (a + 1)))"

definition get_u32 :: "bmem \<Rightarrow> u32 \<Rightarrow> u32" where
  "get_u32 m a = get_u16 m a OR push_bit 16 (get_u16 m (a + 2))"

definition get_bytes :: "bmem \<Rightarrow> u32 \<Rightarrow> nat \<Rightarrow> u8 list" where
  "get_bytes m a n = map (\<lambda>i. m (a + of_nat i)) [0..<n]"

text \<open>The fields of \<^verbatim>\<open>struct mp\<close>, \<^verbatim>\<open>struct mpconf\<close>, \<^verbatim>\<open>struct mpproc\<close> and \<^verbatim>\<open>struct mpioapic\<close> that are used, and the sizes.\<close>

definition mp_physaddr :: "bmem \<Rightarrow> u32 \<Rightarrow> u32" where "mp_physaddr m a = get_u32 m (a + 4)"
definition mp_imcrp :: "bmem \<Rightarrow> u32 \<Rightarrow> u8" where "mp_imcrp m a = m (a + 12)"
definition sizeof_mp :: u32 where "sizeof_mp = 16"

definition conf_length :: "bmem \<Rightarrow> u32 \<Rightarrow> u32" where "conf_length m a = get_u16 m (a + 4)"
definition conf_version :: "bmem \<Rightarrow> u32 \<Rightarrow> u8" where "conf_version m a = m (a + 6)"
definition conf_lapicaddr :: "bmem \<Rightarrow> u32 \<Rightarrow> u32" where "conf_lapicaddr m a = get_u32 m (a + 36)"
definition sizeof_mpconf :: u32 where "sizeof_mpconf = 44"

definition proc_apicid :: "bmem \<Rightarrow> u32 \<Rightarrow> u8" where "proc_apicid m a = m (a + 1)"
definition proc_flags :: "bmem \<Rightarrow> u32 \<Rightarrow> u8" where "proc_flags m a = m (a + 3)"
definition MPBOOT :: u8 where "MPBOOT = 0x02"
definition sizeof_mpproc :: u32 where "sizeof_mpproc = 20"

definition ioapic_apicno :: "bmem \<Rightarrow> u32 \<Rightarrow> u8" where "ioapic_apicno m a = m (a + 1)"
definition sizeof_mpioapic :: u32 where "sizeof_mpioapic = 8"

definition MPPROC :: u8 where "MPPROC = 0x00"
definition MPBUS :: u8 where "MPBUS = 0x01"
definition MPIOAPIC :: u8 where "MPIOAPIC = 0x02"
definition MPIOINTR :: u8 where "MPIOINTR = 0x03"
definition MPLINTR :: u8 where "MPLINTR = 0x04"

section \<open>mp.c\<close>

definition NCPU :: nat where "NCPU = 8"

text \<open>
  The globals: the index of the boot processor in \<^verbatim>\<open>cpus\<close>, the numbers stored in \<^verbatim>\<open>cpus[i].id\<close>, and \<^verbatim>\<open>lapic\<close> of \<^verbatim>\<open>lapic.c\<close>;
  the calls of \<^verbatim>\<open>cprintf\<close> with their arguments and the bytes written to ports.
\<close>

record mpstate =
  cpu_id :: "u8 list"
  bcpu :: nat
  ismp :: bool
  ncpu :: nat
  ioapicid :: u8
  lapic :: u32
  msgs :: "(string \<times> nat list) list"
  ports :: "(u16 \<times> u8) list"

definition mpbcpu :: "mpstate \<Rightarrow> nat" where
  "mpbcpu s = bcpu s"

text \<open>The sum of \<open>n\<close> bytes, cut to a byte.\<close>

fun mp_sum :: "bmem \<Rightarrow> u32 \<Rightarrow> nat \<Rightarrow> u8" where
  "mp_sum m addr 0 = 0"
| "mp_sum m addr (Suc n) = mp_sum m addr n + m (addr + of_nat n)"

definition mp_here :: "bmem \<Rightarrow> u32 \<Rightarrow> bool" where
  "mp_here m p \<longleftrightarrow> get_bytes m p 4 = [0x5F, 0x4D, 0x50, 0x5F] \<and> mp_sum m p 16 = 0"

partial_function (option) mpsearch1_loop :: "bmem \<Rightarrow> u32 \<Rightarrow> u32 \<Rightarrow> u32 option" where
  "mpsearch1_loop m p e =
     (if p < e then (if mp_here m p then Some p else mpsearch1_loop m (p + sizeof_mp) e) else Some 0)"

definition mpsearch1 :: "bmem \<Rightarrow> u32 \<Rightarrow> u32 \<Rightarrow> u32 option" where
  "mpsearch1 m a len = (let addr = p2v a; e = addr + len in mpsearch1_loop m addr e)"

definition mpsearch :: "bmem \<Rightarrow> u32 option" where
  "mpsearch m =
     (let bda = p2v 0x400;
          p = push_bit 4 (push_bit 8 (ucast (m (bda + 0x0F))) OR ucast (m (bda + 0x0E)))
      in Option.bind
           (if p \<noteq> 0 then mpsearch1 m p 1024
            else let p = (push_bit 8 (ucast (m (bda + 0x14))) OR ucast (m (bda + 0x13))) * 1024
                 in mpsearch1 m (p - 1024) 1024)
           (\<lambda>mp. if mp \<noteq> 0 then Some mp else mpsearch1 m 0xF0000 0x10000))"

text \<open>The structure found and the table, if there is a good one.\<close>

definition mpconfig :: "bmem \<Rightarrow> (u32 \<times> u32) option option" where
  "mpconfig m =
     Option.bind (mpsearch m) (\<lambda>mp.
       if mp = 0 \<or> mp_physaddr m mp = 0 then Some None
       else let conf = p2v (mp_physaddr m mp) in
       if get_bytes m conf 4 \<noteq> [0x50, 0x43, 0x4D, 0x50] then Some None
       else if conf_version m conf \<noteq> 1 \<and> conf_version m conf \<noteq> 4 then Some None
       else if mp_sum m conf (unat (conf_length m conf)) \<noteq> 0 then Some None
       else Some (Some (mp, conf)))"

text \<open>
  An entry of a processor; the array \<^verbatim>\<open>cpus\<close> has \<^verbatim>\<open>NCPU\<close> elements, and its index is not checked.
\<close>

definition mp_proc :: "u8 \<Rightarrow> u8 \<Rightarrow> mpstate \<Rightarrow> mpstate res" where
  "mp_proc apicid flags s =
     (let s = (if ncpu s \<noteq> unat apicid
               then s\<lparr>msgs := msgs s @ [(''mpinit: ncpu=%d apicid=%d'' @ [CHR 0x0A], [ncpu s, unat apicid])], ismp := False\<rparr> else s);
          s = (if flags AND MPBOOT \<noteq> 0 then s\<lparr>bcpu := ncpu s\<rparr> else s)
      in if ncpu s < NCPU then Inr (s\<lparr>cpu_id := (cpu_id s)[ncpu s := of_nat (ncpu s)], ncpu := ncpu s + 1\<rparr>)
         else Inl Undefined)"

partial_function (option) mpinit_loop :: "bmem \<Rightarrow> u32 \<Rightarrow> u32 \<Rightarrow> mpstate \<Rightarrow> mpstate res option" where
  "mpinit_loop m p e s =
     (if p < e then
        (if m p = MPPROC then
           (case mp_proc (proc_apicid m p) (proc_flags m p) s of
              Inl x \<Rightarrow> Some (Inl x)
            | Inr s \<Rightarrow> mpinit_loop m (p + sizeof_mpproc) e s)
         else if m p = MPIOAPIC then mpinit_loop m (p + sizeof_mpioapic) e (s\<lparr>ioapicid := ioapic_apicno m p\<rparr>)
         else if m p = MPBUS \<or> m p = MPIOINTR \<or> m p = MPLINTR then mpinit_loop m (p + 8) e s
         else mpinit_loop m p e (s\<lparr>msgs := msgs s @ [(''mpinit: unknown config type %x'' @ [CHR 0x0A], [unat (m p)])], ismp := False\<rparr>))
      else Some (Inr s))"

definition mpinit_end :: "(u16 \<Rightarrow> u8) \<Rightarrow> bmem \<Rightarrow> u32 \<Rightarrow> mpstate \<Rightarrow> mpstate" where
  "mpinit_end inb m mp s =
     (if \<not> ismp s then s\<lparr>ncpu := 1, lapic := 0, ioapicid := 0\<rparr>
      else if mp_imcrp m mp \<noteq> 0 then s\<lparr>ports := ports s @ [(0x22, 0x70), (0x23, inb 0x23 OR 1)]\<rparr>
      else s)"

definition mpinit :: "(u16 \<Rightarrow> u8) \<Rightarrow> bmem \<Rightarrow> mpstate \<Rightarrow> mpstate res option" where
  "mpinit inb m s =
     (let s = s\<lparr>bcpu := 0\<rparr> in
      Option.bind (mpconfig m) (\<lambda>r. case r of
        None \<Rightarrow> Some (Inr s)
      | Some (mp, conf) \<Rightarrow>
          let s = s\<lparr>ismp := True, lapic := conf_lapicaddr m conf\<rparr>
          in Option.bind (mpinit_loop m (conf + sizeof_mpconf) (conf + conf_length m conf) s) (\<lambda>r.
               Some (bindR r (\<lambda>s. Inr (mpinit_end inb m mp s))))))"

section \<open>The search\<close>

lemma unat_plus_of_nat: "unat (p :: u32) + n < 4294967296 \<Longrightarrow> unat (p + of_nat n) = unat p + n"
  by (subst unat_add32_small) (simp_all add: unat_of_nat32)

text \<open>The search looks at every sixteenth byte, in order.\<close>

lemma mpsearch1_loop_find:
  assumes "unat p + 16 * k < 2 ^ 32"
  shows "mpsearch1_loop m p (p + of_nat (16 * k)) =
    Some (case find (mp_here m) (map (\<lambda>i. p + of_nat (16 * i)) [0..<k]) of None \<Rightarrow> 0 | Some q \<Rightarrow> q)"
  using assms
proof (induction k arbitrary: p)
  case (Suc k)
  have u: "unat (p + 16) = unat p + 16" using Suc.prems by (subst unat_add32_small) auto
  have e: "p + of_nat (16 * Suc k) = p + 16 + of_nat (16 * k)" by (simp add: algebra_simps)
  have n: "unat (p + of_nat (16 * Suc k)) = unat p + 16 * Suc k"
    using Suc.prems by (intro unat_plus_of_nat) simp
  then have lt: "p < p + of_nat (16 * Suc k)" by (simp add: word_less_nat_alt del: of_nat_mult of_nat_Suc)
  have "map (\<lambda>i. p + of_nat (16 * i)) [0..<Suc k] = p # map (\<lambda>i. p + 16 + of_nat (16 * i)) [0..<k]"
    by (simp add: upt_conv_Cons map_Suc_upt [symmetric] o_def algebra_simps del: upt_Suc)
  then show ?case
    using Suc.IH [of "p + 16"] Suc.prems u lt unfolding e
    by (subst mpsearch1_loop.simps) (simp add: sizeof_mp_def del: upt_Suc)
qed (subst mpsearch1_loop.simps, simp)

section \<open>Reading the table\<close>

text \<open>The entries of a table, and where they are in memory.\<close>

datatype mpent = Proc u8 u8 | Ioapic u8 | Other u8

fun ent_size :: "mpent \<Rightarrow> nat" where
  "ent_size (Proc a f) = 20"
| "ent_size x = 8"

fun ent_at :: "bmem \<Rightarrow> u32 \<Rightarrow> mpent \<Rightarrow> bool" where
  "ent_at m p (Proc a f) \<longleftrightarrow> m p = MPPROC \<and> proc_apicid m p = a \<and> proc_flags m p = f"
| "ent_at m p (Ioapic n) \<longleftrightarrow> m p = MPIOAPIC \<and> ioapic_apicno m p = n"
| "ent_at m p (Other t) \<longleftrightarrow> m p = t \<and> t \<in> {MPBUS, MPIOINTR, MPLINTR}"

fun ents_at :: "bmem \<Rightarrow> u32 \<Rightarrow> mpent list \<Rightarrow> bool" where
  "ents_at m p [] \<longleftrightarrow> True"
| "ents_at m p (x # xs) \<longleftrightarrow> ent_at m p x \<and> ents_at m (p + of_nat (ent_size x)) xs"

definition ents_size :: "mpent list \<Rightarrow> nat" where
  "ents_size xs = sum_list (map ent_size xs)"

text \<open>What a list of entries says: the processors, and the last I/O APIC.\<close>

fun procs :: "mpent list \<Rightarrow> (u8 \<times> u8) list" where
  "procs [] = []"
| "procs (Proc a f # xs) = (a, f) # procs xs"
| "procs (x # xs) = procs xs"

fun last_ioapic :: "u8 \<Rightarrow> mpent list \<Rightarrow> u8" where
  "last_ioapic i [] = i"
| "last_ioapic i (Ioapic n # xs) = last_ioapic n xs"
| "last_ioapic i (x # xs) = last_ioapic i xs"

fun boot_index :: "nat \<Rightarrow> nat \<Rightarrow> (u8 \<times> u8) list \<Rightarrow> nat" where
  "boot_index b n [] = b"
| "boot_index b n ((a, f) # ps) = boot_index (if bit f 1 then n else b) (Suc n) ps"

lemma MPBOOT_bit: "f AND MPBOOT \<noteq> 0 \<longleftrightarrow> bit (f :: u8) 1"
  using and_exp_eq_0_iff_not_bit [of f 1] by (simp add: MPBOOT_def)

text \<open>What reading the entries \<open>xs\<close> makes of the state.\<close>

definition has_read :: "mpent list \<Rightarrow> mpstate \<Rightarrow> mpstate \<Rightarrow> bool" where
  "has_read xs s s' \<longleftrightarrow> ncpu s' = ncpu s + length (procs xs) \<and> length (cpu_id s') = length (cpu_id s) \<and>
     ismp s' = (ismp s \<and> map fst (procs xs) = map of_nat [ncpu s..<ncpu s']) \<and>
     take (ncpu s') (cpu_id s') = take (ncpu s) (cpu_id s) @ map of_nat [ncpu s..<ncpu s'] \<and>
     ioapicid s' = last_ioapic (ioapicid s) xs \<and> bcpu s' = boot_index (bcpu s) (ncpu s) (procs xs) \<and> lapic s' = lapic s"

lemma mp_proc_read:
  assumes "ncpu s < 8" "length (cpu_id s) = 8"
  obtains s' where "mp_proc a f s = Inr s'" "has_read [Proc a f] s s'"
proof -
  have "ncpu s \<noteq> unat a \<longleftrightarrow> a \<noteq> of_nat (ncpu s)"
    using assms(1) by (auto simp: word_unat_eq_iff unat_of_nat take_bit_nat_eq_self)
  note c = this MPBOOT_bit
  have "\<exists>s'. mp_proc a f s = Inr s'" using assms(1) by (simp add: mp_proc_def Let_def NCPU_def)
  then obtain s' where s': "mp_proc a f s = Inr s'" by blast
  then have "has_read [Proc a f] s s'"
    using assms by (auto simp: mp_proc_def Let_def NCPU_def has_read_def c take_Suc_conv_app_nth split: if_splits)
  with s' show thesis by (rule that)
qed

lemma has_read_Cons:
  assumes "has_read [x] s s1" "has_read xs s1 s2"
  shows "has_read (x # xs) s s2"
proof (cases x)
  case (Proc a f)
  have n: "ncpu s1 = Suc (ncpu s)" using assms(1) Proc by (simp add: has_read_def)
  moreover have "ncpu s2 = ncpu s1 + length (procs xs)" using assms(2) unfolding has_read_def by blast
  ultimately have "[ncpu s..<ncpu s2] = ncpu s # [ncpu s1..<ncpu s2]"
    using upt_conv_Cons [of "ncpu s" "ncpu s2"] by (simp del: upt_Suc)
  then show ?thesis using assms Proc n by (auto simp: has_read_def)
qed (use assms in \<open>auto simp: has_read_def\<close>)

lemma mpinit_loop_ents:
  assumes "ents_at m p xs" "unat p + ents_size xs \<le> unat e" "ncpu s + length (procs xs) \<le> 8" "length (cpu_id s) = 8"
  shows "\<exists>s'. mpinit_loop m p e s = mpinit_loop m (p + of_nat (ents_size xs)) e s' \<and> has_read xs s s'"
  using assms
proof (induction xs arbitrary: p s)
  case Nil
  then show ?case by (intro exI [of _ s]) (simp add: ents_size_def has_read_def)
next
  case (Cons x xs)
  have sz: "ents_size (x # xs) = ent_size x + ents_size xs" by (simp add: ents_size_def)
  have pos: "0 < ent_size x" by (cases x) auto
  have u: "unat (p + of_nat (ent_size x)) = unat p + ent_size x"
    using Cons.prems(2) unat_lt32 [of e] sz by (intro unat_plus_of_nat) linarith
  have lt: "p < e" using Cons.prems(2) sz pos by (simp add: word_less_nat_alt)
  have at: "ent_at m p x" "ents_at m (p + of_nat (ent_size x)) xs" using Cons.prems(1) by auto
  obtain s1 where s1: "mpinit_loop m p e s = mpinit_loop m (p + of_nat (ent_size x)) e s1" "has_read [x] s s1"
  proof (cases x)
    case (Proc a f)
    then obtain s1 where "mp_proc a f s = Inr s1" "has_read [Proc a f] s s1"
      using mp_proc_read [of s a f] Cons.prems(3,4) by auto
    then show thesis using at(1) Proc lt by (intro that [of s1]) (subst mpinit_loop.simps, simp_all add: sizeof_mpproc_def)
  next
    case (Ioapic n)
    show thesis using at(1) Ioapic lt
      by (intro that [of "s\<lparr>ioapicid := n\<rparr>"])
        (subst mpinit_loop.simps, simp_all add: sizeof_mpioapic_def MPPROC_def MPIOAPIC_def has_read_def)
  next
    case (Other t)
    show thesis using at(1) Other lt
      by (intro that [of s], subst mpinit_loop.simps)
        (auto simp: MPPROC_def MPIOAPIC_def MPBUS_def MPIOINTR_def MPLINTR_def has_read_def)
  qed
  have "ncpu s1 + length (procs xs) \<le> 8" "length (cpu_id s1) = 8"
    using s1(2) Cons.prems(3,4) by (cases x; auto simp: has_read_def)+
  from Cons.IH [OF at(2) _ this] u Cons.prems(2) sz obtain s2 where
    "mpinit_loop m (p + of_nat (ent_size x)) e s1 = mpinit_loop m (p + of_nat (ent_size x) + of_nat (ents_size xs)) e s2" "has_read xs s1 s2"
    by auto
  then show ?case using s1 has_read_Cons by (intro exI [of _ s2]) (auto simp: sz add.assoc)
qed

lemma mpinit_loop_unknown:
  assumes "p < e" "m p > 4"
  shows "mpinit_loop m p e s = None"
proof (rule ccontr)
  assume "mpinit_loop m p e s \<noteq> None"
  then obtain y where "mpinit_loop m p e s = Some y" by blast
  then have "p < e \<longrightarrow> \<not> m p > 4"
  proof (rule mpinit_loop.raw_induct [where P = "\<lambda>m p e s y. p < e \<longrightarrow> \<not> m p > 4", rotated])
    fix f :: "bmem \<Rightarrow> u32 \<Rightarrow> u32 \<Rightarrow> mpstate \<Rightarrow> mpstate res option" and m p e s y
    assume ih: "\<And>m p e s y. f m p e s = Some y \<Longrightarrow> p < e \<longrightarrow> \<not> m p > 4"
      and eq: "(if p < e then
        (if m p = MPPROC then
           (case mp_proc (proc_apicid m p) (proc_flags m p) s of
              Inl x \<Rightarrow> Some (Inl x)
            | Inr s \<Rightarrow> f m (p + sizeof_mpproc) e s)
         else if m p = MPIOAPIC then f m (p + sizeof_mpioapic) e (s\<lparr>ioapicid := ioapic_apicno m p\<rparr>)
         else if m p = MPBUS \<or> m p = MPIOINTR \<or> m p = MPLINTR then f m (p + 8) e s
         else f m p e (s\<lparr>msgs := msgs s @ [(''mpinit: unknown config type %x'' @ [CHR 0x0A], [unat (m p)])], ismp := False\<rparr>))
      else Some (Inr s)) = Some y"
    show "p < e \<longrightarrow> \<not> m p > 4"
      using eq ih [of m p e "s\<lparr>msgs := msgs s @ [(''mpinit: unknown config type %x'' @ [CHR 0x0A], [unat (m p)])], ismp := False\<rparr>" y]
      by (auto simp: MPPROC_def MPIOAPIC_def MPBUS_def MPIOINTR_def MPLINTR_def split: if_splits)
  qed
  with assms show False by blast
qed

section \<open>Properties\<close>

text \<open>
  C19: \<^verbatim>\<open>mpinit\<close> reads the firmware's table. When a good table with the entries \<open>xs\<close>, of at most eight processors, is
  found, it returns. If the processors are numbered 0, 1, 2 and so on, it has switched to multiprocessor operation
  with exactly these processors, each recorded under its own number, the last I/O APIC, the address of the local
  APIC, and the last processor marked for booting as the boot processor; otherwise it has fallen back to one
  processor and no APIC.
\<close>

theorem mpinit_reads_table:
  assumes conf: "mpconfig m = Some (Some (mp, conf))" and at: "ents_at m (conf + sizeof_mpconf) xs"
    and len: "unat (conf_length m conf) = 44 + ents_size xs" "unat conf + 44 + ents_size xs < 4294967296"
    and start: "ncpu s = 0" "length (cpu_id s) = 8" and few: "length (procs xs) \<le> 8"
  shows "\<exists>s'. mpinit inb m s = Some (Inr s') \<and>
    (if map fst (procs xs) = map of_nat [0..<length (procs xs)]
     then ismp s' \<and> ncpu s' = length (procs xs) \<and> take (ncpu s') (cpu_id s') = map of_nat [0..<ncpu s'] \<and>
       ioapicid s' = last_ioapic (ioapicid s) xs \<and> lapic s' = conf_lapicaddr m conf \<and> mpbcpu s' = boot_index 0 0 (procs xs)
     else \<not> ismp s' \<and> ncpu s' = 1 \<and> ioapicid s' = 0 \<and> lapic s' = 0)"
proof -
  let ?s = "s\<lparr>bcpu := 0, ismp := True, lapic := conf_lapicaddr m conf\<rparr>" and ?p = "conf + sizeof_mpconf" and ?e = "conf + conf_length m conf"
  have p: "unat ?p = unat conf + 44" using len(2) by (subst unat_add32_small) (simp_all add: sizeof_mpconf_def)
  have e: "unat ?e = unat conf + 44 + ents_size xs" using len by (subst unat_add32_small) simp_all
  have e': "?p + of_nat (ents_size xs) = ?e"
    using p e len(2) unat_plus_of_nat [of ?p "ents_size xs"] by (simp add: word32_eq_iff)
  from mpinit_loop_ents [OF at, of ?e ?s] p e start few obtain s1 where
    "mpinit_loop m ?p ?e ?s = mpinit_loop m ?e ?e s1" and r: "has_read xs ?s s1" unfolding e' by auto
  then have "mpinit_loop m ?p ?e ?s = Some (Inr s1)" by (simp add: mpinit_loop.simps [of m ?e ?e])
  then have "mpinit inb m s = Some (Inr (mpinit_end inb m mp s1))" by (simp add: mpinit_def conf Let_def)
  moreover have "ismp s1 \<longleftrightarrow> map fst (procs xs) = map of_nat [0..<length (procs xs)]"
    "ncpu s1 = length (procs xs)" "take (ncpu s1) (cpu_id s1) = map of_nat [0..<ncpu s1]"
    "ioapicid s1 = last_ioapic (ioapicid s) xs" "bcpu s1 = boot_index 0 0 (procs xs)" "lapic s1 = conf_lapicaddr m conf"
    using r start by (auto simp: has_read_def)
  ultimately show ?thesis by (simp add: mpinit_end_def mpbcpu_def)
qed

text \<open>
  C38: a table with an entry of an unknown type stops the kernel: after the message, the loop of \<^verbatim>\<open>mpinit\<close> goes on with
  the same entry, for ever.
\<close>

theorem mpinit_unknown_loops:
  assumes conf: "mpconfig m = Some (Some (mp, conf))" and at: "ents_at m (conf + sizeof_mpconf) xs"
    and unk: "m (conf + sizeof_mpconf + of_nat (ents_size xs)) > 4"
    and len: "unat (conf_length m conf) > 44 + ents_size xs" "unat conf + unat (conf_length m conf) < 4294967296"
    and start: "ncpu s = 0" "length (cpu_id s) = 8" and few: "length (procs xs) \<le> 8"
  shows "mpinit inb m s = None"
proof -
  let ?s = "s\<lparr>bcpu := 0, ismp := True, lapic := conf_lapicaddr m conf\<rparr>" and ?p = "conf + sizeof_mpconf" and ?e = "conf + conf_length m conf"
  have p: "unat ?p = unat conf + 44" using len by (subst unat_add32_small) (simp_all add: sizeof_mpconf_def)
  have e: "unat ?e = unat conf + unat (conf_length m conf)" using len by (subst unat_add32_small) simp_all
  have "unat (?p + of_nat (ents_size xs)) = unat ?p + ents_size xs" using p len by (intro unat_plus_of_nat) linarith
  then have "?p + of_nat (ents_size xs) < ?e" using p e len(1) by (simp add: word_less_nat_alt)
  note n = mpinit_loop_unknown [where m = m, OF this unk]
  have "unat ?p + ents_size xs \<le> unat ?e" using p e len(1) by simp
  from mpinit_loop_ents [OF at this, of ?s] start few have "mpinit_loop m ?p ?e ?s = None" by (auto simp: n)
  then show ?thesis by (simp add: mpinit_def conf Let_def)
qed

text \<open>A memory for the witnesses: a table with one processor and one I/O APIC, whose first entry has the type \<open>t\<close>.\<close>

definition demo_bytes :: "u8 \<Rightarrow> u8 list" where
  "demo_bytes t = [0x5F, 0x4D, 0x50, 0x5F, 0x10, 0xFC, 0x09, 0x00, 1, 4, 0x8B, 0, 0, 0, 0, 0] @
     [0x50, 0x43, 0x4D, 0x50, 72, 0, 4, 0x8B] @ replicate 26 0 @ [2, 0, 0, 0, 0xE0, 0xFE, 0, 0, 0, 0] @
     [t, 0, - t, 3] @ replicate 16 0 @ [2, 2, 17, 1, 0, 0, 0, 0]"

definition demo_mem :: "u8 \<Rightarrow> bmem" where
  "demo_mem t a = (let k = unat (a - 0xC009FC00) in
     if k < 88 then demo_bytes t ! k else if a = 0xC000040F then 0x9F else if a = 0xC000040E then 0xC0 else 0)"

lemma demo_here: "mp_here (demo_mem 0) 0xC009FC00" "mp_here (demo_mem 9) 0xC009FC00"
  by code_simp+

lemma demo_sum: "mp_sum (demo_mem 0) 0xC009FC10 72 = 0" "mp_sum (demo_mem 9) 0xC009FC10 72 = 0"
  by code_simp+

lemma demo_fields:
  assumes "t = 0 \<or> t = 9"
  shows "mp_physaddr (demo_mem t) 0xC009FC00 = 0x9FC10" "get_bytes (demo_mem t) 0xC009FC10 4 = [0x50, 0x43, 0x4D, 0x50]"
    "conf_version (demo_mem t) 0xC009FC10 = 4" "conf_length (demo_mem t) 0xC009FC10 = 72"
    "demo_mem t 0xC000040F = 0x9F" "demo_mem t 0xC000040E = 0xC0" "demo_mem t 0xC009FC3C = t"
proof -
  have "mp_physaddr (demo_mem 0) 0xC009FC00 = 0x9FC10" "mp_physaddr (demo_mem 9) 0xC009FC00 = 0x9FC10"
    "get_bytes (demo_mem 0) 0xC009FC10 4 = [0x50, 0x43, 0x4D, 0x50]" "get_bytes (demo_mem 9) 0xC009FC10 4 = [0x50, 0x43, 0x4D, 0x50]"
    "conf_version (demo_mem 0) 0xC009FC10 = 4" "conf_version (demo_mem 9) 0xC009FC10 = 4"
    "conf_length (demo_mem 0) 0xC009FC10 = 72" "conf_length (demo_mem 9) 0xC009FC10 = 72"
    "demo_mem 0 0xC009FC3C = 0" "demo_mem 9 0xC009FC3C = 9"
    by code_simp+
  then show "mp_physaddr (demo_mem t) 0xC009FC00 = 0x9FC10" "get_bytes (demo_mem t) 0xC009FC10 4 = [0x50, 0x43, 0x4D, 0x50]"
    "conf_version (demo_mem t) 0xC009FC10 = 4" "conf_length (demo_mem t) 0xC009FC10 = 72" "demo_mem t 0xC009FC3C = t"
    using assms by blast+
  show "demo_mem t 0xC000040F = 0x9F" "demo_mem t 0xC000040E = 0xC0" by (simp_all add: demo_mem_def Let_def)
qed

lemma demo_conf:
  assumes "t = 0 \<or> t = 9"
  shows "mpconfig (demo_mem t) = Some (Some (0xC009FC00, 0xC009FC10))"
proof -
  note f = demo_fields [OF assms]
  have "mp_here (demo_mem t) 0xC009FC00" "mp_sum (demo_mem t) 0xC009FC10 72 = 0" using demo_here demo_sum assms by blast+
  moreover from this(1) have "mpsearch (demo_mem t) = Some 0xC009FC00"
    by (simp add: mpsearch_def mpsearch1_def Let_def p2v_def KERNBASE_def f mpsearch1_loop.simps [of _ "0xC009FC00"])
  ultimately show ?thesis by (simp add: mpconfig_def Let_def f p2v_def KERNBASE_def)
qed

definition demo_mp :: mpstate where
  "demo_mp = \<lparr>cpu_id = replicate 8 0, bcpu = 0, ismp = False, ncpu = 0, ioapicid = 0, lapic = 0, msgs = [], ports = []\<rparr>"

theorem mpinit_reads_table_witness:
  "\<exists>s'. mpinit (\<lambda>_. 0) (demo_mem 0) demo_mp = Some (Inr s') \<and> ismp s' \<and> ncpu s' = 1 \<and> ioapicid s' = 2"
proof -
  have "ents_at (demo_mem 0) 0xC009FC3C [Proc 0 3, Ioapic 2]" by code_simp
  then have at: "ents_at (demo_mem 0) (0xC009FC10 + sizeof_mpconf) [Proc 0 3, Ioapic 2]" by (simp add: sizeof_mpconf_def del: ents_at.simps)
  show ?thesis
    using mpinit_reads_table [OF demo_conf at, of demo_mp "\<lambda>_. 0"] demo_fields(4) [of 0]
    by (auto simp: ents_size_def demo_mp_def)
qed

theorem mpinit_unknown_loops_witness: "mpinit (\<lambda>_. 0) (demo_mem 9) demo_mp = None"
proof (rule mpinit_unknown_loops [OF demo_conf, of _ "[]"])
  show "4 < demo_mem 9 (0xC009FC10 + sizeof_mpconf + of_nat (ents_size []))"
    using demo_fields(7) [of 9] by (simp add: sizeof_mpconf_def ents_size_def)
qed (use demo_fields(4) [of 9] in \<open>simp_all add: ents_size_def demo_mp_def\<close>)

end
