(* ===== verification/Apic.thy ===== *)
theory Apic
  imports Mp Uart
begin

text \<open>
  The interrupt controllers of a multiprocessor: the local one (\<^verbatim>\<open>lapic.c\<close>) and the one for devices (\<^verbatim>\<open>ioapic.c\<close>). Both
  are reached through memory-mapped registers, as the serial port is: a log of writes, and a parameter for what the
  device answers. \<^verbatim>\<open>outb\<close> and \<^verbatim>\<open>readeflags\<close>, commented out in \<^verbatim>\<open>x86.h\<close>, are a log of writes and an argument.
\<close>

section \<open>traps.h and mmu.h\<close>

definition T_IRQ0 :: u32 where "T_IRQ0 = 32"
definition IRQ_TIMER :: u32 where "IRQ_TIMER = 0"
definition IRQ_ERROR :: u32 where "IRQ_ERROR = 19"
definition IRQ_SPURIOUS :: u32 where "IRQ_SPURIOUS = 31"
definition FL_IF :: u32 where "FL_IF = 0x00000200"

section \<open>lapic.c\<close>

definition ID :: u32 where "ID = 0x0020 div 4"
definition VER :: u32 where "VER = 0x0030 div 4"
definition TPR :: u32 where "TPR = 0x0080 div 4"
definition EOI :: u32 where "EOI = 0x00B0 div 4"
definition SVR :: u32 where "SVR = 0x00F0 div 4"
definition ENABLE :: u32 where "ENABLE = 0x00000100"
definition ESR :: u32 where "ESR = 0x0280 div 4"
definition ICRLO :: u32 where "ICRLO = 0x0300 div 4"
definition INIT :: u32 where "INIT = 0x00000500"
definition STARTUP :: u32 where "STARTUP = 0x00000600"
definition DELIVS :: u32 where "DELIVS = 0x00001000"
definition ASSERT :: u32 where "ASSERT = 0x00004000"
definition LEVEL :: u32 where "LEVEL = 0x00008000"
definition BCAST :: u32 where "BCAST = 0x00080000"
definition ICRHI :: u32 where "ICRHI = 0x0310 div 4"
definition TIMER :: u32 where "TIMER = 0x0320 div 4"
definition X1 :: u32 where "X1 = 0x0000000B"
definition PERIODIC :: u32 where "PERIODIC = 0x00020000"
definition PCINT :: u32 where "PCINT = 0x0340 div 4"
definition LINT0 :: u32 where "LINT0 = 0x0350 div 4"
definition LINT1 :: u32 where "LINT1 = 0x0360 div 4"
definition ERROR :: u32 where "ERROR = 0x0370 div 4"
definition MASKED :: u32 where "MASKED = 0x00010000"
definition TICR :: u32 where "TICR = 0x0380 div 4"
definition TDCR :: u32 where "TDCR = 0x03E0 div 4"

lemmas lapic_consts = ID_def VER_def TPR_def EOI_def SVR_def ENABLE_def ESR_def ICRLO_def INIT_def STARTUP_def DELIVS_def
  ASSERT_def LEVEL_def BCAST_def ICRHI_def TIMER_def X1_def PERIODIC_def PCINT_def LINT0_def LINT1_def ERROR_def MASKED_def
  TICR_def TDCR_def T_IRQ0_def IRQ_TIMER_def IRQ_ERROR_def IRQ_SPURIOUS_def

text \<open>\<open>lap\<close> is the pointer \<^verbatim>\<open>lapic\<close>; a register is a word of the array at it.\<close>

definition lapic_reg :: "u32 \<Rightarrow> u32 \<Rightarrow> u32" where
  "lapic_reg lap i = lap + 4 * i"

definition lapicw :: "u32 \<Rightarrow> u32 \<Rightarrow> u32 \<Rightarrow> dev \<Rightarrow> dev" where
  "lapicw lap i v d = (let d = mmio_write (lapic_reg lap i) v d in snd (mmio_read (lapic_reg lap ID) d))"

partial_function (option) wait_delivered :: "u32 \<Rightarrow> dev \<Rightarrow> dev option" where
  "wait_delivered lap d =
     (case mmio_read (lapic_reg lap ICRLO) d of (v, d) \<Rightarrow>
      if v AND DELIVS \<noteq> 0 then wait_delivered lap d else Some d)"

definition lapicinit :: "u32 \<Rightarrow> dev \<Rightarrow> dev option" where
  "lapicinit lap d =
     (if lap = 0 then Some d
      else
        let d = lapicw lap SVR (ENABLE OR (T_IRQ0 + IRQ_SPURIOUS)) d;
            d = lapicw lap TDCR X1 d;
            d = lapicw lap TIMER (PERIODIC OR (T_IRQ0 + IRQ_TIMER)) d;
            d = lapicw lap TICR 10000000 d;
            d = lapicw lap LINT0 MASKED d;
            d = lapicw lap LINT1 MASKED d;
            (ver, d) = mmio_read (lapic_reg lap VER) d;
            d = (if drop_bit 16 ver AND 0xFF \<ge> 4 then lapicw lap PCINT MASKED d else d);
            d = lapicw lap ERROR (T_IRQ0 + IRQ_ERROR) d;
            d = lapicw lap ESR 0 d;
            d = lapicw lap ESR 0 d;
            d = lapicw lap EOI 0 d;
            d = lapicw lap ICRHI 0 d;
            d = lapicw lap ICRLO (BCAST OR INIT OR LEVEL) d
        in Option.bind (wait_delivered lap d) (\<lambda>d. Some (lapicw lap TPR 0 d)))"

text \<open>\<open>n\<close> is the static counter of warnings, \<open>ra\<close> the return address.\<close>

definition cpunum :: "u32 \<Rightarrow> u32 \<Rightarrow> u32 \<Rightarrow> nat \<times> (string \<times> u32) list \<times> dev \<Rightarrow> u32 \<times> nat \<times> (string \<times> u32) list \<times> dev" where
  "cpunum eflags ra lap s =
     (case s of (n, out, d) \<Rightarrow>
      let (n, out) = (if eflags AND FL_IF \<noteq> 0
            then (n + 1, if n = 0 then out @ [(''cpu called from %x with interrupts enabled'' @ [CHR 0x0A], ra)] else out) else (n, out))
      in if lap \<noteq> 0 then (case mmio_read (lapic_reg lap ID) d of (v, d) \<Rightarrow> (drop_bit 24 v, n, out, d)) else (0, n, out, d))"

definition lapiceoi :: "u32 \<Rightarrow> dev \<Rightarrow> dev" where
  "lapiceoi lap d = (if lap \<noteq> 0 then lapicw lap EOI 0 d else d)"

definition microdelay :: "int \<Rightarrow> dev \<Rightarrow> dev" where
  "microdelay us d = d"

definition IO_RTC :: u16 where "IO_RTC = 0x70"

text \<open>The writes to ports, and those to the warm reset vector, half-words in memory.\<close>

record apstate =
  ap_dev :: dev
  ap_ports :: "(u16 \<times> u8) list"
  ap_mem :: "(u32 \<times> u16) list"

definition startup_ipi :: "u32 \<Rightarrow> u8 \<Rightarrow> u32 \<Rightarrow> dev \<Rightarrow> dev" where
  "startup_ipi lap apicid addr d =
     (let d = lapicw lap ICRHI (push_bit 24 (ucast apicid)) d;
          d = lapicw lap ICRLO (STARTUP OR drop_bit 12 addr) d
      in microdelay 200 d)"

definition lapicstartap :: "u32 \<Rightarrow> u8 \<Rightarrow> u32 \<Rightarrow> apstate \<Rightarrow> apstate" where
  "lapicstartap lap apicid addr s =
     (let ports = ap_ports s @ [(IO_RTC, 0xF), (IO_RTC + 1, 0x0A)];
          wrv = p2v (push_bit 4 0x40 OR 0x67);
          mem = ap_mem s @ [(wrv, 0), (wrv + 2, ucast (drop_bit 4 addr))];
          d = lapicw lap ICRHI (push_bit 24 (ucast apicid)) (ap_dev s);
          d = lapicw lap ICRLO (INIT OR LEVEL OR ASSERT) d;
          d = microdelay 200 d;
          d = lapicw lap ICRLO (INIT OR LEVEL) d;
          d = microdelay 100 d;
          d = startup_ipi lap apicid addr (startup_ipi lap apicid addr d)
      in s\<lparr>ap_dev := d, ap_ports := ports, ap_mem := mem\<rparr>)"

section \<open>ioapic.c\<close>

definition IOAPIC :: u32 where "IOAPIC = 0xFEC00000"
definition REG_ID :: u32 where "REG_ID = 0x00"
definition REG_VER :: u32 where "REG_VER = 0x01"
definition REG_TABLE :: u32 where "REG_TABLE = 0x10"
definition INT_DISABLED :: u32 where "INT_DISABLED = 0x00010000"

text \<open>\<^verbatim>\<open>struct ioapic\<close>, at the pointer \<open>io\<close>: the register number at 0, the data at 16.\<close>

definition ioapic_data :: "u32 \<Rightarrow> u32" where
  "ioapic_data io = io + 16"

definition ioapicread :: "u32 \<Rightarrow> u32 \<Rightarrow> dev \<Rightarrow> u32 \<times> dev" where
  "ioapicread io reg d = mmio_read (ioapic_data io) (mmio_write io reg d)"

definition ioapicwrite :: "u32 \<Rightarrow> u32 \<Rightarrow> u32 \<Rightarrow> dev \<Rightarrow> dev" where
  "ioapicwrite io reg data d = mmio_write (ioapic_data io) data (mmio_write io reg d)"

fun ioapic_loop :: "u32 \<Rightarrow> nat list \<Rightarrow> dev \<Rightarrow> dev" where
  "ioapic_loop io [] d = d"
| "ioapic_loop io (i # is) d =
     (let d = ioapicwrite io (REG_TABLE + 2 * of_nat i) (INT_DISABLED OR (T_IRQ0 + of_nat i)) d;
          d = ioapicwrite io (REG_TABLE + 2 * of_nat i + 1) 0 d
      in ioapic_loop io is d)"

text \<open>
  The flag \<^verbatim>\<open>ismp\<close> and the number \<^verbatim>\<open>ioapicid\<close> are those of \<^verbatim>\<open>mp.c\<close>, whose state also takes the message; \<open>io\<close> is the global
  \<^verbatim>\<open>ioapic\<close>.
\<close>

definition ioapicinit :: "mpstate \<times> u32 \<times> dev \<Rightarrow> mpstate \<times> u32 \<times> dev" where
  "ioapicinit s =
     (case s of (s, io, d) \<Rightarrow>
      if \<not> ismp s then (s, io, d)
      else
        let io = IOAPIC;
            (v, d) = ioapicread io REG_VER d;
            maxintr = unat (drop_bit 16 v AND 0xFF);
            (v, d) = ioapicread io REG_ID d;
            id = drop_bit 24 v;
            s = (if id \<noteq> ucast (ioapicid s)
                 then s\<lparr>msgs := msgs s @ [(''ioapicinit: id isn't equal to ioapicid; not a MP'' @ [CHR 0x0A], [])]\<rparr> else s)
        in (s, io, ioapic_loop io [0..<maxintr + 1] d))"

definition ioapicenable :: "u32 \<Rightarrow> u32 \<Rightarrow> mpstate \<times> u32 \<times> dev \<Rightarrow> mpstate \<times> u32 \<times> dev" where
  "ioapicenable irq cpu s =
     (case s of (s, io, d) \<Rightarrow>
      if \<not> ismp s then (s, io, d)
      else let d = ioapicwrite io (REG_TABLE + 2 * irq) (T_IRQ0 + irq) d
           in (s, io, ioapicwrite io (REG_TABLE + 2 * irq + 1) (push_bit 24 cpu) d))"

section \<open>The local controller\<close>

lemma lapicw_simps [simp]:
  "wlog (lapicw lap i v d) = wlog d @ [(lapic_reg lap i, v)]" "reads (lapicw lap i v d) = Suc (reads d)"
  "answer (lapicw lap i v d) = answer d"
  by (simp_all add: lapicw_def mmio_write_def mmio_read_def)

text \<open>The wait ends as soon as the controller reports the message delivered; it writes nothing.\<close>

lemma wait_delivered_returns:
  assumes "answer d (reads d + k) (lapic_reg lap ICRLO) AND DELIVS = 0"
  shows "\<exists>d'. wait_delivered lap d = Some d' \<and> wlog d' = wlog d"
  using assms
proof (induction k arbitrary: d)
  case 0
  then show ?case by (subst wait_delivered.simps) (simp add: mmio_read_def)
next
  case (Suc k)
  show ?case
    using Suc.IH [of "snd (mmio_read (lapic_reg lap ICRLO) d)"] Suc.prems
    by (subst wait_delivered.simps) (simp add: mmio_read_def)
qed

text \<open>A controller that delivers every message in the end.\<close>

definition delivers :: "u32 \<Rightarrow> dev \<Rightarrow> bool" where
  "delivers lap d \<longleftrightarrow> (\<forall>n. \<exists>k. answer d (n + k) (lapic_reg lap ICRLO) AND DELIVS = 0)"

lemma delivered:
  assumes "delivers lap d0" "answer d = answer d0"
  obtains d' where "wait_delivered lap d = Some d'" "wlog d' = wlog d"
  using assms wait_delivered_returns [of d _ lap] unfolding delivers_def by metis

text \<open>What was last written to a register.\<close>

definition written :: "u32 \<Rightarrow> dev \<Rightarrow> u32 \<Rightarrow> u32 option" where
  "written lap d i = map_of (rev (wlog d)) (lapic_reg lap i)"

lemma lapic_reg_eq: "i < 256 \<Longrightarrow> j < 256 \<Longrightarrow> lapic_reg lap i = lapic_reg lap j \<longleftrightarrow> i = j"
  unfolding lapic_reg_def add_left_cancel by (auto simp: word32_eq_iff word_less_nat_alt unat_word_ariths)

text \<open>All that \<^verbatim>\<open>lapicinit\<close> writes.\<close>

lemma lapicinit_log:
  assumes "delivers lap d" "lap \<noteq> 0"
  shows "\<exists>d'. lapicinit lap d = Some d' \<and> wlog d' = wlog d @
    map (\<lambda>(i, v). (lapic_reg lap i, v)) ([(SVR, 0x13F), (TDCR, X1), (TIMER, 0x20020), (TICR, 10000000),
      (LINT0, MASKED), (LINT1, MASKED)] @
      (if drop_bit 16 (answer d (reads d + 6) (lapic_reg lap VER)) AND 0xFF \<ge> 4 then [(PCINT, MASKED)] else []) @
      [(ERROR, 51), (ESR, 0), (ESR, 0), (EOI, 0), (ICRHI, 0), (ICRLO, BCAST OR INIT OR LEVEL)]) @ [(lapic_reg lap TPR, 0)]"
proof -
  define d1 where "d1 = lapicw lap LINT1 MASKED (lapicw lap LINT0 MASKED (lapicw lap TICR 10000000
    (lapicw lap TIMER (PERIODIC OR (T_IRQ0 + IRQ_TIMER)) (lapicw lap TDCR X1 (lapicw lap SVR (ENABLE OR (T_IRQ0 + IRQ_SPURIOUS)) d)))))"
  define d2 where "d2 = (if drop_bit 16 (answer d (reads d + 6) (lapic_reg lap VER)) AND 0xFF \<ge> 4
    then lapicw lap PCINT MASKED (d1\<lparr>reads := Suc (reads d1)\<rparr>) else d1\<lparr>reads := Suc (reads d1)\<rparr>)"
  define d3 where "d3 = lapicw lap ICRLO (BCAST OR INIT OR LEVEL) (lapicw lap ICRHI 0 (lapicw lap EOI 0 (lapicw lap ESR 0
    (lapicw lap ESR 0 (lapicw lap ERROR (T_IRQ0 + IRQ_ERROR) d2)))))"
  have "answer d3 = answer d" by (simp add: d3_def d2_def d1_def)
  with assms(1) obtain d4 where d4: "wait_delivered lap d3 = Some d4" "wlog d4 = wlog d3" by (rule delivered)
  have r1: "answer d1 = answer d" "reads d1 = reads d + 6" by (simp_all add: d1_def)
  have "lapicinit lap d = Option.bind (wait_delivered lap d3) (\<lambda>d. Some (lapicw lap TPR 0 d))"
    using assms(2) unfolding lapicinit_def Let_def d1_def [symmetric] mmio_read_def prod.case
    by (simp add: d3_def d2_def r1)
  then have i: "lapicinit lap d = Some (lapicw lap TPR 0 d4)" by (simp add: d4)
  have "T_IRQ0 + IRQ_ERROR = 51" "PERIODIC OR (T_IRQ0 + IRQ_TIMER) = 0x20020" "ENABLE OR (T_IRQ0 + IRQ_SPURIOUS) = 0x13F"
    by (simp_all add: lapic_consts)
  with i d4(2) show ?thesis by (simp add: d3_def d2_def d1_def)
qed

text \<open>
  \<^verbatim>\<open>lapicinit\<close> on a controller that delivers its messages returns, and leaves the controller switched on with the
  spurious vector, the timer periodic and not masked on the vector of \<^verbatim>\<open>IRQ_TIMER\<close>, both local lines masked, errors on
  the vector of \<^verbatim>\<open>IRQ_ERROR\<close>; the counter line is masked when the chip has one. The priority is lowered last, after
  all of this. Without a controller it does nothing.
\<close>

lemma lapicinit_programs:
  assumes "delivers lap d"
  shows "\<exists>d'. lapicinit lap d = Some d' \<and>
    (if lap = 0 then d' = d
     else written lap d' SVR = Some 0x13F \<and> written lap d' TIMER = Some 0x20020 \<and> written lap d' TICR = Some 10000000 \<and>
       written lap d' LINT0 = Some MASKED \<and> written lap d' LINT1 = Some MASKED \<and> written lap d' ERROR = Some 51 \<and>
       (drop_bit 16 (answer d (reads d + 6) (lapic_reg lap VER)) AND 0xFF \<ge> 4 \<longrightarrow> written lap d' PCINT = Some MASKED) \<and>
       (\<exists>log. wlog d' = log @ [(lapic_reg lap TPR, 0)] \<and> (lapic_reg lap TPR, 0) \<notin> set (drop (length (wlog d)) log)))"
proof (cases "lap = 0")
  case False
  define hi where "hi \<longleftrightarrow> drop_bit 16 (answer d (reads d + 6) (lapic_reg lap VER)) AND 0xFF \<ge> 4"
  define log where "log = map (\<lambda>(i, v). (lapic_reg lap i, v)) ([(SVR, 0x13F), (TDCR, X1), (TIMER, 0x20020), (TICR, 10000000),
    (LINT0, MASKED), (LINT1, MASKED)] @ (if hi then [(PCINT, MASKED)] else []) @
    [(ERROR, 51), (ESR, 0), (ESR, 0), (EOI, 0), (ICRHI, 0), (ICRLO, BCAST OR INIT OR LEVEL)])"
  have "\<exists>d'. lapicinit lap d = Some d' \<and> wlog d' = wlog d @ log @ [(lapic_reg lap TPR, 0)]"
    using lapicinit_log [OF assms False] unfolding log_def hi_def .
  then obtain d' where d': "lapicinit lap d = Some d'" "wlog d' = wlog d @ log @ [(lapic_reg lap TPR, 0)]" by blast
  have e: "lapic_reg lap i = lapic_reg lap j \<longleftrightarrow> i = j" if "i < 256" "j < 256" for i j using that by (rule lapic_reg_eq)
  have "(lapic_reg lap TPR, 0) \<notin> set log" by (auto simp: log_def e lapic_consts)
  moreover have "written lap d' SVR = Some 0x13F" "written lap d' TIMER = Some 0x20020" "written lap d' TICR = Some 10000000"
       "written lap d' LINT0 = Some MASKED" "written lap d' LINT1 = Some MASKED" "written lap d' ERROR = Some 51"
       "hi \<longrightarrow> written lap d' PCINT = Some MASKED"
    unfolding written_def d'(2) log_def by (simp_all add: e lapic_consts)
  ultimately show ?thesis using d' False unfolding hi_def [symmetric] by (intro exI [of _ d']) auto
qed (simp add: lapicinit_def)

text \<open>The messages sent: for each command, the processor it goes to and the low word.\<close>

definition icr_commands :: "u32 \<Rightarrow> (u32 \<times> u32) list \<Rightarrow> (u32 \<times> u32) list" where
  "icr_commands lap log = rev (snd (fold (\<lambda>(a, v) (hi, cs).
     if a = lapic_reg lap ICRHI then (v, cs) else if a = lapic_reg lap ICRLO then (hi, (drop_bit 24 hi, v) # cs) else (hi, cs))
     log (0, [])))"

section \<open>The controller for devices\<close>

text \<open>The chip behind the two words: the first selects a register, the second is the selected register.\<close>

fun io_step :: "u32 \<Rightarrow> u32 \<times> u32 \<Rightarrow> u32 \<times> (u32 \<Rightarrow> u32) \<Rightarrow> u32 \<times> (u32 \<Rightarrow> u32)" where
  "io_step io (a, v) (sel, r) =
     (if a = io then (v, r) else if a = ioapic_data io then (sel, r(sel := v)) else (sel, r))"

definition chip :: "u32 \<Rightarrow> dev \<Rightarrow> u32 \<Rightarrow> u32" where
  "chip io d = snd (fold (io_step io) (wlog d) (0, \<lambda>_. 0))"

lemma chip_write [simp]: "chip io (ioapicwrite io reg v d) = (chip io d)(reg := v)"
  by (cases "fold (io_step io) (wlog d) (0, \<lambda>_. 0)") (simp add: chip_def ioapicwrite_def mmio_write_def ioapic_data_def)

lemma chip_read [simp]: "chip io (snd (ioapicread io reg d)) = chip io d"
  by (cases "fold (io_step io) (wlog d) (0, \<lambda>_. 0)") (simp add: chip_def ioapicread_def mmio_write_def mmio_read_def)

text \<open>An entry of the redirection table.\<close>

definition redirection :: "u32 \<Rightarrow> dev \<Rightarrow> nat \<Rightarrow> u32 \<times> u32" where
  "redirection io d i = (chip io d (REG_TABLE + 2 * of_nat i), chip io d (REG_TABLE + 2 * of_nat i + 1))"

lemma unat_entry: "i < 2 ^ 28 \<Longrightarrow> unat (REG_TABLE + 2 * of_nat i) = 16 + 2 * i"
  "i < 2 ^ 28 \<Longrightarrow> unat (REG_TABLE + 2 * of_nat i + 1) = 17 + 2 * i"
  by (simp_all add: REG_TABLE_def unat_word_ariths unat_of_nat32)

lemma redirection_write:
  assumes "i < 2 ^ 28" "j < 2 ^ 28"
  shows "redirection io (ioapicwrite io (REG_TABLE + 2 * of_nat j + 1) w (ioapicwrite io (REG_TABLE + 2 * of_nat j) v d)) i =
    (if i = j then (v, w) else redirection io d i)"
proof -
  have "REG_TABLE + 2 * of_nat i = REG_TABLE + 2 * of_nat j \<longleftrightarrow> i = j"
    "REG_TABLE + 2 * of_nat i + 1 = REG_TABLE + 2 * of_nat j + 1 \<longleftrightarrow> i = j"
    "REG_TABLE + 2 * of_nat i \<noteq> REG_TABLE + 2 * of_nat j + 1"
    "REG_TABLE + 2 * of_nat i + 1 \<noteq> REG_TABLE + 2 * of_nat j"
    unfolding word32_eq_iff unat_entry [OF assms(1)] unat_entry [OF assms(2)] by presburger+
  then show ?thesis by (simp add: redirection_def)
qed

lemma redirection_loop:
  assumes "i < 2 ^ 28" "\<forall>j\<in>set js. j < 2 ^ 28"
  shows "redirection io (ioapic_loop io js d) i =
    (if i \<in> set js then (INT_DISABLED OR (T_IRQ0 + of_nat i), 0) else redirection io d i)"
  using assms(2)
proof (induction js arbitrary: d)
  case (Cons j js)
  then show ?case using redirection_write [OF assms(1), of j] by (auto simp: Let_def)
qed simp

text \<open>A sequence of calls of \<^verbatim>\<open>ioapicenable\<close>, and what it leaves in the table: for an entry, the last call for it.\<close>

definition ioapic_enables :: "(nat \<times> u32) list \<Rightarrow> mpstate \<times> u32 \<times> dev \<Rightarrow> mpstate \<times> u32 \<times> dev" where
  "ioapic_enables calls s = fold (\<lambda>(irq, cpu). ioapicenable (of_nat irq) cpu) calls s"

lemma redirection_enables:
  assumes "ismp s" "i < 2 ^ 28" "\<forall>(j, c)\<in>set calls. j < 2 ^ 28"
  shows "\<exists>d'. ioapic_enables calls (s, io, d) = (s, io, d') \<and>
    redirection io d' i = (case map_of (rev calls) i of None \<Rightarrow> redirection io d i | Some c \<Rightarrow> (T_IRQ0 + of_nat i, push_bit 24 c))"
  using assms(3)
proof (induction calls arbitrary: d)
  case (Cons x calls)
  obtain j c where x: "x = (j, c)" by (cases x)
  then have j: "j < 2 ^ 28" "\<forall>(j, c)\<in>set calls. j < 2 ^ 28" using Cons.prems by auto
  let ?d = "ioapicwrite io (REG_TABLE + 2 * of_nat j + 1) (push_bit 24 c) (ioapicwrite io (REG_TABLE + 2 * of_nat j) (T_IRQ0 + of_nat j) d)"
  have "ioapic_enables (x # calls) (s, io, d) = ioapic_enables calls (s, io, ?d)"
    using assms(1) by (simp add: x ioapic_enables_def ioapicenable_def)
  then show ?case
    using Cons.IH [OF j(2), of ?d] redirection_write [OF assms(2) j(1), of io "push_bit 24 c" "T_IRQ0 + of_nat j" d]
    by (auto simp: x map_add_def split: option.splits)
qed (simp add: ioapic_enables_def)

section \<open>The address of a start-up message\<close>

lemma drop_push_24: "drop_bit 24 (push_bit 24 (ucast (a :: u8)) :: u32) = ucast a"
proof (rule bit_word_eqI)
  show "bit (drop_bit 24 (push_bit 24 (ucast a) :: u32)) n = bit (ucast a :: u32) n" if "n < LENGTH(32)" for n
    using that bit_imp_le_length [of a n] by (auto simp: bit_simps)
qed

lemma startup_or: "v < 256 \<Longrightarrow> STARTUP OR of_nat v = STARTUP + of_nat v"
proof -
  assume "v < 256"
  then have "take_bit 8 v = v" by (simp add: take_bit_nat_eq_self)
  then have v: "take_bit 8 (of_nat v :: u32) = of_nat v" by (metis take_bit_of_nat)
  have "\<not> bit STARTUP n \<or> \<not> bit (of_nat v :: u32) n" for n
  proof (cases "n < 8")
    case True
    have "take_bit 8 STARTUP = 0" by (simp add: STARTUP_def)
    then have "\<not> bit STARTUP n" using True bit_take_bit_iff [of 8 STARTUP n] by simp
    then show ?thesis ..
  next
    case False
    then have "\<not> bit (of_nat v :: u32) n" using bit_take_bit_iff [of 8 "of_nat v :: u32" n] v by simp
    then show ?thesis ..
  qed
  then show ?thesis by (simp add: disjunctive_add)
qed

lemma startup_page:
  assumes "v < 256"
  shows "drop_bit 12 (of_nat (4096 * v) :: u32) = of_nat v" "unat (ucast (drop_bit 4 (of_nat (4096 * v) :: u32)) :: u16) = 256 * v"
proof -
  have u: "unat (of_nat (4096 * v) :: u32) = 4096 * v" using assms by (subst unat_of_nat32) simp_all
  show "drop_bit 12 (of_nat (4096 * v) :: u32) = of_nat v"
    unfolding word32_eq_iff unat_drop_bit_eq u using assms by (simp add: drop_bit_eq_div unat_of_nat32)
  have "unat (drop_bit 4 (of_nat (4096 * v) :: u32)) = 256 * v" unfolding unat_drop_bit_eq u by (simp add: drop_bit_eq_div)
  then show "unat (ucast (drop_bit 4 (of_nat (4096 * v) :: u32)) :: u16) = 256 * v"
    using assms by (simp add: unsigned_ucast_eq take_bit_nat_eq_self)
qed

section \<open>Properties\<close>

text \<open>
  C20: the table of the I/O APIC. On a multiprocessor, after \<^verbatim>\<open>ioapicinit\<close> and any sequence of calls of \<^verbatim>\<open>ioapicenable\<close>,
  every entry up to the last one the chip reports is enabled exactly if a call named its interrupt, with the vector
  \<^verbatim>\<open>T_IRQ0\<close> plus its number and routed to the processor of the last such call; otherwise it is disabled and routed
  nowhere. On a single processor nothing is written at all.
\<close>

theorem ioapic_routes:
  assumes "\<forall>(j, c)\<in>set calls. j < 2 ^ 28"
  shows "if ismp s
    then \<exists>s' d'. ioapic_enables calls (ioapicinit (s, io, d)) = (s', IOAPIC, d') \<and>
      (\<forall>i \<le> unat (drop_bit 16 (answer d (reads d) (ioapic_data IOAPIC)) AND 0xFF).
         redirection IOAPIC d' i =
           (case map_of (rev calls) i of None \<Rightarrow> (INT_DISABLED OR (T_IRQ0 + of_nat i), 0)
            | Some c \<Rightarrow> (T_IRQ0 + of_nat i, push_bit 24 c)))
    else ioapic_enables calls (ioapicinit (s, io, d)) = (s, io, d)"
proof (cases "ismp s")
  case True
  define n where "n = unat (drop_bit 16 (answer d (reads d) (ioapic_data IOAPIC)) AND 0xFF)"
  have n: "n < 256" unfolding n_def using unat_and_mask32 [of _ 8] by (simp add: mask_eq_exp_minus_1)
  obtain s1 d1 where i: "ioapicinit (s, io, d) = (s1, IOAPIC, ioapic_loop IOAPIC [0..<n + 1] d1)" "ismp s1"
    using True unfolding ioapicinit_def n_def
    by (simp add: Let_def ioapicread_def mmio_read_def mmio_write_def split: if_splits)
  have "\<exists>d'. ioapic_enables calls (s1, IOAPIC, d0) = (s1, IOAPIC, d')" for d0
    using redirection_enables [OF i(2) _ assms, of 0] by auto
  then obtain d' where d': "ioapic_enables calls (s1, IOAPIC, ioapic_loop IOAPIC [0..<n + 1] d1) = (s1, IOAPIC, d')" by blast
  have "redirection IOAPIC d' j = (case map_of (rev calls) j of None \<Rightarrow> (INT_DISABLED OR (T_IRQ0 + of_nat j), 0)
      | Some c \<Rightarrow> (T_IRQ0 + of_nat j, push_bit 24 c))" if "j \<le> n" for j
    using redirection_enables [OF i(2) _ assms, of j IOAPIC "ioapic_loop IOAPIC [0..<n + 1] d1"] d' that n
      redirection_loop [of j "[0..<n + 1]" IOAPIC d1] by (auto split: option.splits)
  then show ?thesis using True i(1) d' unfolding n_def [symmetric] by auto
next
  case False
  have "ioapic_enables calls (s, io, d) = (s, io, d)"
    by (induction calls) (use False in \<open>auto simp: ioapic_enables_def ioapicenable_def\<close>)
  then show ?thesis using False by (simp add: ioapicinit_def)
qed

definition demo_dev :: "dev" where
  "demo_dev = \<lparr>wlog = [], reads = 0, answer = (\<lambda>n a. 0x00170011)\<rparr>"

definition demo_smp :: mpstate where
  "demo_smp = \<lparr>cpu_id = replicate 8 0, bcpu = 0, ismp = True, ncpu = 2, ioapicid = 0, lapic = 0xFEE00000, msgs = [], ports = []\<rparr>"

theorem ioapic_routes_witness:
  "\<exists>s' d'. ioapic_enables [(4, 0), (14, 1)] (ioapicinit (demo_smp, 0, demo_dev)) = (s', IOAPIC, d') \<and>
    redirection IOAPIC d' 14 = (46, 0x01000000) \<and> redirection IOAPIC d' 5 = (0x00010025, 0)"
proof -
  have n: "unat (drop_bit 16 (answer demo_dev (reads demo_dev) (ioapic_data IOAPIC)) AND 0xFF) = 23"
    by (simp add: demo_dev_def)
  have "ismp demo_smp" by (simp add: demo_smp_def)
  then obtain s' d' where r: "ioapic_enables [(4, 0), (14, 1)] (ioapicinit (demo_smp, 0, demo_dev)) = (s', IOAPIC, d')"
    "\<forall>i \<le> 23. redirection IOAPIC d' i =
       (case map_of (rev [(4, 0), (14, 1)]) i of None \<Rightarrow> (INT_DISABLED OR (T_IRQ0 + of_nat i), 0)
        | Some c \<Rightarrow> (T_IRQ0 + of_nat i, push_bit 24 c))"
    using ioapic_routes [of "[(4, 0), (14, 1)]" demo_smp 0 demo_dev] unfolding n by auto
  then show ?thesis
    using r(2) [rule_format, of 14] r(2) [rule_format, of 5] by (auto simp: T_IRQ0_def INT_DISABLED_def)
qed

text \<open>
  C39: \<^verbatim>\<open>lapicstartap\<close> sends the new processor to the right place. For code at the start of a page below one megabyte, the
  segment and offset in the warm reset vector give its address, and so does the vector of both start-up messages;
  the messages are, in order, the reset, its release and the two starts, all to the processor named.
\<close>

theorem lapicstartap_addresses:
  assumes "v < 256"
  shows "\<exists>log off seg. wlog (ap_dev (lapicstartap lap apicid (of_nat (4096 * v)) s)) = wlog (ap_dev s) @ log \<and>
    icr_commands lap log = map (Pair (ucast apicid)) [0xC500, 0x8500, STARTUP + of_nat v, STARTUP + of_nat v] \<and>
    ap_mem (lapicstartap lap apicid (of_nat (4096 * v)) s) = ap_mem s @ [(0xC0000467, off), (0xC0000469, seg)] \<and>
    16 * unat seg + unat off = 4096 * v"
proof -
  let ?addr = "of_nat (4096 * v) :: u32" and ?hi = "push_bit 24 (ucast apicid) :: u32"
  let ?log = "map (\<lambda>(i, v). (lapic_reg lap i, v)) [(ICRHI, ?hi), (ICRLO, INIT OR LEVEL OR ASSERT), (ICRLO, INIT OR LEVEL),
    (ICRHI, ?hi), (ICRLO, STARTUP OR drop_bit 12 ?addr), (ICRHI, ?hi), (ICRLO, STARTUP OR drop_bit 12 ?addr)]"
  have "lapic_reg lap ICRLO \<noteq> lapic_reg lap ICRHI" by (simp add: lapic_reg_eq lapic_consts)
  moreover have "drop_bit 24 ?hi = ucast apicid" by (rule drop_push_24)
  moreover have "STARTUP OR drop_bit 12 ?addr = STARTUP + of_nat v"
    unfolding startup_page(1) [OF assms] using assms by (rule startup_or)
  ultimately have "icr_commands lap ?log = map (Pair (ucast apicid)) [0xC500, 0x8500, STARTUP + of_nat v, STARTUP + of_nat v]"
    by (simp add: icr_commands_def lapic_consts)
  moreover have "unat (ucast (drop_bit 4 ?addr) :: u16) = 256 * v"
    using assms by (rule startup_page(2))
  ultimately show ?thesis
    by (intro exI [of _ ?log] exI [of _ 0] exI [of _ "ucast (drop_bit 4 ?addr)"])
      (simp add: lapicstartap_def startup_ipi_def microdelay_def Let_def p2v_def KERNBASE_def)
qed

theorem lapicstartap_addresses_witness:
  "\<exists>log off seg. wlog (ap_dev (lapicstartap 0xFEE00000 1 0x7000 \<lparr>ap_dev = demo_dev, ap_ports = [], ap_mem = []\<rparr>)) = log \<and>
    icr_commands 0xFEE00000 log = [(1, 0xC500), (1, 0x8500), (1, 0x607), (1, 0x607)] \<and> 16 * unat (seg :: u16) + unat (off :: u16) = 0x7000"
  using lapicstartap_addresses [of 7 "0xFEE00000" 1 "\<lparr>ap_dev = demo_dev, ap_ports = [], ap_mem = []\<rparr>"]
  by (auto simp: demo_dev_def STARTUP_def)

end
