(* ===== verification/Bootmain.thy ===== *)
theory Bootmain
  imports Mp Exec
begin

text \<open>
  The boot loader (\<^verbatim>\<open>bootmain.c\<close>). The instructions that drive the disk are commented out, so that \<^verbatim>\<open>readsect\<close> changes
  nothing; the model keeps the list of its calls. Memory is a map from addresses to bytes.
\<close>

section \<open>bootmain.c\<close>

definition SECTSIZE :: u32 where "SECTSIZE = 512"

text \<open>The calls of \<^verbatim>\<open>readsect\<close>, and memory.\<close>

type_synonym bootst = "(u32 \<times> u32) list \<times> bmem"

text \<open>What becomes of the processor: back to \<^verbatim>\<open>bootasm.S\<close>, or at the entry point.\<close>

datatype bootres = Return | Enter u32

definition waitdisk :: "bootst \<Rightarrow> bootst" where
  "waitdisk s = s"

definition readsect :: "u32 \<Rightarrow> u32 \<Rightarrow> bootst \<Rightarrow> bootst" where
  "readsect dst offset s = (case waitdisk (waitdisk s) of (calls, m) \<Rightarrow> (calls @ [(dst, offset)], m))"

partial_function (option) readseg_loop :: "u32 \<Rightarrow> u32 \<Rightarrow> u32 \<Rightarrow> bootst \<Rightarrow> bootst option" where
  "readseg_loop pa epa offset s =
     (if pa < epa then readseg_loop (pa + SECTSIZE) epa (offset + 1) (readsect pa offset s) else Some s)"

definition readseg :: "u32 \<Rightarrow> u32 \<Rightarrow> u32 \<Rightarrow> bootst \<Rightarrow> bootst option" where
  "readseg pa n offset s =
     (let epa = pa + n;
          pa = pa - offset mod SECTSIZE;
          offset = offset div SECTSIZE + 1
      in readseg_loop pa epa offset s)"

partial_function (option) bootmain_loop :: "u32 \<Rightarrow> u32 \<Rightarrow> bootst \<Rightarrow> bootst option" where
  "bootmain_loop ph eph s =
     (if ph < eph
      then let p = proghdr_of (get_bytes (snd s) ph 32);
               pa = ph_paddr p
           in Option.bind (readseg pa (ph_filesz p) (ph_off p) s) (\<lambda>s. bootmain_loop (ph + 32) eph s)
      else Some s)"

definition bootmain :: "bootst \<Rightarrow> (bootres \<times> bootst) option" where
  "bootmain s =
     (let elf = 0x10000 in
      Option.bind (readseg elf 4096 0 s) (\<lambda>s.
        let h = elfhdr_of (get_bytes (snd s) elf 52) in
        if eh_magic h \<noteq> ELF_MAGIC then Some (Return, s)
        else let ph = elf + eh_phoff h;
                 eph = ph + 32 * ucast (eh_phnum h)
             in Option.bind (bootmain_loop ph eph s) (\<lambda>s.
                  let entry = eh_entry (elfhdr_of (get_bytes (snd s) elf 52)) in Some (Enter entry, s))))"

section \<open>The sectors asked for\<close>

lemma sectors_step: "0 < (x :: nat) \<Longrightarrow> (x + 511) div 512 = Suc ((x - 512 + 511) div 512)"
  by (cases "x \<le> 512") (auto simp: le_Suc_eq div_eq_0_iff intro: div_nat_eqI elim!: less_natE)

lemma readseg_loop_calls:
  assumes "unat epa + 512 \<le> 2 ^ 32"
  shows "readseg_loop pa epa offset (calls, m) =
    Some (calls @ map (\<lambda>i. (pa + 512 * of_nat i, offset + of_nat i)) [0..<(unat epa - unat pa + 511) div 512], m)"
proof (induction "unat epa - unat pa" arbitrary: pa offset calls rule: less_induct)
  case less
  show ?case
  proof (cases "pa < epa")
    case True
    then have lt: "unat pa < unat epa" by (simp add: word_less_nat_alt)
    then have u: "unat (pa + 512) = unat pa + 512" using assms by (subst unat_add32_small) auto
    have n: "(unat epa - unat pa + 511) div 512 = Suc ((unat epa - unat (pa + 512) + 511) div 512)"
      using sectors_step [of "unat epa - unat pa"] lt u by simp
    have "map (\<lambda>i. (pa + 512 * of_nat i, offset + of_nat i)) [0..<Suc k] =
        (pa, offset) # map (\<lambda>i. (pa + 512 + 512 * of_nat i, offset + 1 + of_nat i)) [0..<k]" for k
      by (simp add: upt_conv_Cons map_Suc_upt [symmetric] o_def algebra_simps del: upt_Suc)
    moreover have "unat epa - unat (pa + 512) < unat epa - unat pa" using lt u by simp
    ultimately show ?thesis
      using less [of "pa + 512" "offset + 1" "calls @ [(pa, offset)]"] True unfolding n
      by (subst readseg_loop.simps) (simp add: readsect_def waitdisk_def SECTSIZE_def del: upt_Suc)
  next
    case False
    then have "unat epa - unat pa = 0" by (simp add: word_less_nat_alt)
    then show ?thesis using False by (subst readseg_loop.simps) simp
  qed
qed

text \<open>A segment that \<^verbatim>\<open>readseg\<close> can read without wrapping round the end of memory.\<close>

definition seg_ok :: "u32 \<Rightarrow> u32 \<Rightarrow> u32 \<Rightarrow> bool" where
  "seg_ok pa n offset \<longleftrightarrow> unat pa + unat n + 512 \<le> 2 ^ 32 \<and> offset mod 512 \<le> pa"

text \<open>The byte of the image that the calls put at address \<open>a\<close>, with the image starting at sector 1.\<close>

definition delivered_at :: "(u32 \<times> u32) list \<Rightarrow> nat \<Rightarrow> nat \<Rightarrow> bool" where
  "delivered_at calls a b \<longleftrightarrow>
     (\<exists>(dst, sec) \<in> set calls. unat dst \<le> a \<and> a < unat dst + 512 \<and> 512 * (unat sec - 1) + (a - unat dst) = b)"

lemma readseg_covers:
  assumes "seg_ok pa n offset"
  obtains new where "readseg pa n offset (calls, m) = Some (calls @ new, m)"
    "\<And>k. k < unat n \<Longrightarrow> delivered_at new (unat pa + k) (unat offset + k)"
proof -
  define o' where "o' = unat offset mod 512"
  define e where "e = unat pa + unat n"
  define new where "new = map (\<lambda>i. (pa - offset mod 512 + 512 * of_nat i, offset div 512 + 1 + of_nat i)) [0..<(e - (unat pa - o') + 511) div 512]"
  have o: "unat (offset mod 512) = o'" by (simp add: unat_mod o'_def)
  have le: "o' \<le> unat pa" "e + 512 \<le> 2 ^ 32" using assms o by (simp_all add: seg_ok_def word_le_nat_alt e_def)
  have pa: "unat (pa - offset mod 512) = unat pa - o'" using le o by (simp add: unat_sub word_le_nat_alt)
  have ue: "unat (pa + n) = e" unfolding e_def using le(2) by (intro unat_add32_small) (simp add: e_def)
  have "readseg pa n offset (calls, m) = Some (calls @ new, m)"
    using readseg_loop_calls [of "pa + n" "pa - offset mod 512" "offset div 512 + 1" calls m] le(2)
    unfolding readseg_def Let_def SECTSIZE_def ue pa new_def by simp
  moreover have "delivered_at new (unat pa + k) (unat offset + k)" if k: "k < unat n" for k
  proof -
    define i where "i = (o' + k) div 512"
    have i23: "512 * i \<le> o' + k" "o' + k < 512 * i + 512"
      unfolding i_def using dividend_less_times_div [of 512 "o' + k"] by simp_all
    have "Suc i * 512 \<le> e - (unat pa - o') + 511" using i23(1) k le(1) by (simp add: e_def)
    then have "Suc i \<le> (e - (unat pa - o') + 511) div 512" by (simp only: less_eq_div_iff_mult_less_eq zero_less_numeral)
    then have i: "i < (e - (unat pa - o') + 511) div 512" "512 * i \<le> o' + k" "o' + k < 512 * i + 512" using i23 by simp_all
    have "e < 2 ^ 32" using le(2) by simp
    then have b: "unat pa - o' + 512 * i < 4294967296" "i < 8388608" using i le(1) k e_def by auto
    have d: "unat (pa - offset mod 512 + 512 * of_nat i) = unat pa - o' + 512 * i"
      using unat_plus_of_nat [of "pa - offset mod 512" "512 * i"] b(1) pa by simp
    have "unat (offset div 512) \<le> 8388607" using div_le_mono [of "unat offset" 4294967295 512] unat_lt32 [of offset] by (simp add: unat_div)
    then have s: "unat (offset div 512 + 1 + of_nat i) = unat offset div 512 + 1 + i"
      using unat_plus_of_nat [of "offset div 512" "1 + i"] b(2) by (simp add: unat_div add.assoc)
    have "(pa - offset mod 512 + 512 * of_nat i, offset div 512 + 1 + of_nat i) \<in> set new" unfolding new_def using i(1) by auto
    moreover have "unat offset = 512 * (unat offset div 512) + o'" unfolding o'_def by simp
    ultimately show ?thesis
      unfolding delivered_at_def using i le(1) d s by (intro bexI [rotated]) auto
  qed
  ultimately show thesis by (rule that)
qed

text \<open>A program header the loader can follow, with its place in memory.\<close>

definition headers_ok :: "bmem \<Rightarrow> u32 \<Rightarrow> nat \<Rightarrow> bool" where
  "headers_ok m ph n \<longleftrightarrow> unat ph + 32 * n < 2 ^ 32 \<and>
     (\<forall>i < n. let p = proghdr_of (get_bytes m (ph + 32 * of_nat i) 32) in seg_ok (ph_paddr p) (ph_filesz p) (ph_off p))"

lemma bootmain_loop_calls:
  assumes "headers_ok m ph n"
  shows "\<exists>new. bootmain_loop ph (ph + 32 * of_nat n) (calls, m) = Some (calls @ new, m) \<and>
    (\<forall>i < n. let p = proghdr_of (get_bytes m (ph + 32 * of_nat i) 32) in
       \<forall>k < unat (ph_filesz p). delivered_at new (unat (ph_paddr p) + k) (unat (ph_off p) + k))"
  using assms
proof (induction n arbitrary: ph calls)
  case 0
  then show ?case by (subst bootmain_loop.simps) simp
next
  case (Suc n)
  let ?p = "\<lambda>ph. proghdr_of (get_bytes m ph 32)"
  have seg: "seg_ok (ph_paddr (?p (ph + 32 * of_nat i))) (ph_filesz (?p (ph + 32 * of_nat i))) (ph_off (?p (ph + 32 * of_nat i)))"
    if "i < Suc n" for i using Suc.prems that by (simp add: headers_ok_def Let_def)
  obtain n1 where n1: "readseg (ph_paddr (?p ph)) (ph_filesz (?p ph)) (ph_off (?p ph)) (calls, m) = Some (calls @ n1, m)"
    "\<And>k. k < unat (ph_filesz (?p ph)) \<Longrightarrow> delivered_at n1 (unat (ph_paddr (?p ph)) + k) (unat (ph_off (?p ph)) + k)"
    using readseg_covers [OF seg [of 0, simplified], of calls m] by auto
  have sh: "ph + 32 + 32 * of_nat i = ph + 32 * of_nat (Suc i)" for i by (simp add: algebra_simps)
  have u: "unat (ph + 32) = unat ph + 32" using Suc.prems by (subst unat_add32_small) (auto simp: headers_ok_def)
  have "headers_ok m (ph + 32) n"
    using Suc.prems seg u unfolding headers_ok_def Let_def sh by (simp del: of_nat_Suc)
  from Suc.IH [OF this, of "calls @ n1"] obtain n2 where
    n2: "bootmain_loop (ph + 32) (ph + 32 * of_nat (Suc n)) (calls @ n1, m) = Some (calls @ n1 @ n2, m)"
    "\<And>i k. i < n \<Longrightarrow> k < unat (ph_filesz (?p (ph + 32 * of_nat (Suc i)))) \<Longrightarrow>
      delivered_at n2 (unat (ph_paddr (?p (ph + 32 * of_nat (Suc i)))) + k) (unat (ph_off (?p (ph + 32 * of_nat (Suc i)))) + k)"
    unfolding sh Let_def by auto
  have "unat (ph + 32 * of_nat (Suc n)) = unat ph + 32 * Suc n"
    using unat_plus_of_nat [of ph "32 * Suc n"] Suc.prems by (simp add: headers_ok_def)
  then have "ph < ph + 32 * of_nat (Suc n)" by (simp add: word_less_nat_alt del: of_nat_Suc)
  then have "bootmain_loop ph (ph + 32 * of_nat (Suc n)) (calls, m) = Some (calls @ n1 @ n2, m)"
    using n1(1) n2(1) by (subst bootmain_loop.simps) (simp add: Let_def del: of_nat_Suc)
  moreover have app: "delivered_at (n1 @ n2) a b" if "delivered_at n1 a b \<or> delivered_at n2 a b" for a b
    using that by (auto simp: delivered_at_def)
  have "delivered_at (n1 @ n2) (unat (ph_paddr (?p (ph + 32 * of_nat i))) + k) (unat (ph_off (?p (ph + 32 * of_nat i))) + k)"
    if "i < Suc n" "k < unat (ph_filesz (?p (ph + 32 * of_nat i)))" for i k
  proof (cases i)
    case 0
    then show ?thesis using that n1(2) [of k] app by simp
  next
    case (Suc j)
    then show ?thesis using that n2(2) [of j k] app by (simp del: of_nat_Suc)
  qed
  ultimately show ?case unfolding Let_def by blast
qed

section \<open>Properties\<close>


text \<open>A header with one segment of a thousand bytes, for the address 0x100000.\<close>

definition demo_kernel :: bmem where
  "demo_kernel a =
     (if a = 0x10000 then 0x7F else if a = 0x10001 then 0x45 else if a = 0x10002 then 0x4C else if a = 0x10003 then 0x46
      else if a = 0x1001A then 0x10 else if a = 0x1001C then 52 else if a = 0x1002C then 1
      else if a = 0x10039 then 0x10 else if a = 0x10042 then 0x10 else if a = 0x10044 then 0xE8 else if a = 0x10045 then 3 else 0)"

lemma nth_get_bytes: "k < n \<Longrightarrow> get_bytes m a n ! k = m (a + of_nat k)"
  by (simp add: get_bytes_def)

lemma header_fields:
  "eh_magic (elfhdr_of b) = get32 b 0" "eh_entry (elfhdr_of b) = get32 b 24" "eh_phoff (elfhdr_of b) = get32 b 28"
  "eh_phnum (elfhdr_of b) = get16 b 44" "ph_paddr (proghdr_of b) = get32 b 12" "ph_filesz (proghdr_of b) = get32 b 16"
  "ph_off (proghdr_of b) = get32 b 4"
  by (simp_all add: elfhdr_of_def proghdr_of_def)

lemma demo_kernel_header:
  "eh_magic (elfhdr_of (get_bytes demo_kernel 0x10000 52)) = ELF_MAGIC"
  "eh_entry (elfhdr_of (get_bytes demo_kernel 0x10000 52)) = 0x100000"
  "eh_phoff (elfhdr_of (get_bytes demo_kernel 0x10000 52)) = 52"
  "eh_phnum (elfhdr_of (get_bytes demo_kernel 0x10000 52)) = 1"
  "ph_paddr (proghdr_of (get_bytes demo_kernel 0x10034 32)) = 0x100000"
  "ph_filesz (proghdr_of (get_bytes demo_kernel 0x10034 32)) = 1000"
  "ph_off (proghdr_of (get_bytes demo_kernel 0x10034 32)) = 0x1000"
  by (simp_all add: header_fields get16_def get32_def nth_get_bytes demo_kernel_def ELF_MAGIC_def)


end
