(* ===== verification/Segments.thy ===== *)
theory Segments
  imports Prelude "HOL-Library.Numeral_Type"
begin

text \<open>
  The segment and gate descriptors of \<^verbatim>\<open>mmu.h\<close>, kept from the original machine. A bit-field is a word of its width, so
  that a value stored in it is cut. The lemmas read a descriptor the way the processor does.
\<close>

record segdesc =
  lim_15_0 :: u16
  base_15_0 :: u16
  base_23_16 :: u8
  sd_type :: "4 word"
  sd_s :: "1 word"
  sd_dpl :: "2 word"
  sd_p :: "1 word"
  lim_19_16 :: "4 word"
  sd_avl :: "1 word"
  sd_rsv1 :: "1 word"
  sd_db :: "1 word"
  sd_g :: "1 word"
  base_31_24 :: u8

definition SEG :: "u32 \<Rightarrow> u32 \<Rightarrow> u32 \<Rightarrow> u32 \<Rightarrow> segdesc" where
  "SEG type base lim dpl =
     \<lparr>lim_15_0 = ucast (drop_bit 12 lim AND 0xffff), base_15_0 = ucast (base AND 0xffff),
      base_23_16 = ucast (drop_bit 16 base AND 0xff), sd_type = ucast type, sd_s = 1, sd_dpl = ucast dpl, sd_p = 1,
      lim_19_16 = ucast (drop_bit 28 lim), sd_avl = 0, sd_rsv1 = 0, sd_db = 1, sd_g = 1, base_31_24 = ucast (drop_bit 24 base)\<rparr>"

definition SEG16 :: "u32 \<Rightarrow> u32 \<Rightarrow> u32 \<Rightarrow> u32 \<Rightarrow> segdesc" where
  "SEG16 type base lim dpl =
     \<lparr>lim_15_0 = ucast (lim AND 0xffff), base_15_0 = ucast (base AND 0xffff),
      base_23_16 = ucast (drop_bit 16 base AND 0xff), sd_type = ucast type, sd_s = 1, sd_dpl = ucast dpl, sd_p = 1,
      lim_19_16 = ucast (drop_bit 16 lim), sd_avl = 0, sd_rsv1 = 0, sd_db = 1, sd_g = 0, base_31_24 = ucast (drop_bit 24 base)\<rparr>"

definition STS_IG32 :: u32 where "STS_IG32 = 0xE"
definition STS_TG32 :: u32 where "STS_TG32 = 0xF"

record gatedesc =
  off_15_0 :: u16
  gd_cs :: u16
  gd_args :: "5 word"
  gd_rsv1 :: "3 word"
  gd_type :: "4 word"
  gd_s :: "1 word"
  gd_dpl :: "2 word"
  gd_p :: "1 word"
  off_31_16 :: u16

definition SETGATE :: "bool \<Rightarrow> u32 \<Rightarrow> u32 \<Rightarrow> u32 \<Rightarrow> gatedesc \<Rightarrow> gatedesc" where
  "SETGATE istrap sel off d gate =
     gate\<lparr>off_15_0 := ucast (off AND 0xffff), gd_cs := ucast sel, gd_args := 0, gd_rsv1 := 0,
       gd_type := ucast (if istrap then STS_TG32 else STS_IG32), gd_s := 0, gd_dpl := ucast d, gd_p := 1,
       off_31_16 := ucast (drop_bit 16 off)\<rparr>"

section \<open>What the processor reads\<close>

definition seg_base :: "segdesc \<Rightarrow> u32" where
  "seg_base s = ucast (base_15_0 s) OR push_bit 16 (ucast (base_23_16 s)) OR push_bit 24 (ucast (base_31_24 s))"

definition seg_limit :: "segdesc \<Rightarrow> u32" where
  "seg_limit s = (let l = ucast (lim_15_0 s) OR push_bit 16 (ucast (lim_19_16 s))
     in if sd_g s = 1 then push_bit 12 l OR 0xFFF else l)"

definition gate_offset :: "gatedesc \<Rightarrow> u32" where
  "gate_offset g = ucast (off_15_0 g) OR push_bit 16 (ucast (off_31_16 g))"

lemma low_masks: "(0xff :: u32) = mask 8" "(0xffff :: u32) = mask 16" "(0xFFF :: u32) = mask 12"
  by (simp_all add: mask_eq_exp_minus_1)

lemmas seg_bits = low_masks bit_simps

text \<open>The base survives the three fields it is cut into; a gate's offset survives its two.\<close>

lemma SEG_base: "seg_base (SEG type base lim dpl) = base" "seg_base (SEG16 type base lim dpl) = base"
proof -
  have "bit (seg_base (SEG type base lim dpl)) n = bit base n" if "n < LENGTH(32)" for n
    using that by (cases "n < 24") (auto simp: seg_base_def SEG_def seg_bits)
  then show "seg_base (SEG type base lim dpl) = base" by (rule bit_word_eqI)
  then show "seg_base (SEG16 type base lim dpl) = base" by (simp add: seg_base_def SEG_def SEG16_def)
qed

lemma SETGATE_offset: "gate_offset (SETGATE istrap sel off d g) = off"
  by (rule bit_word_eqI) (auto simp: gate_offset_def SETGATE_def seg_bits)

text \<open>A normal segment ends with the page of its limit; a small one has a limit below one megabyte.\<close>

lemma SEG_limit: "seg_limit (SEG type base lim dpl) = lim OR 0xFFF"
proof (rule bit_word_eqI)
  show "bit (seg_limit (SEG type base lim dpl)) n = bit (lim OR 0xFFF) n" if "n < LENGTH(32)" for n
    using that by (cases "n < 28") (auto simp: seg_limit_def SEG_def Let_def seg_bits)
qed

lemma SEG16_limit: "seg_limit (SEG16 type base lim dpl) = take_bit 20 lim"
  by (rule bit_word_eqI) (auto simp: seg_limit_def SEG16_def Let_def seg_bits)

end
