(* ===== verification/Spec2Isabelle.thy ===== *)
theory Spec2Isabelle
  imports Prelude Memlayout Arm Uart Kstring Kalloc Vm Kvm Irq Numerals Console Bio Boot Pipe Memide Log Ulib Grep Programs Syscall Sysfile Shell Grammar Mkfs Umalloc Exec Kbd Mp Apic Bootmain Segments
begin

text \<open>
  A verification development for the ARM port of the teaching kernel xv6: the kernel that boots on the
  Versatile board or on a Raspberry Pi, its system calls, and the user programs that run on it.

  \<^bold>\<open>The program and the theories.\<close> Much of the kernel's text is commented out in this port (most of \<^verbatim>\<open>fs.c\<close>,
  \<^verbatim>\<open>proc.c\<close>, \<^verbatim>\<open>bio.c\<close>, \<^verbatim>\<open>file.c\<close> and \<^verbatim>\<open>ide.c\<close>, the user-memory half of \<^verbatim>\<open>vm.c\<close>). Only live text is modelled. Where live
  text calls a routine that is commented out, the routine is an argument of the definitions that call it,
  and a theorem about them names what it relies on as a hypothesis.

  \<^item> \<^verbatim>\<open>Prelude\<close>: machine integers as words, the ways a routine can fail (\<^verbatim>\<open>err\<close>: a panic, an abort, a wait for
    ever, an access C leaves undefined) and the result type of everything below.
  \<^item> \<^verbatim>\<open>Memlayout\<close>: \<^verbatim>\<open>mmu.h\<close>, \<^verbatim>\<open>memlayout.h\<close> and the boot section table of \<^verbatim>\<open>main.c\<close>, for both build targets.
  \<^item> \<^verbatim>\<open>Arm\<close>: \<^verbatim>\<open>arm.c\<close> and \<^verbatim>\<open>spinlock.c\<close>. Masking of interrupts and the nesting of \<^verbatim>\<open>pushcli\<close> and \<^verbatim>\<open>popcli\<close>; the locks are
    the second instance of one locale of nested sections (\<^verbatim>\<open>nested_mask\<close>).
  \<^item> \<^verbatim>\<open>Uart\<close>: \<^verbatim>\<open>mmio.c\<close> and \<^verbatim>\<open>uart.c\<close> over a device that is a log of writes and an oracle of answers to reads.
  \<^item> \<^verbatim>\<open>Kstring\<close>: \<^verbatim>\<open>memset\<close> of \<^verbatim>\<open>string.c\<close> over word-addressed memory seen through an address translation.
  \<^item> \<^verbatim>\<open>Kalloc\<close>: \<^verbatim>\<open>kalloc.c\<close>. The free list threaded through the free pages, refined by a stack of pages.
  \<^item> \<^verbatim>\<open>Vm\<close> and \<^verbatim>\<open>Kvm\<close>: the live part of \<^verbatim>\<open>vm.c\<close>. Page tables in memory, \<^verbatim>\<open>walkpgdir\<close>, \<^verbatim>\<open>mappages\<close>, and the address space that
    \<^verbatim>\<open>setupkvm\<close> and \<^verbatim>\<open>kvmalloc\<close> build, as a statement about the translation of every mapped address.
  \<^item> \<^verbatim>\<open>Irq\<close>: \<^verbatim>\<open>trap.c\<close>, \<^verbatim>\<open>picirq.c\<close> and \<^verbatim>\<open>timer.c\<close>. The vector page word by word, and the interrupt controller as a table
    of handlers with a mask.
  \<^item> \<^verbatim>\<open>Numerals\<close> and \<^verbatim>\<open>Console\<close>: the digit loop shared by both printers, and \<^verbatim>\<open>console.c\<close> (\<^verbatim>\<open>cprintf\<close>, \<^verbatim>\<open>panic\<close>, the input ring).
  \<^item> \<^verbatim>\<open>Kbd\<close>: \<^verbatim>\<open>kbd.c\<close> and the tables of \<^verbatim>\<open>kbd.h\<close>.
  \<^item> \<^verbatim>\<open>Mp\<close>: \<^verbatim>\<open>mp.c\<close> and \<^verbatim>\<open>mp.h\<close>. The search for the firmware's table of processors, and the reading of it.
  \<^item> \<^verbatim>\<open>Apic\<close>: \<^verbatim>\<open>lapic.c\<close> and \<^verbatim>\<open>ioapic.c\<close>, the interrupt controllers of a multiprocessor, over the devices of \<^verbatim>\<open>Uart\<close>.
  \<^item> \<^verbatim>\<open>Bootmain\<close>: \<^verbatim>\<open>bootmain.c\<close>, the loader.
  \<^item> \<^verbatim>\<open>Segments\<close>: the descriptors of \<^verbatim>\<open>mmu.h\<close> that the original machine needs.
  \<^item> \<^verbatim>\<open>Bio\<close>, \<^verbatim>\<open>Boot\<close>: the buffer ring of \<^verbatim>\<open>bio.c\<close>, and \<^verbatim>\<open>main\<close> with the initialisers it calls.
  \<^item> \<^verbatim>\<open>Pipe\<close>: \<^verbatim>\<open>pipe.c\<close>. A call of \<^verbatim>\<open>pipewrite\<close> or \<^verbatim>\<open>piperead\<close> runs up to its return or its sleep; a trace interleaves
    calls, wake-ups and closes.
  \<^item> \<^verbatim>\<open>Memide\<close>, \<^verbatim>\<open>Log\<close>: the disk in memory and the write-ahead log of \<^verbatim>\<open>log.c\<close> over a block device given by a locale.
  \<^item> \<^verbatim>\<open>Syscall\<close>, \<^verbatim>\<open>Sysfile\<close>: \<^verbatim>\<open>syscall.c\<close>, \<^verbatim>\<open>sysproc.c\<close> and \<^verbatim>\<open>sysfile.c\<close> over the memory and registers of a process. The
    kernel routines they call are a record of functions.
  \<^item> \<^verbatim>\<open>Exec\<close>: \<^verbatim>\<open>exec.c\<close> and \<^verbatim>\<open>elf.h\<close> over the same record and a second one for the user half of \<^verbatim>\<open>vm.c\<close>.
  \<^item> \<^verbatim>\<open>Ulib\<close>: \<^verbatim>\<open>ulib.c\<close> and \<^verbatim>\<open>printf.c\<close> over a record of system calls (\<^verbatim>\<open>usys\<close>), which is also the world of the programs.
  \<^item> \<^verbatim>\<open>Umalloc\<close>: \<^verbatim>\<open>umalloc.c\<close>. The ring of free blocks in address order, and a client that calls \<^verbatim>\<open>malloc\<close> and \<^verbatim>\<open>free\<close>.
  \<^item> \<^verbatim>\<open>Grep\<close>, \<^verbatim>\<open>Programs\<close>: \<^verbatim>\<open>grep.c\<close> and the small user programs.
  \<^item> \<^verbatim>\<open>Shell\<close>, \<^verbatim>\<open>Grammar\<close>: \<^verbatim>\<open>sh.c\<close>, and the grammar of its input.
  \<^item> \<^verbatim>\<open>Mkfs\<close>: \<^verbatim>\<open>mkfs.c\<close> and the on-disk format of \<^verbatim>\<open>fs.h\<close>, over the image as a list of sectors.

  \<^bold>\<open>How state and effects are rendered.\<close> A C structure is a record with the source's fields; 32-bit integers
  are words, so arithmetic wraps as it does in the kernel; C strings without their terminator are strings,
  except where a buffer's bytes matter (the shell's line, grep's buffer), where positions and terminators
  are kept. Routines pass their state explicitly. Every panic, abort and early return is a branch of the
  result. Loops that may not end are partial functions, whose undefined value is not to return; a claim
  that such a loop ends is proved as such.

  \<^bold>\<open>What is proved.\<close> Each component has its well-formedness invariant, one lemma per operation that keeps it,
  and properties stated for a reader of the C code:
  \<^item> the log: a transaction is atomic under a crash at every step, and recovery can itself be interrupted;
  \<^item> pipes: first in, first out under any interleaving, and a writer always gets through to a live reader;
  \<^item> the shell: the parser ends on every line, accepts exactly the lines of the grammar with the grammar's
    tree, and the strings it cuts are the words of the line; running a command never returns;
  \<^item> the image builder: the finished image holds exactly the given files, with no sector used twice and the
    bitmap right;
  \<^item> \<^verbatim>\<open>exec\<close>: the new program finds exactly the given arguments on its stack, and a call that fails changes nothing;
  \<^item> the keyboard: its static word always means what the bytes read so far mean, and letters come out right;
  \<^item> processors: \<^verbatim>\<open>mpinit\<close> finds exactly those of the table, and does not return on an entry it does not know;
  \<^item> the I/O APIC routes exactly the enabled interrupts, and \<^verbatim>\<open>lapicstartap\<close> starts a processor at the given address;
  \<^item> the loader asks for the right sectors, enters the kernel, and loads nothing, its disk routines being empty;
  \<^item> the user allocator: any sequence of \<^verbatim>\<open>malloc\<close> and \<^verbatim>\<open>free\<close> ends, and its blocks partition the memory obtained;
  \<^item> system calls: argument checks keep inside the process, calls on the file system open and close
    exactly one transaction on every path, unknown numbers are answered with an error;
  \<^item> memory: the allocator is a stack of pages, \<^verbatim>\<open>kfree\<close> panics exactly on what it may not free, the kernel
    map translates every address it should and the allocator survives the switch to it;
  \<^item> boot: \<^verbatim>\<open>main\<close> reaches its end from the state the boot code leaves;
  \<^item> interrupts and locks: nesting restores the mask, the controller agrees with its handler table;
  \<^item> printing and reading: the printers write the text their format means, \<^verbatim>\<open>console_read\<close> takes lines in
    order, the user library's routines do what their callers expect;
  \<^item> programs: \<^verbatim>\<open>grep\<close> decides its patterns and prints the matching lines, \<^verbatim>\<open>wc\<close> counts.

  \<^bold>\<open>Bounds and fuel.\<close> The page-table loop of \<^verbatim>\<open>mappages\<close> is given 2^20 rounds, the number of pages of the address
  space, and \<^verbatim>\<open>mappages\<close> is proved to need no more. The writer of \<^verbatim>\<open>pipe_pump\<close> is given its length plus two
  rounds. The shell's descent is given four calls per character and four more, and is proved never to run
  out. The digit loops are bounded by the buffers of the source, whose overflow is a branch of the model.

  \<^bold>\<open>Not modelled.\<close> Assembly (\<^verbatim>\<open>entry.S\<close>, \<^verbatim>\<open>bootasm.S\<close>, \<^verbatim>\<open>swtch.S\<close>, \<^verbatim>\<open>trap_asm.S\<close>, \<^verbatim>\<open>usys.S\<close>, \<^verbatim>\<open>initcode.S\<close>, \<^verbatim>\<open>entryother.S\<close>): its
  effect enters as the state in which C code starts. \<^verbatim>\<open>usertests.c\<close> is a test suite, and implements no part of the system. \<^verbatim>\<open>defs.h\<close>,
  \<^verbatim>\<open>user.h\<close> and \<^verbatim>\<open>file.h\<close> declare what others define. The text that is commented out, all of \<^verbatim>\<open>x86.h\<close> included. Timing, caches and more than one processor, which this port does not start.
\<close>


end
